(* ===== verification/Prelude.thy ===== *)
theory Prelude
  imports Main "HOL-Library.Word" "HOL-Library.Sublist"
begin

text \<open>
  Shared vocabulary of the development: fixed-width integers, bytes and the characters of a
  \<open>std::string\<close>, \<open>std::string::find\<close> and \<open>substr\<close>, decimal output of integers, and a generic
  transition system with reachability. The named collections below carry the component proofs.
\<close>

unbundle bit_operations_syntax

named_theorems find_rules \<open>how the substring search walks over a composed text\<close>
named_theorems wire_rules \<open>byte-level facts about the wire codecs\<close>

section \<open>Machine integers and bytes\<close>

type_synonym u8 = "8 word"
type_synonym u16 = "16 word"
type_synonym u32 = "32 word"
type_synonym u64 = "64 word"
type_synonym bytes = "u8 list"

text \<open>
  A \<open>std::string\<close> is a sequence of 8-bit \<open>char\<close>s; \<open>string\<close> (a \<open>char list\<close>) is used for it.
  The two casts are those of \<open>std::string(body.begin(), body.end())\<close> and of \<open>memcpy\<close> from
  \<open>payload.data()\<close>.
\<close>

definition byte_of_char :: "char \<Rightarrow> u8" where
  "byte_of_char c = of_nat (of_char c)"

definition char_of_byte :: "u8 \<Rightarrow> char" where
  "char_of_byte b = char_of (unat b)"

lemma of_char_less_256: "(of_char c :: nat) < 256"
  by simp

lemma char_of_byte_of_char [simp]: "char_of_byte (byte_of_char c) = c"
proof -
  have "unat (of_nat (of_char c) :: u8) = of_char c"
    using of_char_less_256 [of c] by (simp add: unat_of_nat)
  then show ?thesis
    by (simp add: char_of_byte_def byte_of_char_def)
qed

lemma byte_of_char_of_byte [simp]: "byte_of_char (char_of_byte b) = b"
proof -
  have "of_char (char_of (unat b) :: char) = unat b"
    using unsigned_less [of b, where ?'a = nat] by simp
  then show ?thesis
    by (simp add: char_of_byte_def byte_of_char_def)
qed

definition bytes_of_string :: "string \<Rightarrow> bytes" where
  "bytes_of_string s = map byte_of_char s"

definition string_of_bytes :: "bytes \<Rightarrow> string" where
  "string_of_bytes bs = map char_of_byte bs"

lemma string_of_bytes_of_string [simp]: "string_of_bytes (bytes_of_string s) = s"
  by (simp add: bytes_of_string_def string_of_bytes_def comp_def)

lemma bytes_of_string_of_bytes [simp]: "bytes_of_string (string_of_bytes bs) = bs"
  by (simp add: bytes_of_string_def string_of_bytes_def comp_def)

lemma length_bytes_of_string [simp]: "length (bytes_of_string s) = length s"
  by (simp add: bytes_of_string_def)

lemma length_string_of_bytes [simp]: "length (string_of_bytes bs) = length bs"
  by (simp add: string_of_bytes_def)

lemma bytes_of_string_Nil [simp]: "bytes_of_string [] = []"
  by (simp add: bytes_of_string_def)

lemma string_of_bytes_Nil [simp]: "string_of_bytes [] = []"
  by (simp add: string_of_bytes_def)

section \<open>Substring search\<close>

text \<open>
  \<open>s.find(needle, pos)\<close> is the least index \<open>i\<close> with \<open>pos \<le> i\<close> at which \<open>needle\<close> occurs, and
  \<open>npos\<close> (here \<open>None\<close>) if there is none. \<open>s.find(c, pos)\<close> is the search for the one-character
  text. \<open>s.substr(pos, n)\<close> is only called with \<open>pos \<le> s.size()\<close>, where it does not throw.
\<close>

fun find_idx :: "string \<Rightarrow> string \<Rightarrow> nat option" where
  "find_idx nd [] = (if nd = [] then Some 0 else None)"
| "find_idx nd (c # cs) =
     (if prefix nd (c # cs) then Some 0 else map_option Suc (find_idx nd cs))"

definition str_find :: "string \<Rightarrow> string \<Rightarrow> nat \<Rightarrow> nat option" where
  "str_find s nd pos =
     (if pos \<le> length s then map_option (\<lambda>i. pos + i) (find_idx nd (drop pos s)) else None)"

definition str_substr :: "string \<Rightarrow> nat \<Rightarrow> nat \<Rightarrow> string" where
  "str_substr s pos n = take n (drop pos s)"

lemma find_idx_SomeD:
  "find_idx nd s = Some i \<Longrightarrow>
     i \<le> length s \<and> prefix nd (drop i s) \<and> (\<forall>j < i. \<not> prefix nd (drop j s))"
proof (induction nd s arbitrary: i rule: find_idx.induct)
  case (1 nd)
  then show ?case by (simp split: if_splits)
next
  case (2 nd c cs)
  show ?case
  proof (cases "prefix nd (c # cs)")
    case True
    with "2.prems" show ?thesis by simp
  next
    case False
    with "2.prems" obtain k where k: "find_idx nd cs = Some k" "i = Suc k" by auto
    from "2.IH" [OF False k(1)] False k(2) have "\<not> prefix nd (drop j (c # cs))" if "j < i" for j
      using that by (cases j) auto
    with "2.IH" [OF False k(1)] k(2) show ?thesis by simp
  qed
qed

lemma find_idx_NoneD:
  "find_idx nd s = None \<Longrightarrow> j \<le> length s \<Longrightarrow> \<not> prefix nd (drop j s)"
proof (induction nd s arbitrary: j rule: find_idx.induct)
  case (1 nd)
  then show ?case by (simp split: if_splits)
next
  case (2 nd c cs)
  then show ?case by (cases j) (auto split: if_splits)
qed

text \<open>The search returns the first occurrence: the two lemmas above give an exact specification.\<close>

lemma find_idx_eq_SomeI:
  assumes "i \<le> length s" and "prefix nd (drop i s)" and "\<And>j. j < i \<Longrightarrow> \<not> prefix nd (drop j s)"
  shows "find_idx nd s = Some i"
proof (cases "find_idx nd s")
  case None
  with assms show ?thesis by (blast dest: find_idx_NoneD)
next
  case (Some k)
  with assms show ?thesis
    by (metis find_idx_SomeD linorder_neqE_nat)
qed

lemma find_idx_prefix [find_rules]: "prefix nd s \<Longrightarrow> find_idx nd s = Some 0"
  by (cases s) auto

text \<open>
  The needles of the program all start with a quote: a stretch of text without a quote is
  skipped in one step.
\<close>

lemma find_idx_skip [find_rules]:
  "q \<notin> set xs \<Longrightarrow>
     find_idx (q # nd) (xs @ ys) = map_option (\<lambda>i. length xs + i) (find_idx (q # nd) ys)"
proof (induction xs)
  case Nil
  then show ?case by (simp add: option.map_ident)
next
  case (Cons x xs)
  then show ?case by (simp add: option.map_comp comp_def)
qed

lemma find_idx_absent: "q \<notin> set xs \<Longrightarrow> find_idx (q # nd) xs = None"
  using find_idx_skip [of q xs nd "[]"] by simp

lemma find_idx_quote:
  "find_idx (q # nd) (q # s) =
     (if prefix nd s then Some 0 else map_option Suc (find_idx (q # nd) s))"
  by simp

text \<open>The text behind the first occurrence.\<close>

definition after :: "string \<Rightarrow> string \<Rightarrow> string option" where
  "after nd s = map_option (\<lambda>i. drop (i + length nd) s) (find_idx nd s)"

lemma after_Nil [find_rules]: "nd \<noteq> [] \<Longrightarrow> after nd [] = None"
  by (simp add: after_def)

lemma after_hit: "prefix nd s \<Longrightarrow> after nd s = Some (drop (length nd) s)"
  by (simp add: after_def find_idx_prefix)

lemma after_miss: "\<not> prefix nd (c # s) \<Longrightarrow> after nd (c # s) = after nd s"
  by (simp add: after_def option.map_comp comp_def)

lemma after_skip: "q \<notin> set xs \<Longrightarrow> after (q # nd) (xs @ ys) = after (q # nd) ys"
  by (induction xs) (auto simp: after_miss)

lemma after_SomeD: "after nd s = Some r \<Longrightarrow> \<exists>p. s = p @ nd @ r"
  by (auto simp: after_def prefix_def dest!: find_idx_SomeD)
    (metis append_eq_conv_conj append_assoc append_take_drop_id drop_drop length_append add.commute)

lemma find_idx_None_iff_after: "find_idx nd s = None \<longleftrightarrow> after nd s = None"
  by (simp add: after_def)

text \<open>Two texts cut at their first quote.\<close>

lemma prefix_cut:
  "q \<notin> set a \<Longrightarrow> q \<notin> set b \<Longrightarrow> prefix (a @ q # x) (b @ q # y) \<longleftrightarrow> a = b \<and> prefix x y"
proof (induction a arbitrary: b)
  case Nil
  then show ?case by (cases b) auto
next
  case (Cons c a)
  then show ?case by (cases b) auto
qed

lemma find_idx_char:
  "find_idx [q] s = (if q \<in> set s then Some (length (takeWhile (\<lambda>c. c \<noteq> q) s)) else None)"
  by (induction s) auto

lemma str_find_bounds: "str_find s nd pos = Some i \<Longrightarrow> pos \<le> i \<and> i + length nd \<le> length s"
  by (auto simp: str_find_def split: if_splits dest!: find_idx_SomeD dest: prefix_length_le)

section \<open>Decimal output of integers\<close>

definition digit_char :: "nat \<Rightarrow> char" where
  "digit_char d = char_of (48 + d)"

text \<open>\<open>std::to_string\<close> and \<open>ostream <<\<close> on an integer: decimal, no padding, no separator.\<close>

fun nat_str :: "nat \<Rightarrow> string" where
  "nat_str n = (if n < 10 then [digit_char n] else nat_str (n div 10) @ [digit_char (n mod 10)])"

declare nat_str.simps [simp del]

definition int_str :: "int \<Rightarrow> string" where
  "int_str i = (if i < 0 then CHR ''-'' # nat_str (nat (- i)) else nat_str (nat i))"

text \<open>\<open>std::isdigit\<close> in the C locale.\<close>

definition is_digit :: "char \<Rightarrow> bool" where
  "is_digit c \<longleftrightarrow> 48 \<le> (of_char c :: nat) \<and> (of_char c :: nat) \<le> 57"

definition digit_val :: "char \<Rightarrow> nat" where
  "digit_val c = of_char c - 48"

definition str_val :: "string \<Rightarrow> nat" where
  "str_val s = foldl (\<lambda>v c. v * 10 + digit_val c) 0 s"

lemma of_char_digit_char: "d < 10 \<Longrightarrow> (of_char (digit_char d) :: nat) = 48 + d"
  by (simp add: digit_char_def)

lemma digit_chars [simp]:
  "digit_char 0 = CHR ''0''" "digit_char 1 = CHR ''1''" "digit_char 2 = CHR ''2''"
  "digit_char 3 = CHR ''3''" "digit_char 4 = CHR ''4''" "digit_char 5 = CHR ''5''"
  "digit_char 6 = CHR ''6''" "digit_char 7 = CHR ''7''" "digit_char 8 = CHR ''8''"
  "digit_char 9 = CHR ''9''"
  by code_simp+

lemma digit_char_Suc_0 [simp]: "digit_char (Suc 0) = CHR ''1''"
  by code_simp

lemma is_digit_digit_char [simp]: "d < 10 \<Longrightarrow> is_digit (digit_char d)"
  by (simp add: is_digit_def of_char_digit_char)

lemma digit_val_digit_char [simp]: "d < 10 \<Longrightarrow> digit_val (digit_char d) = d"
  by (simp add: digit_val_def of_char_digit_char)

lemma nat_str_digits: "\<forall>c \<in> set (nat_str n). is_digit c"
proof (induction n rule: nat_str.induct)
  case (1 n)
  then show ?case by (cases "n < 10") (auto simp: nat_str.simps [of n])
qed

lemma nat_str_nonempty [simp]: "nat_str n \<noteq> []"
  by (subst nat_str.simps) simp

lemma str_val_append: "str_val (xs @ [c]) = str_val xs * 10 + digit_val c"
  by (simp add: str_val_def)

lemma str_val_nat_str [simp]: "str_val (nat_str n) = n"
proof (induction n rule: nat_str.induct)
  case (1 n)
  show ?case
  proof (cases "n < 10")
    case True
    then show ?thesis by (simp add: nat_str.simps [of n] str_val_def)
  next
    case False
    with 1 show ?thesis by (simp add: nat_str.simps [of n] str_val_append)
  qed
qed

lemma length_nat_str: "n < 10 ^ k \<Longrightarrow> 0 < k \<Longrightarrow> length (nat_str n) \<le> k"
proof (induction k arbitrary: n)
  case 0
  then show ?case by simp
next
  case (Suc k)
  show ?case
  proof (cases "n < 10")
    case True
    then show ?thesis by (simp add: nat_str.simps [of n])
  next
    case False
    with Suc.prems have "n div 10 < 10 ^ k" and "0 < k"
      by (simp add: less_mult_imp_div_less mult.commute, cases k) auto
    with Suc.IH [of "n div 10"] False show ?thesis by (simp add: nat_str.simps [of n])
  qed
qed

lemma nat_str_inj: "nat_str m = nat_str n \<Longrightarrow> m = n"
  by (metis str_val_nat_str)

lemma not_is_digit [simp]:
  "\<not> is_digit CHR 0x22" "\<not> is_digit CHR '',''" "\<not> is_digit CHR ''}''" "\<not> is_digit CHR '' ''"
  "\<not> is_digit CHR ''.''" "\<not> is_digit CHR ''-''" "\<not> is_digit CHR 0x09"
  by (simp_all add: is_digit_def)

lemma quote_notin_nat_str [simp]: "CHR 0x22 \<notin> set (nat_str n)"
  using nat_str_digits [of n] not_is_digit(1) by blast

section \<open>Lists\<close>

lemma length_filter_update:
  "i < length xs \<Longrightarrow>
     length (filter P (xs[i := y])) + (if P (xs ! i) then 1 else 0) =
     length (filter P xs) + (if P y then 1 else 0)"
proof (induction xs arbitrary: i)
  case Nil
  then show ?case by simp
next
  case (Cons x xs)
  then show ?case by (cases i) auto
qed

section \<open>Transition systems\<close>

text \<open>
  Every event-driven component is a set of start states and a relation of labelled steps. An
  invariant of the component is a state predicate that holds at the start and that every step
  keeps; it then holds in every reachable state.
\<close>

inductive reach :: "('s \<Rightarrow> bool) \<Rightarrow> ('s \<Rightarrow> 'e \<Rightarrow> 's \<Rightarrow> bool) \<Rightarrow> 's \<Rightarrow> bool"
  for start :: "'s \<Rightarrow> bool" and step :: "'s \<Rightarrow> 'e \<Rightarrow> 's \<Rightarrow> bool"
where
  reach_start: "start s \<Longrightarrow> reach start step s"
| reach_step: "reach start step s \<Longrightarrow> step s e t \<Longrightarrow> reach start step t"

locale transition_system =
  fixes start :: "'s \<Rightarrow> bool"
    and step :: "'s \<Rightarrow> 'e \<Rightarrow> 's \<Rightarrow> bool"
    and inv :: "'s \<Rightarrow> bool"
  assumes inv_start: "start s \<Longrightarrow> inv s"
    and inv_step: "inv s \<Longrightarrow> step s e t \<Longrightarrow> inv t"
begin

lemma reach_inv: "reach start step s \<Longrightarrow> inv s"
  by (induction rule: reach.induct) (blast intro: inv_start inv_step)+

lemma reach_step_inv: "reach start step s \<Longrightarrow> step s e t \<Longrightarrow> inv s \<and> inv t"
  by (blast intro: reach_inv reach_step)

end

end
