(* ===== verification/Protocol.thy ===== *)
theory Protocol
  imports Prelude
begin

text \<open>
  The wire protocol of \<^verbatim>\<open>server/include/protocol.hpp\<close>: message types, the 8-byte header with its
  encoder and decoder, and \<open>Message::make\<close>. \<open>htonl\<close> and friends depend on the byte order of the
  host, which is therefore a parameter of both codecs. The second half states what any header
  codec must satisfy for framed messages to survive a byte stream, as the locale \<open>header_codec\<close>,
  and discharges it for the code's codec on both kinds of host.
\<close>

unbundle bit_operations_syntax

section \<open>Byte order of the host\<close>

datatype endianness = LittleEndian | BigEndian

definition bswap32 :: "u32 \<Rightarrow> u32" where
  "bswap32 x = push_bit 24 (x AND 0xFF) OR push_bit 8 (x AND 0xFF00)
     OR drop_bit 8 (x AND 0xFF0000) OR drop_bit 24 x"

definition bswap16 :: "u16 \<Rightarrow> u16" where
  "bswap16 x = push_bit 8 (x AND 0xFF) OR drop_bit 8 x"

definition htonl :: "endianness \<Rightarrow> u32 \<Rightarrow> u32" where
  "htonl E x = (case E of LittleEndian \<Rightarrow> bswap32 x | BigEndian \<Rightarrow> x)"

definition htons :: "endianness \<Rightarrow> u16 \<Rightarrow> u16" where
  "htons E x = (case E of LittleEndian \<Rightarrow> bswap16 x | BigEndian \<Rightarrow> x)"

definition ntohl :: "endianness \<Rightarrow> u32 \<Rightarrow> u32" where
  "ntohl E x = htonl E x"

definition ntohs :: "endianness \<Rightarrow> u16 \<Rightarrow> u16" where
  "ntohs E x = htons E x"

section \<open>Constants, message types and the header\<close>

definition kMaxPayloadSize :: u32 where
  "kMaxPayloadSize = 16 * 1024 * 1024"

definition kHeaderSize :: nat where
  "kHeaderSize = 8"

text \<open>
  The named enumerators. An \<open>enum class : uint16_t\<close> holds every 16-bit value, named or not (the
  decoder and the router cast arbitrary codes to it), so a header carries the code.
\<close>

datatype MessageType =
    kSqlQuery | kBuyOrder | kSellOrder | kGetPosition | kGetPriceHistory | kPing
  | kSqlResult | kOrderAck | kPositionResult | kPriceHistResult | kPong | kError

fun mt_code :: "MessageType \<Rightarrow> u16" where
  "mt_code kSqlQuery = 0x0001"
| "mt_code kBuyOrder = 0x0002"
| "mt_code kSellOrder = 0x0003"
| "mt_code kGetPosition = 0x0004"
| "mt_code kGetPriceHistory = 0x0005"
| "mt_code kPing = 0x0006"
| "mt_code kSqlResult = 0x8001"
| "mt_code kOrderAck = 0x8002"
| "mt_code kPositionResult = 0x8004"
| "mt_code kPriceHistResult = 0x8005"
| "mt_code kPong = 0x8006"
| "mt_code kError = 0xFFFF"

record message_header =
  payload_length :: u32
  message_type :: u16
  flags :: u8
  reserved :: u8

definition default_header :: message_header where
  "default_header = \<lparr>payload_length = 0, message_type = mt_code kPing, flags = 0, reserved = 0\<rparr>"

text \<open>\<open>static_cast<uint8_t>((x >> n) & 0xFF)\<close>.\<close>

definition octet :: "nat \<Rightarrow> 'a::len word \<Rightarrow> u8" where
  "octet n x = ucast (drop_bit n x AND 0xFF)"

definition encode_header :: "endianness \<Rightarrow> message_header \<Rightarrow> bytes" where
  "encode_header E hdr =
     (let net_len = htonl E (payload_length hdr);
          net_type = htons E (message_type hdr)
      in [octet 24 net_len, octet 16 net_len, octet 8 net_len, octet 0 net_len,
          octet 8 net_type, octet 0 net_type, flags hdr, 0])"

definition join32 :: "u8 \<Rightarrow> u8 \<Rightarrow> u8 \<Rightarrow> u8 \<Rightarrow> u32" where
  "join32 a b c d = push_bit 24 (ucast a) OR push_bit 16 (ucast b) OR push_bit 8 (ucast c) OR ucast d"

definition join16 :: "u8 \<Rightarrow> u8 \<Rightarrow> u16" where
  "join16 a b = push_bit 8 (ucast a) OR ucast b"

definition decode_header :: "endianness \<Rightarrow> bytes \<Rightarrow> string + message_header" where
  "decode_header E inb =
     (let net_len = join32 (inb ! 0) (inb ! 1) (inb ! 2) (inb ! 3);
          net_type = join16 (inb ! 4) (inb ! 5);
          hdr = \<lparr>payload_length = ntohl E net_len, message_type = ntohs E net_type,
                 flags = inb ! 6, reserved = inb ! 7\<rparr>
      in if payload_length hdr > kMaxPayloadSize
         then Inl ''payload_length exceeds kMaxPayloadSize'' else Inr hdr)"

record message =
  header :: message_header
  payload :: string

definition make_message :: "u16 \<Rightarrow> string \<Rightarrow> u8 \<Rightarrow> message" where
  "make_message t json_payload fl =
     \<lparr>header = default_header\<lparr>message_type := t, payload_length := of_nat (length json_payload),
                flags := fl\<rparr>,
      payload = json_payload\<rparr>"

section \<open>Octets\<close>

lemma bit_octet: "bit (octet n x) k \<longleftrightarrow> k < 8 \<and> bit x (n + k)"
proof -
  have m: "(0xFF :: 'a word) = mask 8" by (simp add: mask_eq_exp_minus_1)
  show ?thesis
    unfolding octet_def m by (auto simp: bit_simps dest: bit_imp_le_length)
qed

lemma bit_join32:
  "bit (join32 a b c d) k \<longleftrightarrow>
     (if k < 8 then bit d k else if k < 16 then bit c (k - 8)
      else if k < 24 then bit b (k - 16) else k < 32 \<and> bit a (k - 24))"
  by (auto simp: join32_def bit_simps dest: bit_imp_le_length)

lemma bit_join16:
  "bit (join16 a b) k \<longleftrightarrow> (if k < 8 then bit b k else k < 16 \<and> bit a (k - 8))"
  by (auto simp: join16_def bit_simps dest: bit_imp_le_length)

lemma bit_bswap32:
  "bit (bswap32 x) k \<longleftrightarrow>
     (if k < 8 then bit x (24 + k) else if k < 16 then bit x (8 + k)
      else if k < 24 then bit x (k - 8) else k < 32 \<and> bit x (k - 24))"
proof -
  have m: "(0xFF :: u32) = mask 8" "(0xFF00 :: u32) = push_bit 8 (mask 8)"
    "(0xFF0000 :: u32) = push_bit 16 (mask 8)"
    by (simp_all add: mask_eq_exp_minus_1 push_bit_eq_mult)
  show ?thesis
    unfolding bswap32_def m
    by (auto simp: bit_simps dest: bit_imp_le_length)
qed

lemma bit_bswap16:
  "bit (bswap16 x) k \<longleftrightarrow> (if k < 8 then bit x (8 + k) else k < 16 \<and> bit x (k - 8))"
proof -
  have m: "(0xFF :: u16) = mask 8" by (simp add: mask_eq_exp_minus_1)
  show ?thesis
    unfolding bswap16_def m by (auto simp: bit_simps dest: bit_imp_le_length)
qed

lemma join32_octets [wire_rules]: "join32 (octet 24 x) (octet 16 x) (octet 8 x) (octet 0 x) = x"
  by (rule bit_word_eqI) (auto simp: bit_join32 bit_octet)

lemma join16_octets [wire_rules]: "join16 (octet 8 x) (octet 0 x) = x"
  by (rule bit_word_eqI) (auto simp: bit_join16 bit_octet)

lemma octet_join32 [wire_rules]:
  "octet 24 (join32 a b c d) = a" "octet 16 (join32 a b c d) = b"
  "octet 8 (join32 a b c d) = c" "octet 0 (join32 a b c d) = d"
  by (rule bit_word_eqI, auto simp: bit_join32 bit_octet)+

lemma octet_join16 [wire_rules]: "octet 8 (join16 a b) = a" "octet 0 (join16 a b) = b"
  by (rule bit_word_eqI, auto simp: bit_join16 bit_octet)+

lemma octet_bswap32 [wire_rules]:
  "octet 24 (bswap32 x) = octet 0 x" "octet 16 (bswap32 x) = octet 8 x"
  "octet 8 (bswap32 x) = octet 16 x" "octet 0 (bswap32 x) = octet 24 x"
  by (rule bit_word_eqI, auto simp: bit_bswap32 bit_octet)+

lemma octet_bswap16 [wire_rules]: "octet 8 (bswap16 x) = octet 0 x" "octet 0 (bswap16 x) = octet 8 x"
  by (rule bit_word_eqI, auto simp: bit_bswap16 bit_octet)+

lemma bswap32_bswap32 [wire_rules]: "bswap32 (bswap32 x) = x"
  by (metis join32_octets octet_bswap32)

lemma bswap16_bswap16 [wire_rules]: "bswap16 (bswap16 x) = x"
  by (metis join16_octets octet_bswap16)

lemma ntohl_htonl [wire_rules]: "ntohl E (htonl E x) = x"
  by (cases E) (simp_all add: ntohl_def htonl_def bswap32_bswap32)

lemma ntohs_htons [wire_rules]: "ntohs E (htons E x) = x"
  by (cases E) (simp_all add: ntohs_def htons_def bswap16_bswap16)

section \<open>The codec is correct\<close>

lemma length_encode_header [simp]: "length (encode_header E h) = kHeaderSize"
  by (simp add: encode_header_def kHeaderSize_def Let_def)

lemma decode_encode_header:
  "decode_header E (encode_header E h) =
     (if payload_length h > kMaxPayloadSize then Inl ''payload_length exceeds kMaxPayloadSize''
      else Inr (h\<lparr>reserved := 0\<rparr>))"
  by (simp add: decode_header_def encode_header_def Let_def wire_rules)

lemma decode_header_cases:
  "decode_header E bs =
     (let h = \<lparr>payload_length = ntohl E (join32 (bs ! 0) (bs ! 1) (bs ! 2) (bs ! 3)),
               message_type = ntohs E (join16 (bs ! 4) (bs ! 5)), flags = bs ! 6, reserved = bs ! 7\<rparr>
      in if payload_length h \<le> kMaxPayloadSize then Inr h
         else Inl ''payload_length exceeds kMaxPayloadSize'')"
  by (simp add: decode_header_def Let_def not_less [symmetric])

lemma decode_header_bound: "decode_header E bs = Inr h \<Longrightarrow> payload_length h \<le> kMaxPayloadSize"
  by (auto simp: decode_header_cases Let_def split: if_splits)

lemma list8_split:
  "length bs = 8 \<Longrightarrow> bs = [bs ! 0, bs ! 1, bs ! 2, bs ! 3, bs ! 4, bs ! 5, bs ! 6, bs ! 7]"
  by (simp add: list_eq_iff_nth_eq numeral_eq_Suc less_Suc_eq all_conj_distrib nth_Cons')

lemma htonl_ntohl [wire_rules]: "htonl E (ntohl E x) = x"
  by (cases E) (simp_all add: ntohl_def htonl_def bswap32_bswap32)

lemma htons_ntohs [wire_rules]: "htons E (ntohs E x) = x"
  by (cases E) (simp_all add: ntohs_def htons_def bswap16_bswap16)

lemma encode_decode_header:
  assumes "length bs = kHeaderSize" and "decode_header E bs = Inr h"
  shows "encode_header E h = bs[7 := 0]"
proof -
  have bs: "bs = [bs ! 0, bs ! 1, bs ! 2, bs ! 3, bs ! 4, bs ! 5, bs ! 6, bs ! 7]"
    using assms(1) by (intro list8_split) (simp add: kHeaderSize_def)
  have "encode_header E h = [bs ! 0, bs ! 1, bs ! 2, bs ! 3, bs ! 4, bs ! 5, bs ! 6, 0]"
    using assms(2) by (auto simp: decode_header_cases encode_header_def Let_def wire_rules split: if_splits)
  also have "\<dots> = bs[7 := 0]"
    using arg_cong [OF bs, of "\<lambda>x. x[7 := 0]"] by simp
  finally show ?thesis .
qed

section \<open>The bytes on the wire\<close>

text \<open>Network byte order, the one the protocol documents: most significant octet first.\<close>

definition be32 :: "u32 \<Rightarrow> bytes" where
  "be32 x = [octet 24 x, octet 16 x, octet 8 x, octet 0 x]"

definition be16 :: "u16 \<Rightarrow> bytes" where
  "be16 x = [octet 8 x, octet 0 x]"

text \<open>
  \<open>encode_header\<close> first converts to network order with \<open>htonl\<close> and then extracts the octets of the
  result with shifts, most significant first, which is a conversion by itself. On a big-endian host
  the first is the identity and the wire is in network order; on a little-endian host the two undo
  each other and the wire is little-endian.
\<close>

lemma encode_header_big:
  "encode_header BigEndian h = be32 (payload_length h) @ be16 (message_type h) @ [flags h, 0]"
  by (simp add: encode_header_def htonl_def htons_def be32_def be16_def Let_def)

lemma encode_header_little:
  "encode_header LittleEndian h =
     rev (be32 (payload_length h)) @ rev (be16 (message_type h)) @ [flags h, 0]"
  by (simp add: encode_header_def htonl_def htons_def be32_def be16_def Let_def wire_rules)

lemma bswap32_join: "bswap32 x = join32 (octet 0 x) (octet 8 x) (octet 16 x) (octet 24 x)"
  by (rule bit_word_eqI) (auto simp: bit_bswap32 bit_join32 bit_octet)

lemma bswap16_join: "bswap16 x = join16 (octet 0 x) (octet 8 x)"
  by (rule bit_word_eqI) (auto simp: bit_bswap16 bit_join16 bit_octet)

lemma decode_header_swapped:
  "E \<noteq> E' \<Longrightarrow> decode_header E' (encode_header E h) =
     (if bswap32 (payload_length h) > kMaxPayloadSize
      then Inl ''payload_length exceeds kMaxPayloadSize''
      else Inr (h\<lparr>payload_length := bswap32 (payload_length h),
                  message_type := bswap16 (message_type h), reserved := 0\<rparr>))"
  by (cases E; cases E')
    (simp_all add: decode_header_def encode_header_def Let_def wire_rules
      htonl_def htons_def ntohl_def ntohs_def flip: bswap32_join bswap16_join)

text \<open>A length whose lowest octet is at least 2 exceeds the limit once its octets are swapped.\<close>

lemma unat_join32:
  "unat (join32 a b c d) = unat a * 2 ^ 24 + unat b * 2 ^ 16 + unat c * 2 ^ 8 + unat d"
    (is "_ = ?S")
proof -
  have ub: "unat x < 2 ^ 8" for x :: u8
    using unsigned_less [of x, where ?'a = nat] by simp
  let ?A = "push_bit 24 (ucast a) :: u32" and ?B = "push_bit 16 (ucast b) :: u32"
    and ?C = "push_bit 8 (ucast c) :: u32" and ?D = "ucast d :: u32"
  have "?A OR ?B = ?A + ?B" "(?A OR ?B) OR ?C = (?A OR ?B) + ?C"
    "((?A OR ?B) OR ?C) OR ?D = ((?A OR ?B) OR ?C) + ?D"
    by (rule disjunctive_add_eq_or [symmetric], rule bit_word_eqI,
        auto simp: bit_simps dest: bit_imp_le_length)+
  then have "join32 a b c d = ?A + ?B + ?C + ?D"
    by (simp add: join32_def flip: or.assoc)
  also have "\<dots> = of_nat ?S"
    by (simp add: push_bit_eq_mult)
  finally have "unat (join32 a b c d) = unat (of_nat ?S :: u32)"
    by (rule arg_cong)
  also have "\<dots> = ?S mod 2 ^ LENGTH(32)"
    by (rule unat_of_nat)
  also have "\<dots> = ?S"
    using ub [of a] ub [of b] ub [of c] ub [of d] by (intro mod_less) simp
  finally show ?thesis .
qed

lemma unat_kMaxPayloadSize: "unat kMaxPayloadSize = 16777216"
  by (simp add: kMaxPayloadSize_def)

lemma bswap32_over_limit:
  assumes "2 \<le> unat x mod 256"
  shows "kMaxPayloadSize < bswap32 x"
proof -
  have "unat x = unat (octet 0 x) + 256 * (unat (octet 24 x) * 2 ^ 16 + unat (octet 16 x) * 2 ^ 8
      + unat (octet 8 x))"
    using unat_join32 [of "octet 24 x" "octet 16 x" "octet 8 x" "octet 0 x"]
    unfolding join32_octets by simp
  then have "unat x mod 256 = unat (octet 0 x) mod 256"
    by (metis mod_mult_self2)
  then have "unat (octet 0 x) = unat x mod 256"
    using unsigned_less [of "octet 0 x", where ?'a = nat] by simp
  with assms show ?thesis
    by (simp add: word_less_nat_alt unat_kMaxPayloadSize bswap32_join unat_join32)
qed

section \<open>Framing over a byte stream\<close>

text \<open>
  What a receiver makes of the bytes that arrive: \<open>take_frame\<close> reads one header and the payload it
  announces off the front (\<open>None\<close> when the bytes do not suffice or the header is refused), and
  \<open>split_frames\<close> repeats it as long as whole frames are there. They are generic in the decoder.
\<close>

definition take_frame ::
  "(bytes \<Rightarrow> 'e + 'h) \<Rightarrow> ('h \<Rightarrow> nat) \<Rightarrow> bytes \<Rightarrow> ('h \<times> bytes \<times> bytes) option" where
  "take_frame dec len bs =
     (if length bs < kHeaderSize then None
      else case dec (take kHeaderSize bs) of
             Inl _ \<Rightarrow> None
           | Inr h \<Rightarrow>
               (if length (drop kHeaderSize bs) < len h then None
                else Some (h, take (len h) (drop kHeaderSize bs),
                           drop (len h) (drop kHeaderSize bs))))"

lemma take_frame_SomeD:
  "take_frame dec len bs = Some (h, p, rest) \<Longrightarrow>
     kHeaderSize \<le> length bs \<and> dec (take kHeaderSize bs) = Inr h \<and> length p = len h
     \<and> bs = take kHeaderSize bs @ p @ rest \<and> length rest < length bs"
  by (auto simp: take_frame_def kHeaderSize_def simp del: drop_drop split: if_splits sum.splits)

function split_frames ::
  "(bytes \<Rightarrow> 'e + 'h) \<Rightarrow> ('h \<Rightarrow> nat) \<Rightarrow> bytes \<Rightarrow> ('h \<times> bytes) list \<times> bytes" where
  "split_frames dec len bs =
     (case take_frame dec len bs of
        None \<Rightarrow> ([], bs)
      | Some (h, p, rest) \<Rightarrow>
          (case split_frames dec len rest of (fs, left) \<Rightarrow> ((h, p) # fs, left)))"
  by pat_completeness auto
termination
  by (relation "measure (\<lambda>(dec, len, bs). length bs)") (auto dest: take_frame_SomeD)

declare split_frames.simps [simp del]

lemma split_frames_Nil [simp]: "split_frames dec len [] = ([], [])"
  by (subst split_frames.simps) (simp add: take_frame_def kHeaderSize_def)

text \<open>
  What a sender and a receiver rely on: an encoder of fixed width whose headers, when valid, come
  back from the decoder. Then a stream of frames splits back into the same frames, whatever
  incomplete bytes follow.
\<close>

locale header_codec =
  fixes enc :: "'h \<Rightarrow> bytes"
    and dec :: "bytes \<Rightarrow> 'e + 'h"
    and len :: "'h \<Rightarrow> nat"
    and ok :: "'h \<Rightarrow> bool"
  assumes enc_width: "length (enc h) = kHeaderSize"
    and dec_enc: "ok h \<Longrightarrow> dec (enc h) = Inr h"
begin

lemma take_frame_enc:
  assumes "ok h" and "length p = len h"
  shows "take_frame dec len (enc h @ p @ rest) = Some (h, p, rest)"
  using assms enc_width [of h] by (simp add: take_frame_def dec_enc)

lemma split_frames_enc:
  "\<forall>(h, p) \<in> set fs. ok h \<and> length p = len h \<Longrightarrow>
     split_frames dec len (concat (map (\<lambda>(h, p). enc h @ p) fs) @ rest) =
       (fs @ fst (split_frames dec len rest), snd (split_frames dec len rest))"
proof (induction fs)
  case Nil
  then show ?case by simp
next
  case (Cons f fs)
  obtain h p where f: "f = (h, p)" by (cases f)
  with Cons show ?case
    by (subst split_frames.simps) (simp add: take_frame_enc)
qed

lemma frames_inj:
  assumes "\<forall>(h, p) \<in> set fs. ok h \<and> length p = len h" and "\<forall>(h, p) \<in> set gs. ok h \<and> length p = len h"
    and "concat (map (\<lambda>(h, p). enc h @ p) fs) = concat (map (\<lambda>(h, p). enc h @ p) gs)"
  shows "fs = gs"
proof -
  have split: "split_frames dec len (concat (map (\<lambda>(h, p). enc h @ p) xs)) = (xs, [])"
    if "\<forall>(h, p) \<in> set xs. ok h \<and> length p = len h" for xs
    using split_frames_enc [OF that, of "[]"] by simp
  have "(fs, [] :: bytes) = (gs, [])"
    using split [OF assms(1)] unfolding assms(3) split [OF assms(2)] by (rule sym)
  then show ?thesis by (rule Pair_inject)
qed

end

text \<open>The header of the server's codec: in limits, and with the reserved octet the encoder writes.\<close>

definition wire_ok :: "message_header \<Rightarrow> bool" where
  "wire_ok h \<longleftrightarrow> payload_length h \<le> kMaxPayloadSize \<and> reserved h = 0"

definition wire_len :: "message_header \<Rightarrow> nat" where
  "wire_len h = unat (payload_length h)"

interpretation wire: header_codec "encode_header E" "decode_header E" wire_len wire_ok
  for E :: endianness
  by unfold_locales (auto simp: decode_encode_header wire_ok_def)

text \<open>A whole message on the wire, as \<open>Session::do_write\<close> and the load generator lay it out.\<close>

definition message_bytes :: "endianness \<Rightarrow> message \<Rightarrow> bytes" where
  "message_bytes E m = encode_header E (header m) @ bytes_of_string (payload m)"

lemma length_message_bytes: "length (message_bytes E m) = kHeaderSize + length (payload m)"
  by (simp add: message_bytes_def)

lemma make_message_sel [simp]:
  "payload (make_message t s f) = s" "message_type (header (make_message t s f)) = t"
  "flags (header (make_message t s f)) = f" "reserved (header (make_message t s f)) = 0"
  "payload_length (header (make_message t s f)) = of_nat (length s)"
  by (simp_all add: make_message_def default_header_def)

lemma make_message_ok:
  assumes "length s \<le> 16777216"
  shows "wire_ok (header (make_message t s f))" and "wire_len (header (make_message t s f)) = length s"
proof -
  have "unat (of_nat (length s) :: u32) = length s"
    using assms by (simp add: unat_of_nat)
  then show "wire_ok (header (make_message t s f))" and "wire_len (header (make_message t s f)) = length s"
    using assms by (simp_all add: wire_ok_def wire_len_def word_le_nat_alt unat_kMaxPayloadSize)
qed

section \<open>Properties\<close>

text \<open>C10: On a host of either byte order, decoding an encoded header gives the header back, with the
  reserved octet cleared, unless the announced length exceeds 16 MiB, and is refused with the
  decoder's error exactly then.\<close>

theorem header_roundtrip:
  "decode_header E (encode_header E h) =
     (if 16777216 < unat (payload_length h) then Inl ''payload_length exceeds kMaxPayloadSize''
      else Inr (h\<lparr>reserved := 0\<rparr>))"
  by (simp add: decode_encode_header word_less_nat_alt unat_kMaxPayloadSize)

text \<open>A stream of frames, each announcing the length of its payload, within the limit and with
  the reserved octet 0, splits back into exactly these frames, and an incomplete frame behind them
  (fewer than eight bytes) is left over untouched.\<close>

theorem stream_roundtrip:
  assumes "\<forall>(h, p) \<in> set fs. wire_ok h \<and> length p = wire_len h" and "length rest < kHeaderSize"
  shows "split_frames (decode_header E) wire_len
       (concat (map (\<lambda>(h, p). encode_header E h @ p) fs) @ rest) = (fs, rest)"
proof -
  have "split_frames (decode_header E) wire_len rest = ([], rest)"
    using assms(2) by (subst split_frames.simps) (simp add: take_frame_def)
  then show ?thesis
    using wire.split_frames_enc [OF assms(1), of E rest] by simp
qed

theorem stream_roundtrip_witness:
  "split_frames (decode_header LittleEndian) wire_len
     (concat (map (\<lambda>(h, p). encode_header LittleEndian h @ p)
        [(\<lparr>payload_length = 2, message_type = 6, flags = 0, reserved = 0\<rparr>, [7, 8]),
         (\<lparr>payload_length = 0, message_type = 1, flags = 0, reserved = 0\<rparr>, [])]) @ [1, 2, 3]) =
   ([(\<lparr>payload_length = 2, message_type = 6, flags = 0, reserved = 0\<rparr>, [7, 8]),
     (\<lparr>payload_length = 0, message_type = 1, flags = 0, reserved = 0\<rparr>, [])], [1, 2, 3])"
  by (rule stream_roundtrip) (simp_all add: wire_ok_def wire_len_def kMaxPayloadSize_def kHeaderSize_def)

text \<open>On the wire a header is the length, the type, the flags and a zero octet; the length and the
  type are in network byte order only when the host is big-endian, and reversed on a little-endian
  host, because the code converts with \<open>htonl\<close> and then writes the most significant octet first.\<close>

lemma header_on_the_wire:
  "encode_header E h =
     (case E of
        BigEndian \<Rightarrow> be32 (payload_length h) @ be16 (message_type h) @ [flags h, 0]
      | LittleEndian \<Rightarrow> rev (be32 (payload_length h)) @ rev (be16 (message_type h)) @ [flags h, 0])"
  by (cases E) (simp_all add: encode_header_big encode_header_little)

end
