(* ===== verification/Service_Router.thy ===== *)
theory Service_Router
  imports Protocol
begin

text \<open>
  \<^verbatim>\<open>server/include/service_router.hpp\<close>: the handler table, its registration and the dispatch of one
  request. A handler works on the process-wide state \<open>'w\<close> it may read and change (the order counter,
  the clock) and either returns a payload or throws a \<open>std::exception\<close>, whose \<open>what()\<close> is kept.
  What a session relies on of a dispatcher is stated as the locale \<open>dispatcher\<close>.
\<close>

unbundle bit_operations_syntax

section \<open>The handler table\<close>

type_synonym 'w service_handler = "'w \<Rightarrow> string \<Rightarrow> (string + string) \<times> 'w"
type_synonym 'w service_router = "u16 \<rightharpoonup> 'w service_handler"

definition register_handler ::
  "'w service_router \<Rightarrow> MessageType \<Rightarrow> 'w service_handler \<Rightarrow> string + 'w service_router" where
  "register_handler r t h =
     (case r (mt_code t) of
        None \<Rightarrow> Inr (r(mt_code t \<mapsto> h))
      | Some _ \<Rightarrow> Inl ''ServiceRouter: duplicate handler for message type'')"

definition unknown_type_json :: string where
  \<open>unknown_type_json = ''{"code":404,"message":"Unknown message type"}''\<close>

definition internal_error_json :: "string \<Rightarrow> string" where
  \<open>internal_error_json what = ''{"code":500,"message":"'' @ what @ ''"}''\<close>

definition dispatch :: "'w service_router \<Rightarrow> 'w \<Rightarrow> message \<Rightarrow> message \<times> 'w" where
  "dispatch r w request =
     (case r (message_type (header request)) of
        None \<Rightarrow> (make_message (mt_code kError) unknown_type_json 0, w)
      | Some handler \<Rightarrow>
          (case handler w (payload request) of
             (Inr response_payload, w') \<Rightarrow>
               (let req_type = message_type (header request);
                    resp_type = req_type OR 0x8000
                in (make_message resp_type response_payload 0, w'))
           | (Inl what, w') \<Rightarrow>
               (make_message (mt_code kError) (internal_error_json what) 0, w')))"

section \<open>Registration\<close>

lemma register_handler_new:
  "mt_code t \<notin> dom r \<Longrightarrow> register_handler r t h = Inr (r(mt_code t \<mapsto> h))"
  by (auto simp: register_handler_def domIff split: option.splits)

lemma register_handler_duplicate:
  "mt_code t \<in> dom r \<Longrightarrow>
     register_handler r t h = Inl ''ServiceRouter: duplicate handler for message type''"
  by (auto simp: register_handler_def)

lemma register_handler_keeps:
  "register_handler r t h = Inr r' \<Longrightarrow> r c = Some g \<Longrightarrow> r' c = Some g"
  by (auto simp: register_handler_def split: option.splits)

lemma register_handler_SomeD:
  "register_handler r t h = Inr r' \<Longrightarrow> mt_code t \<notin> dom r \<and> r' = r(mt_code t \<mapsto> h)"
  by (auto simp: register_handler_def split: option.splits)

section \<open>Dispatch\<close>

lemma mt_code_inj: "mt_code s = mt_code t \<longleftrightarrow> s = t"
  by (cases s; cases t) simp_all

lemma dispatch_unknown:
  "message_type (header m) \<notin> dom r \<Longrightarrow>
     dispatch r w m = (make_message (mt_code kError) unknown_type_json 0, w)"
  by (auto simp: dispatch_def domIff)

lemma dispatch_returns:
  "r (message_type (header m)) = Some h \<Longrightarrow> h w (payload m) = (Inr s, w') \<Longrightarrow>
     dispatch r w m = (make_message (message_type (header m) OR 0x8000) s 0, w')"
  by (simp add: dispatch_def Let_def)

lemma dispatch_throws:
  "r (message_type (header m)) = Some h \<Longrightarrow> h w (payload m) = (Inl what, w') \<Longrightarrow>
     dispatch r w m = (make_message (mt_code kError) (internal_error_json what) 0, w')"
  by (simp add: dispatch_def)

lemma dispatch_is_made:
  "\<exists>t s. fst (dispatch r w m) = make_message t s 0 \<and> bit t 15
     \<and> (t = mt_code kError \<or> t = message_type (header m) OR 0x8000)"
proof -
  have hi: "bit (0xFFFF :: u16) 15" "bit (x OR 0x8000 :: u16) 15" for x :: u16
    by (simp_all add: bit_or_iff)
  show ?thesis
    unfolding dispatch_def
    by (auto simp: hi Let_def split: option.splits sum.splits prod.splits)
qed

text \<open>
  What the session needs to know of the thing it hands requests to: the response it gets back
  announces the length of its payload, is a server-to-client message, and has the reserved octet 0.
\<close>

locale dispatcher =
  fixes disp :: "'w \<Rightarrow> message \<Rightarrow> message \<times> 'w"
  assumes resp_length:
      "payload_length (header (fst (disp w m))) = of_nat (length (payload (fst (disp w m))))"
    and resp_direction: "bit (message_type (header (fst (disp w m)))) 15"
    and resp_reserved: "reserved (header (fst (disp w m))) = 0"
begin

lemma resp_wire:
  assumes "length (payload (fst (disp w m))) \<le> 16777216"
  shows "wire_ok (header (fst (disp w m)))"
    and "wire_len (header (fst (disp w m))) = length (payload (fst (disp w m)))"
proof -
  have "unat (of_nat (length (payload (fst (disp w m)))) :: u32) = length (payload (fst (disp w m)))"
    using assms by (simp add: unat_of_nat)
  then show "wire_ok (header (fst (disp w m)))"
    and "wire_len (header (fst (disp w m))) = length (payload (fst (disp w m)))"
    using assms
    by (simp_all add: wire_ok_def wire_len_def resp_length resp_reserved word_le_nat_alt
        unat_kMaxPayloadSize)
qed

lemma resp_on_wire:
  assumes "length (payload (fst (disp w m))) \<le> 16777216"
  shows "take_frame (decode_header E) wire_len (message_bytes E (fst (disp w m)) @ rest) =
      Some (header (fst (disp w m)), bytes_of_string (payload (fst (disp w m))), rest)"
  using resp_wire [OF assms] by (simp add: message_bytes_def wire.take_frame_enc)

end

interpretation routed: dispatcher "dispatch r" for r :: "'w service_router"
proof
  fix w :: 'w and m :: message
  obtain t s where "fst (dispatch r w m) = make_message t s 0" and "bit t 15"
    using dispatch_is_made [of r w m] by blast
  then show "payload_length (header (fst (dispatch r w m))) = of_nat (length (payload (fst (dispatch r w m))))"
    and "bit (message_type (header (fst (dispatch r w m)))) 15"
    and "reserved (header (fst (dispatch r w m))) = 0"
    by simp_all
qed

end
