(* ===== verification/Async_IO.thy ===== *)
theory Async_IO
  imports Prelude
begin

text \<open>
  What the event-driven parts use of the asynchronous I/O library: an operation completes with an
  error or with exactly the bytes that were asked for (\<open>async_read\<close> and \<open>async_write\<close> transfer all or
  fail), and \<open>std::vector::resize\<close> on the buffers.
\<close>

datatype io_result = IoErr | IoOk bytes

text \<open>\<open>std::vector::resize\<close>: old contents are kept, new elements are zero.\<close>

definition resize_bytes :: "nat \<Rightarrow> bytes \<Rightarrow> bytes" where
  "resize_bytes n bs = take n bs @ replicate (n - length bs) 0"

lemma length_resize_bytes [simp]: "length (resize_bytes n bs) = n"
  by (simp add: resize_bytes_def)

end
