(* ===== verification/Session.thy ===== *)
theory Session
  imports Service_Router Async_IO
begin

text \<open>
  \<^verbatim>\<open>server/src/session.cpp\<close>: the read header / read body / dispatch / write loop of one connection.
  Asynchronous operations that were started and have not completed are the list \<open>outstanding\<close>; a
  completion runs the handler of the operation, with an error or with exactly the bytes asked for.
  The first part translates the member functions, the second is the step relation of one session
  under an arbitrary schedule of completions, \<open>stop\<close> calls and destruction, the third runs a session
  on the bytes of one peer and relates it to an abstract request/response server.
\<close>

section \<open>State\<close>

datatype async_op = AsyncReadHeader | AsyncReadBody nat | AsyncWrite bytes

record session =
  header_buf :: bytes
  body_buf :: bytes
  write_buf :: bytes
  current_header :: message_header
  closed :: bool
  session_id :: u64
  sock_open :: bool
  outstanding :: "async_op list"
  posted_closes :: nat
  on_close_calls :: nat
  alive :: bool

definition make_session :: "u64 \<Rightarrow> session" where
  "make_session sid =
     \<lparr>header_buf = replicate kHeaderSize 0, body_buf = [], write_buf = [],
      current_header = default_header, closed = False, session_id = sid, sock_open = True,
      outstanding = [], posted_closes = 0, on_close_calls = 0, alive = True\<rparr>"

section \<open>Member functions\<close>

definition close :: "session \<Rightarrow> session" where
  "close s =
     (if closed s then s
      else s\<lparr>closed := True, sock_open := False, on_close_calls := Suc (on_close_calls s)\<rparr>)"

definition do_read_header :: "session \<Rightarrow> session" where
  "do_read_header s = s\<lparr>outstanding := outstanding s @ [AsyncReadHeader]\<rparr>"

definition start :: "session \<Rightarrow> session" where
  "start s = do_read_header s"

definition stop :: "session \<Rightarrow> session" where
  "stop s = s\<lparr>posted_closes := Suc (posted_closes s)\<rparr>"

definition do_write :: "endianness \<Rightarrow> message \<Rightarrow> session \<Rightarrow> session" where
  "do_write E response s =
     (let buf = encode_header E (header response) @ bytes_of_string (payload response)
      in s\<lparr>write_buf := buf, outstanding := outstanding s @ [AsyncWrite buf]\<rparr>)"

type_synonym 'w dispatch_fun = "'w \<Rightarrow> message \<Rightarrow> message \<times> 'w"

definition dispatch_and_write ::
  "endianness \<Rightarrow> 'w dispatch_fun \<Rightarrow> 'w \<Rightarrow> session \<Rightarrow> 'w \<times> session" where
  "dispatch_and_write E disp w s =
     (let req = \<lparr>header = current_header s, payload = string_of_bytes (body_buf s)\<rparr>;
          (resp, w') = disp w req
      in (w', do_write E resp s))"

definition do_read_body ::
  "endianness \<Rightarrow> 'w dispatch_fun \<Rightarrow> 'w \<Rightarrow> session \<Rightarrow> 'w \<times> session" where
  "do_read_body E disp w s =
     (if payload_length (current_header s) = 0 then dispatch_and_write E disp w s
      else (w, s\<lparr>outstanding := outstanding s @ [AsyncReadBody (length (body_buf s))]\<rparr>))"

text \<open>The completion handler of the header read.\<close>

definition header_read ::
  "endianness \<Rightarrow> 'w dispatch_fun \<Rightarrow> io_result \<Rightarrow> 'w \<Rightarrow> session \<Rightarrow> 'w \<times> session" where
  "header_read E disp r w s =
     (case r of
        IoErr \<Rightarrow> (w, close s)
      | IoOk bs \<Rightarrow>
          (let s = s\<lparr>header_buf := bs\<rparr>
           in case decode_header E (header_buf s) of
                Inl what \<Rightarrow> (w, close s)
              | Inr h \<Rightarrow>
                  (let s = s\<lparr>current_header := h\<rparr>
                   in if payload_length (current_header s) = 0
                      then do_read_body E disp w (s\<lparr>body_buf := []\<rparr>)
                      else do_read_body E disp w
                             (s\<lparr>body_buf := resize_bytes (unat (payload_length (current_header s)))
                                                       (body_buf s)\<rparr>))))"

text \<open>The completion handlers of the body read and of the write.\<close>

definition body_read ::
  "endianness \<Rightarrow> 'w dispatch_fun \<Rightarrow> io_result \<Rightarrow> 'w \<Rightarrow> session \<Rightarrow> 'w \<times> session" where
  "body_read E disp r w s =
     (case r of
        IoErr \<Rightarrow> (w, close s)
      | IoOk bs \<Rightarrow> dispatch_and_write E disp w (s\<lparr>body_buf := bs\<rparr>))"

definition write_done :: "io_result \<Rightarrow> session \<Rightarrow> session" where
  "write_done r s = (case r of IoErr \<Rightarrow> close s | IoOk _ \<Rightarrow> do_read_header s)"

definition destroy :: "session \<Rightarrow> session" where
  "destroy s = (close s)\<lparr>alive := False\<rparr>"

lemmas session_ops = header_read_def body_read_def write_done_def do_read_header_def do_read_body_def
  dispatch_and_write_def do_write_def close_def stop_def start_def destroy_def

section \<open>One session under every schedule\<close>

text \<open>
  Every queued handler holds a reference to the session, so while the I/O context lives the destructor
  runs only when neither an operation nor a posted task is left (\<open>LastReference\<close>). When the context
  itself is destroyed, after the server was stopped, its queued handlers and tasks are dropped unrun
  and the last reference goes with them (\<open>ContextDestroyed\<close>): the destructor then finds a session that
  may still be open. Between two handlers of this session other sessions change the process state
  (\<open>OtherWork\<close>). After \<open>close\<close> an operation that had already finished may still report success. The
  handlers of one session do not overlap here; what happens when a posted close does overlap with a
  handler is in \<open>Session_Close\<close>.
\<close>

datatype session_event =
    HeaderDone io_result | BodyDone io_result | WriteDone io_result
  | StopCall | PostedClose | LastReference | ContextDestroyed | OtherWork

inductive session_step ::
  "endianness \<Rightarrow> 'w dispatch_fun \<Rightarrow> 'w \<times> session \<Rightarrow> session_event \<Rightarrow> 'w \<times> session \<Rightarrow> bool"
  for E :: endianness and disp :: "'w dispatch_fun"
where
  header_done:
    "alive s \<Longrightarrow> outstanding s = pre @ AsyncReadHeader # post \<Longrightarrow>
       (\<And>bs. r = IoOk bs \<Longrightarrow> length bs = kHeaderSize) \<Longrightarrow>
     session_step E disp (w, s) (HeaderDone r) (header_read E disp r w (s\<lparr>outstanding := pre @ post\<rparr>))"
| body_done:
    "alive s \<Longrightarrow> outstanding s = pre @ AsyncReadBody n # post \<Longrightarrow>
       (\<And>bs. r = IoOk bs \<Longrightarrow> length bs = n) \<Longrightarrow>
     session_step E disp (w, s) (BodyDone r) (body_read E disp r w (s\<lparr>outstanding := pre @ post\<rparr>))"
| write_finished:
    "alive s \<Longrightarrow> outstanding s = pre @ AsyncWrite bs # post \<Longrightarrow>
     session_step E disp (w, s) (WriteDone r) (w, write_done r (s\<lparr>outstanding := pre @ post\<rparr>))"
| stop_call:
    "alive s \<Longrightarrow> session_step E disp (w, s) StopCall (w, stop s)"
| posted_close:
    "alive s \<Longrightarrow> posted_closes s = Suc n \<Longrightarrow>
     session_step E disp (w, s) PostedClose (w, close (s\<lparr>posted_closes := n\<rparr>))"
| last_reference:
    "alive s \<Longrightarrow> outstanding s = [] \<Longrightarrow> posted_closes s = 0 \<Longrightarrow>
     session_step E disp (w, s) LastReference (w, destroy s)"
| context_destroyed:
    "alive s \<Longrightarrow>
     session_step E disp (w, s) ContextDestroyed (w, destroy (s\<lparr>outstanding := [], posted_closes := 0\<rparr>))"
| other_work:
    "session_step E disp (w, s) OtherWork (w', s)"

inductive_cases session_stepE: "session_step E disp ws e ws'"

definition session_start :: "'w \<times> session \<Rightarrow> bool" where
  "session_start ws \<longleftrightarrow> (\<exists>sid. snd ws = start (make_session sid))"

text \<open>
  The invariant: at most one operation is outstanding; a live session without one has closed; the
  owner was told of the closing once if the session is closed and never otherwise; a body read asks
  for the announced length, which is positive and within the limit.
\<close>

definition op_ok :: "session \<Rightarrow> async_op \<Rightarrow> bool" where
  "op_ok s op =
     (case op of
        AsyncReadHeader \<Rightarrow> True
      | AsyncReadBody n \<Rightarrow>
          n = unat (payload_length (current_header s)) \<and> n = length (body_buf s)
          \<and> 0 < n \<and> n \<le> 16777216
      | AsyncWrite bs \<Rightarrow> bs = write_buf s \<and> kHeaderSize \<le> length bs)"

definition session_inv :: "'w \<times> session \<Rightarrow> bool" where
  "session_inv ws \<longleftrightarrow>
     (let s = snd ws in
       length (outstanding s) \<le> 1
       \<and> (outstanding s = [] \<longrightarrow> closed s)
       \<and> on_close_calls s = (if closed s then 1 else 0)
       \<and> (sock_open s \<longleftrightarrow> \<not> closed s)
       \<and> (\<not> alive s \<longrightarrow> closed s \<and> outstanding s = [])
       \<and> (\<forall>op \<in> set (outstanding s). op_ok s op))"

lemma session_inv_start: "session_start ws \<Longrightarrow> session_inv ws"
  by (auto simp: session_start_def session_inv_def session_ops make_session_def op_ok_def)

text \<open>The handlers run on a session whose only outstanding operation has just been taken off.\<close>

definition idle :: "session \<Rightarrow> bool" where
  "idle s \<longleftrightarrow> outstanding s = [] \<and> on_close_calls s = (if closed s then 1 else 0)
     \<and> (sock_open s \<longleftrightarrow> \<not> closed s) \<and> alive s"

lemma idle_pop:
  assumes "session_inv (w, s)" and "alive s" and "outstanding s = pre @ op # post"
  shows "idle (s\<lparr>outstanding := pre @ post\<rparr>)" and "op_ok s op" and "pre = []" and "post = []"
  using assms by (auto simp: session_inv_def idle_def)

lemma close_inv: "idle s \<Longrightarrow> session_inv (w, close s)"
  by (auto simp: idle_def session_inv_def close_def)

lemma read_header_inv: "idle s \<Longrightarrow> session_inv (w, do_read_header s)"
  by (auto simp: idle_def session_inv_def do_read_header_def op_ok_def)

lemma dispatch_inv: "idle s \<Longrightarrow> session_inv (dispatch_and_write E disp w s)"
  by (auto simp: idle_def session_inv_def dispatch_and_write_def do_write_def op_ok_def Let_def
      split: prod.splits)

lemma header_read_inv:
  assumes "idle s"
  shows "session_inv (header_read E disp r w s)"
proof (cases r)
  case IoErr
  with assms show ?thesis by (simp add: header_read_def close_inv)
next
  case (IoOk bs)
  have i: "idle (s\<lparr>header_buf := bs\<rparr>)"
    "\<And>h b. idle (s\<lparr>header_buf := bs, current_header := h, body_buf := b\<rparr>)"
    using assms by (simp_all add: idle_def)
  show ?thesis
  proof (cases "decode_header E bs")
    case (Inl e)
    with IoOk show ?thesis by (simp add: header_read_def close_inv [OF i(1)])
  next
    case (Inr h)
    have lim: "unat (payload_length h) \<le> 16777216"
      using decode_header_bound [OF Inr] by (simp add: word_le_nat_alt unat_kMaxPayloadSize)
    have body: "session_inv (do_read_body E disp w
        (s\<lparr>header_buf := bs, current_header := h, body_buf := resize_bytes (unat (payload_length h)) b\<rparr>))"
      if "payload_length h \<noteq> 0" for b
      using that lim i(2) [where h = h and b = "resize_bytes (unat (payload_length h)) b"]
      by (auto simp: do_read_body_def session_inv_def idle_def op_ok_def unat_gt_0)
    show ?thesis
      using IoOk Inr dispatch_inv [OF i(2)] body
      by (auto simp: header_read_def do_read_body_def Let_def)
  qed
qed

lemma body_read_inv: "idle s \<Longrightarrow> session_inv (body_read E disp r w s)"
  by (cases r) (auto simp: body_read_def close_inv intro!: dispatch_inv simp: idle_def)

lemma write_done_inv: "idle s \<Longrightarrow> session_inv (w, write_done r s)"
  by (cases r) (simp_all add: write_done_def close_inv read_header_inv)

lemma close_inv_any: "session_inv (w, s) \<Longrightarrow> alive s \<Longrightarrow> session_inv (w, close (s\<lparr>posted_closes := n\<rparr>))"
  by (auto simp: session_inv_def close_def op_ok_def split: async_op.splits)

text \<open>The destructor runs on a session with nothing pending, closed or not.\<close>

lemma destroy_inv:
  assumes "outstanding s = []" and "on_close_calls s = (if closed s then 1 else 0)"
    and "sock_open s \<longleftrightarrow> \<not> closed s"
  shows "session_inv (w, destroy s)"
  using assms by (auto simp: session_inv_def destroy_def close_def)

lemma session_inv_step:
  assumes "session_inv ws" and "session_step E disp ws e ws'"
  shows "session_inv ws'"
  using assms(2)
proof cases
  case (header_done s pre post r w)
  with assms(1) show ?thesis by (simp add: header_read_inv idle_pop(1))
next
  case (body_done s pre n post r w)
  with assms(1) show ?thesis by (simp add: body_read_inv idle_pop(1))
next
  case (write_finished s pre bs post w r)
  with assms(1) show ?thesis by (simp add: write_done_inv idle_pop(1))
next
  case (stop_call s w)
  with assms(1) show ?thesis by (auto simp: session_inv_def stop_def op_ok_def split: async_op.splits)
next
  case (posted_close s n w)
  with assms(1) show ?thesis by (simp add: close_inv_any)
next
  case (last_reference s w)
  then have "session_inv (w, destroy s)"
    using assms(1) by (intro destroy_inv) (auto simp: session_inv_def)
  with last_reference show ?thesis by simp
next
  case (context_destroyed s w)
  then have "session_inv (w, destroy (s\<lparr>outstanding := [], posted_closes := 0\<rparr>))"
    using assms(1) by (intro destroy_inv) (auto simp: session_inv_def)
  with context_destroyed show ?thesis by simp
next
  case (other_work w s w')
  with assms(1) show ?thesis by (simp add: session_inv_def)
qed

interpretation session_life: transition_system session_start "session_step E disp" session_inv
  for E :: endianness and disp :: "'w dispatch_fun"
  by unfold_locales (auto intro: session_inv_start session_inv_step)

section \<open>A session on the bytes of one peer\<close>

text \<open>
  \<open>run_session\<close> completes the outstanding operation again and again: a read succeeds if the peer's
  remaining bytes suffice and fails with end-of-file otherwise, a write always succeeds. The result
  is the bytes written. Each round consumes input or replaces the operation by a lighter one.
\<close>

fun op_weight :: "async_op \<Rightarrow> nat" where
  "op_weight AsyncReadHeader = 1"
| "op_weight (AsyncReadBody n) = 3"
| "op_weight (AsyncWrite bs) = 2"

definition read_input :: "nat \<Rightarrow> bytes \<Rightarrow> io_result \<times> bytes" where
  "read_input n inp = (if length inp < n then (IoErr, []) else (IoOk (take n inp), drop n inp))"

definition complete_op ::
  "endianness \<Rightarrow> 'w dispatch_fun \<Rightarrow> async_op \<Rightarrow> 'w \<Rightarrow> session \<Rightarrow> bytes \<Rightarrow> ('w \<times> session) \<times> bytes \<times> bytes" where
  "complete_op E disp op w s inp =
     (case op of
        AsyncReadHeader \<Rightarrow>
          (let (r, inp') = read_input kHeaderSize inp in (header_read E disp r w s, inp', []))
      | AsyncReadBody n \<Rightarrow>
          (let (r, inp') = read_input n inp in (body_read E disp r w s, inp', []))
      | AsyncWrite bs \<Rightarrow> ((w, write_done (IoOk []) s), inp, bs))"

definition session_load :: "session \<Rightarrow> nat" where
  "session_load s = sum_list (map op_weight (outstanding s))"

lemma complete_op_decreases:
  assumes "complete_op E disp op w (s\<lparr>outstanding := ops\<rparr>) inp = ((w', s'), inp', out)"
    and "outstanding s = op # ops"
  shows "length inp' < length inp \<or> length inp' = length inp \<and> session_load s' < session_load s"
proof (cases op)
  case AsyncReadHeader
  then show ?thesis
    using assms
    by (cases "inp = []")
      (auto simp: complete_op_def read_input_def session_load_def header_read_def close_def
        kHeaderSize_def split: if_splits)
next
  case (AsyncReadBody n)
  then show ?thesis
    using assms
    by (cases "inp = []"; cases "n = 0")
      (auto simp: complete_op_def read_input_def session_load_def body_read_def close_def
        dispatch_and_write_def do_write_def Let_def split: if_splits prod.splits)
next
  case (AsyncWrite bs)
  then show ?thesis
    using assms by (auto simp: complete_op_def session_load_def write_done_def do_read_header_def)
qed

function run_session ::
  "endianness \<Rightarrow> 'w dispatch_fun \<Rightarrow> 'w \<Rightarrow> session \<Rightarrow> bytes \<Rightarrow> 'w \<times> session \<times> bytes" where
  "run_session E disp w s inp =
     (case outstanding s of
        [] \<Rightarrow> (w, s, [])
      | op # ops \<Rightarrow>
          (case complete_op E disp op w (s\<lparr>outstanding := ops\<rparr>) inp of
             ((w', s'), inp', out) \<Rightarrow>
               (case run_session E disp w' s' inp' of (w'', s'', outs) \<Rightarrow> (w'', s'', out @ outs))))"
  by pat_completeness auto
termination
  by (relation "measures [\<lambda>(E, disp, w, s, inp). length inp, \<lambda>(E, disp, w, s, inp). session_load s]")
    (auto dest: complete_op_decreases [OF sym])

declare run_session.simps [simp del]

text \<open>
  The abstract server: cut the input into frames, answer them one after the other, and write every
  response as a frame.
\<close>

fun serve :: "'w dispatch_fun \<Rightarrow> 'w \<Rightarrow> (message_header \<times> bytes) list \<Rightarrow> message list \<times> 'w" where
  "serve disp w [] = ([], w)"
| "serve disp w ((h, p) # fs) =
     (let (r, w') = disp w \<lparr>header = h, payload = string_of_bytes p\<rparr>; (rs, w'') = serve disp w' fs
      in (r # rs, w''))"

lemma length_serve [simp]: "length (fst (serve disp w fs)) = length fs"
  by (induction fs arbitrary: w) (auto simp: case_prod_unfold Let_def)

definition awaiting_header :: "session \<Rightarrow> bool" where
  "awaiting_header s \<longleftrightarrow> outstanding s = [AsyncReadHeader] \<and> \<not> closed s"

text \<open>One round trip of the concrete loop, when the input starts with a whole frame.\<close>

lemma run_session_write:
  assumes "outstanding s = []" and "\<not> closed s"
  shows "\<exists>s'. awaiting_header s' \<and> on_close_calls s' = on_close_calls s
     \<and> run_session E disp w (do_write E resp s) inp =
         (case run_session E disp w s' inp of (w', s'', outs) \<Rightarrow> (w', s'', message_bytes E resp @ outs))"
proof (intro exI conjI)
  let ?s' = "s\<lparr>write_buf := message_bytes E resp, outstanding := [AsyncReadHeader]\<rparr>"
  show "awaiting_header ?s'" and "on_close_calls ?s' = on_close_calls s"
    using assms by (simp_all add: awaiting_header_def)
  show "run_session E disp w (do_write E resp s) inp =
      (case run_session E disp w ?s' inp of (w', s'', outs) \<Rightarrow> (w', s'', message_bytes E resp @ outs))"
    using assms
    by (subst run_session.simps)
      (simp add: do_write_def complete_op_def write_done_def do_read_header_def message_bytes_def Let_def)
qed

lemma run_session_frame:
  assumes aw: "awaiting_header s" and fr: "take_frame (decode_header E) wire_len inp = Some (h, p, rest)"
    and d: "disp w \<lparr>header = h, payload = string_of_bytes p\<rparr> = (resp, w')"
  shows "\<exists>s'. awaiting_header s' \<and> on_close_calls s' = on_close_calls s
     \<and> run_session E disp w s inp =
         (case run_session E disp w' s' rest of (w'', s'', outs) \<Rightarrow> (w'', s'', message_bytes E resp @ outs))"
proof -
  from fr have long: "\<not> length inp < kHeaderSize" and dec: "decode_header E (take kHeaderSize inp) = Inr h"
    and len: "\<not> length (drop kHeaderSize inp) < wire_len h"
    and p: "p = take (wire_len h) (drop kHeaderSize inp)" "rest = drop (wire_len h) (drop kHeaderSize inp)"
    by (auto simp: take_frame_def split: if_splits sum.splits)
  define b where "b = resize_bytes (wire_len h) (body_buf s)"
  define s1 where "s1 = s\<lparr>header_buf := take kHeaderSize inp, current_header := h, outstanding := []\<rparr>"
  have ops: "outstanding s = [AsyncReadHeader]" "\<not> closed s" using aw by (simp_all add: awaiting_header_def)
  have s1': "s1 = s\<lparr>outstanding := [], header_buf := take kHeaderSize inp, current_header := h\<rparr>"
    by (simp add: s1_def)
  let ?s2 = "s1\<lparr>body_buf := p\<rparr>"
  have s2: "outstanding ?s2 = []" "\<not> closed ?s2" "on_close_calls ?s2 = on_close_calls s"
    using ops by (simp_all add: s1_def)
  have go: "run_session E disp w s inp = run_session E disp w' (do_write E resp ?s2) rest"
  proof (cases "payload_length h = 0")
    case True
    with p have "p = []" "rest = drop kHeaderSize inp" by (simp_all add: wire_len_def)
    with True show ?thesis
      using ops long dec d
      by (subst run_session.simps)
        (simp add: complete_op_def read_input_def header_read_def do_read_body_def
          dispatch_and_write_def s1' case_prod_unfold Let_def)
  next
    case False
    let ?s3 = "s1\<lparr>body_buf := b, outstanding := [AsyncReadBody (wire_len h)]\<rparr>"
    have "run_session E disp w s inp = run_session E disp w ?s3 (drop kHeaderSize inp)"
      using False ops long dec
      by (subst run_session.simps)
        (simp add: complete_op_def read_input_def header_read_def do_read_body_def s1_def b_def
          case_prod_unfold Let_def wire_len_def)
    also have "\<dots> = run_session E disp w' (do_write E resp ?s2) rest"
      using len p d
      by (subst run_session.simps)
        (simp add: complete_op_def read_input_def body_read_def dispatch_and_write_def s1_def
          case_prod_unfold Let_def)
    finally show ?thesis .
  qed
  show ?thesis
    using run_session_write [OF s2(1,2), of E disp w' resp rest] unfolding go s2(3) .
qed

lemma run_session_no_frame:
  assumes aw: "awaiting_header s" and fr: "take_frame (decode_header E) wire_len inp = None"
  shows "\<exists>s'. run_session E disp w s inp = (w, s', []) \<and> closed s' \<and> outstanding s' = []
     \<and> on_close_calls s' = Suc (on_close_calls s)"
proof -
  have ops: "outstanding s = [AsyncReadHeader]" "\<not> closed s" using aw by (simp_all add: awaiting_header_def)
  show ?thesis
  proof (cases "length inp < kHeaderSize")
    case True
    with ops show ?thesis
      by (subst run_session.simps)
        (simp add: complete_op_def read_input_def header_read_def close_def run_session.simps)
  next
    case long: False
    show ?thesis
    proof (cases "decode_header E (take kHeaderSize inp)")
      case (Inl e)
      with long ops show ?thesis
        by (subst run_session.simps)
          (simp add: complete_op_def read_input_def header_read_def close_def run_session.simps)
    next
      case (Inr h)
      with long fr have short: "length (drop kHeaderSize inp) < wire_len h"
        by (auto simp: take_frame_def split: if_splits)
      then have "payload_length h \<noteq> 0" by (auto simp: wire_len_def)
      with short Inr long ops show ?thesis
        by (subst run_session.simps)
          (simp add: complete_op_def read_input_def header_read_def do_read_body_def Let_def wire_len_def
            run_session.simps body_read_def close_def)
    qed
  qed
qed

text \<open>The refinement: for every input the loop ends, closed, having done what \<open>serve\<close> does.\<close>

lemma run_session_refines:
  assumes "awaiting_header s"
  shows "\<exists>s'. run_session E disp w s inp =
       (snd (serve disp w (fst (split_frames (decode_header E) wire_len inp))), s',
        concat (map (message_bytes E) (fst (serve disp w (fst (split_frames (decode_header E) wire_len inp))))))
     \<and> closed s' \<and> outstanding s' = [] \<and> on_close_calls s' = Suc (on_close_calls s)"
  using assms
proof (induction "length inp" arbitrary: inp w s rule: less_induct)
  case less
  show ?case
  proof (cases "take_frame (decode_header E) wire_len inp")
    case None
    then have "split_frames (decode_header E) wire_len inp = ([], inp)"
      by (subst split_frames.simps) simp
    with run_session_no_frame [OF less.prems None, of disp w] show ?thesis by simp
  next
    case (Some fr)
    obtain h p rest where fr: "fr = (h, p, rest)" by (cases fr)
    note some = Some [unfolded fr]
    obtain resp w' where d: "disp w \<lparr>header = h, payload = string_of_bytes p\<rparr> = (resp, w')"
      by (meson surj_pair)
    have short: "length rest < length inp" using take_frame_SomeD [OF some] by simp
    have sf: "fst (split_frames (decode_header E) wire_len inp) =
        (h, p) # fst (split_frames (decode_header E) wire_len rest)"
      by (subst split_frames.simps) (simp add: some case_prod_unfold)
    obtain s1 where s1: "awaiting_header s1" "on_close_calls s1 = on_close_calls s"
      and run: "run_session E disp w s inp =
         (case run_session E disp w' s1 rest of (w'', s'', outs) \<Rightarrow> (w'', s'', message_bytes E resp @ outs))"
      using run_session_frame [where disp = disp, OF less.prems some d] by blast
    from less.hyps [OF short s1(1), of w'] show ?thesis
      unfolding run sf by (auto simp: d s1(2) case_prod_unfold Let_def)
  qed
qed

text \<open>
  With a dispatcher whose responses stay within the limit, a client that splits the server's output
  gets back exactly the responses, one per request and in order.
\<close>

context dispatcher
begin

lemma serve_ok:
  "\<forall>r \<in> set (fst (serve disp w fs)). length (payload r) \<le> 16777216 \<Longrightarrow>
   \<forall>r \<in> set (fst (serve disp w fs)). wire_ok (header r) \<and> wire_len (header r) = length (payload r)"
proof (induction fs arbitrary: w)
  case Nil
  then show ?case by simp
next
  case (Cons f fs)
  obtain h p where f: "f = (h, p)" by (cases f)
  obtain r w' where d: "disp w \<lparr>header = h, payload = string_of_bytes p\<rparr> = (r, w')" by (meson surj_pair)
  have "length (payload r) \<le> 16777216" using Cons.prems by (simp add: f d case_prod_unfold Let_def)
  then have "wire_ok (header r) \<and> wire_len (header r) = length (payload r)"
    using resp_wire [of w "\<lparr>header = h, payload = string_of_bytes p\<rparr>"] d by simp
  with Cons.IH [of w'] Cons.prems show ?case by (simp add: f d case_prod_unfold Let_def)
qed

lemma serve_on_wire:
  assumes "\<forall>r \<in> set (fst (serve disp w fs)). length (payload r) \<le> 16777216"
  shows "split_frames (decode_header E) wire_len (concat (map (message_bytes E) (fst (serve disp w fs)))) =
     (map (\<lambda>r. (header r, bytes_of_string (payload r))) (fst (serve disp w fs)), [])"
proof -
  let ?rs = "fst (serve disp w fs)"
  let ?fs = "map (\<lambda>r. (header r, bytes_of_string (payload r))) ?rs"
  have ok: "\<forall>(h, p) \<in> set ?fs. wire_ok h \<and> length p = wire_len h"
    using serve_ok [OF assms] by simp
  have "concat (map (message_bytes E) ?rs) = concat (map (\<lambda>(h, p). encode_header E h @ p) ?fs)"
    by (simp add: message_bytes_def [abs_def] comp_def)
  then show ?thesis
    using wire.split_frames_enc [OF ok, of E "[]"] by simp
qed

end

section \<open>Properties\<close>

text \<open>C1: For every input of the peer, whole frames, cut frames or garbage, a started session ends: it
  has answered exactly the complete frames in front of the first one the decoder refuses or the input
  cuts short, in order, with one response frame each and nothing else; it is closed, has no operation
  outstanding and has told its owner once.\<close>

theorem session_serves_stream:
  "\<exists>s'. run_session E disp w (start (make_session sid)) inp =
       (snd (serve disp w (fst (split_frames (decode_header E) wire_len inp))), s',
        concat (map (message_bytes E) (fst (serve disp w (fst (split_frames (decode_header E) wire_len inp))))))
     \<and> closed s' \<and> outstanding s' = [] \<and> on_close_calls s' = 1"
proof -
  have aw: "awaiting_header (start (make_session sid))" and n: "on_close_calls (start (make_session sid)) = 0"
    by (simp_all add: awaiting_header_def start_def do_read_header_def make_session_def)
  show ?thesis
    using run_session_refines [OF aw, of E disp w inp] by (simp add: n)
qed

text \<open>C19: A peer that sends a sequence of valid request frames to a session whose router is made of any
  handlers, and cuts the bytes it gets back into frames, finds one frame per request, in the order of
  the requests, with exactly the responses of the router, provided no response exceeds 16 MiB.\<close>

theorem session_pipelines_responses:
  assumes "\<forall>(h, p) \<in> set reqs. wire_ok h \<and> length p = wire_len h"
    and "\<forall>r \<in> set (fst (serve (dispatch table) w reqs)). length (payload r) \<le> 16777216"
  shows "split_frames (decode_header E) wire_len
       (snd (snd (run_session E (dispatch table) w (start (make_session sid))
         (concat (map (\<lambda>(h, p). encode_header E h @ p) reqs))))) =
     (map (\<lambda>r. (header r, bytes_of_string (payload r))) (fst (serve (dispatch table) w reqs)), [])"
proof -
  have aw: "awaiting_header (start (make_session sid))"
    by (simp add: awaiting_header_def start_def do_read_header_def make_session_def)
  have "fst (split_frames (decode_header E) wire_len (concat (map (\<lambda>(h, p). encode_header E h @ p) reqs))) = reqs"
    using wire.split_frames_enc [OF assms(1), of E "[]"] by simp
  with run_session_refines [OF aw, of E "dispatch table" w "concat (map (\<lambda>(h, p). encode_header E h @ p) reqs)"]
  have "snd (snd (run_session E (dispatch table) w (start (make_session sid))
         (concat (map (\<lambda>(h, p). encode_header E h @ p) reqs)))) =
      concat (map (message_bytes E) (fst (serve (dispatch table) w reqs)))"
    by auto
  then show ?thesis
    by (simp add: routed.serve_on_wire [OF assms(2)])
qed

theorem session_pipelines_responses_witness:
  "split_frames (decode_header LittleEndian) wire_len
     (snd (snd (run_session LittleEndian (dispatch [1 \<mapsto> (\<lambda>w s. (Inr (rev s), w + 1))]) (0 :: nat)
       (start (make_session 1))
       (concat (map (\<lambda>(h, p). encode_header LittleEndian h @ p)
         [(\<lparr>payload_length = 2, message_type = 1, flags = 0, reserved = 0\<rparr>, [65, 66])]))))) =
   ([(\<lparr>payload_length = 2, message_type = 0x8001, flags = 0, reserved = 0\<rparr>, [66, 65])], [])"
  using session_pipelines_responses
    [of "[(\<lparr>payload_length = 2, message_type = 1, flags = 0, reserved = 0\<rparr>, [65, 66])]"
      "[1 \<mapsto> (\<lambda>w s. (Inr (rev s), w + 1))]" "0 :: nat" LittleEndian 1]
  by (simp add: wire_ok_def wire_len_def kMaxPayloadSize_def dispatch_def make_message_def
      default_header_def string_of_bytes_def bytes_of_string_def Let_def)

text \<open>C2: Under every schedule of completions, errors, \<open>stop\<close> calls, posted closes and destruction, at the
  last reference or with the whole I/O context and any handler pending, a session has at most one
  asynchronous operation outstanding (so its buffers have one user), calls its close callback once if it
  is closed and never otherwise, has its socket open exactly while it is not closed, never sits without
  an operation unless it is closed, and is closed when it is destroyed. Each handler runs to its end
  before another of the same session starts, which one operation at a time gives as long as nobody
  calls \<open>stop\<close>; a posted close that overlaps a handler is the subject of \<open>Session_Close\<close>.\<close>

theorem session_lifecycle:
  assumes "reach session_start (session_step E disp) (w, s)"
  shows "length (outstanding s) \<le> 1 \<and> on_close_calls s = (if closed s then 1 else 0)
     \<and> (sock_open s \<longleftrightarrow> \<not> closed s) \<and> (outstanding s = [] \<longrightarrow> closed s)
     \<and> (\<not> alive s \<longrightarrow> closed s)"
  using session_life.reach_inv [OF assms] by (auto simp: session_inv_def Let_def)

theorem session_lifecycle_witness:
  "let s = close ((stop (start (make_session 1)))\<lparr>posted_closes := 0\<rparr>)
   in length (outstanding s) \<le> 1 \<and> on_close_calls s = (if closed s then 1 else 0)
     \<and> (sock_open s \<longleftrightarrow> \<not> closed s) \<and> (outstanding s = [] \<longrightarrow> closed s) \<and> (\<not> alive s \<longrightarrow> closed s)"
proof -
  let ?disp = "\<lambda>w m. (m, w) :: message \<times> nat"
  let ?s0 = "start (make_session 1)"
  have r0: "reach session_start (session_step LittleEndian ?disp) (0, ?s0)"
    by (rule reach_start) (auto simp: session_start_def)
  have s1: "session_step LittleEndian ?disp (0, ?s0) StopCall (0, stop ?s0)"
    by (rule stop_call) (simp add: start_def do_read_header_def make_session_def)
  have s2: "session_step LittleEndian ?disp (0, stop ?s0) PostedClose
      (0, close ((stop ?s0)\<lparr>posted_closes := 0\<rparr>))"
    by (rule posted_close) (simp_all add: stop_def start_def do_read_header_def make_session_def)
  note r = reach_step [OF reach_step [OF r0, OF s1], OF s2]
  show ?thesis
    unfolding Let_def by (rule session_lifecycle [OF r])
qed

text \<open>C20: A session never allocates or waits for more than an accepted header announces: whenever a body
  read is outstanding, it asks for exactly the announced length, which is positive and at most 16 MiB,
  and the body buffer has that size.\<close>

theorem session_body_bound:
  assumes "reach session_start (session_step E disp) (w, s)" and "AsyncReadBody n \<in> set (outstanding s)"
  shows "n = unat (payload_length (current_header s)) \<and> 0 < n \<and> n \<le> 16777216 \<and> length (body_buf s) = n"
  using session_life.reach_inv [OF assms(1)] assms(2)
  by (auto simp: session_inv_def op_ok_def Let_def dest!: bspec)

theorem session_body_bound_witness:
  "let s = snd (header_read BigEndian (\<lambda>w m. (m, w)) (IoOk [0, 0, 0, 5, 0, 1, 0, 0]) (0 :: nat)
       (make_session 1))
   in 5 = unat (payload_length (current_header s)) \<and> (0 :: nat) < 5 \<and> (5 :: nat) \<le> 16777216
     \<and> length (body_buf s) = 5"
proof -
  let ?disp = "\<lambda>w m. (m, w) :: message \<times> nat"
  let ?t = "header_read BigEndian ?disp (IoOk [0, 0, 0, 5, 0, 1, 0, 0]) (0 :: nat) (make_session 1)"
  have idle_start: "(start (make_session 1))\<lparr>outstanding := [] @ []\<rparr> = make_session 1"
    by (simp add: start_def do_read_header_def make_session_def)
  have r0: "reach session_start (session_step BigEndian ?disp) (0, start (make_session 1))"
    by (rule reach_start) (auto simp: session_start_def)
  have "session_step BigEndian ?disp (0, start (make_session 1))
      (HeaderDone (IoOk [0, 0, 0, 5, 0, 1, 0, 0])) (header_read BigEndian ?disp
      (IoOk [0, 0, 0, 5, 0, 1, 0, 0]) 0 ((start (make_session 1))\<lparr>outstanding := [] @ []\<rparr>))"
    by (rule header_done) (simp_all add: start_def do_read_header_def make_session_def kHeaderSize_def)
  from reach_step [OF r0, OF this]
  have r: "reach session_start (session_step BigEndian ?disp) (fst ?t, snd ?t)"
    unfolding idle_start by simp
  have "decode_header BigEndian [0, 0, 0, 5, 0, 1, 0, 0] =
      Inr \<lparr>payload_length = 5, message_type = 1, flags = 0, reserved = 0\<rparr>"
    by code_simp
  then have "AsyncReadBody 5 \<in> set (outstanding (snd ?t))"
    by (simp add: header_read_def do_read_body_def make_session_def Let_def)
  from session_body_bound [OF r this] show ?thesis
    unfolding Let_def by argo
qed

end
