(* ===== verification/Server.thy ===== *)
theory Server
  imports Session
begin

text \<open>
  \<^verbatim>\<open>server/src/server.cpp\<close> and \<^verbatim>\<open>server/include/server.hpp\<close>: the configuration, the atomic counters
  and the accept loop, composed with the sessions of \<open>Session\<close>. The accept handler is modelled one
  atomic access at a time, because other threads run session handlers, and with them the close
  callback, between any two of them. The handler re-arms itself as its last action, so there is one
  accept handler at a time, at the position \<open>accept_pc\<close>.
\<close>

section \<open>Configuration\<close>

record server_config =
  address :: string
  port :: u16
  cfg_threads :: u32
  cfg_max_connections :: u64

definition default_server_config :: server_config where
  "default_server_config =
     \<lparr>address = ''0.0.0.0'', port = 9000, cfg_threads = 0, cfg_max_connections = 50000\<rparr>"

text \<open>The thread count of the constructor: configured, else the hardware's, else one.\<close>

definition resolve_threads :: "u32 \<Rightarrow> u32 \<Rightarrow> u32" where
  "resolve_threads configured hardware_concurrency =
     (let n = configured;
          n = (if n = 0 then hardware_concurrency else n);
          n = (if n = 0 then 1 else n)
      in n)"

section \<open>State\<close>

datatype accept_pc =
    NotRunning
  | AwaitAccept
  | CheckLimit
  | CountTotal
  | CountActive
  | SetNoDelay
  | TakeId
  | StartSession u64
  | RejectSocket
  | Rearm
  | AcceptorClosed
  | HandlerThrew

record 'w server =
  max_connections :: u64
  thread_count :: u32
  total_connections :: u64
  active_connections :: u64
  total_requests :: u64
  next_session_id :: u64
  sessions :: "session list"
  accept_at :: accept_pc
  stopped :: bool
  proc :: 'w

definition make_server :: "server_config \<Rightarrow> u32 \<Rightarrow> 'w \<Rightarrow> 'w server" where
  "make_server cfg hw w =
     \<lparr>max_connections = cfg_max_connections cfg, thread_count = resolve_threads (cfg_threads cfg) hw,
      total_connections = 0, active_connections = 0, total_requests = 0, next_session_id = 1,
      sessions = [], accept_at = NotRunning, stopped = False, proc = w\<rparr>"

section \<open>Operations\<close>

text \<open>\<open>run\<close>: arm the acceptor; \<open>n - 1\<close> threads are started beside the calling one.\<close>

definition do_accept :: "'w server \<Rightarrow> 'w server" where
  "do_accept v = v\<lparr>accept_at := AwaitAccept\<rparr>"

definition io_threads :: "'w server \<Rightarrow> nat" where
  "io_threads v = length [1..<unat (thread_count v)] + 1"

definition stop_server :: "'w server \<Rightarrow> 'w server" where
  "stop_server v = v\<lparr>stopped := True\<rparr>"

definition on_request :: "'w server \<Rightarrow> 'w server" where
  "on_request v = v\<lparr>total_requests := total_requests v + 1\<rparr>"

text \<open>The close callback given to every session.\<close>

definition on_session_close :: "'w server \<Rightarrow> 'w server" where
  "on_session_close v = v\<lparr>active_connections := active_connections v - 1\<rparr>"

text \<open>
  The accept handler, one action per position. The environment decides whether the accept failed and
  whether the acceptor is open, the value \<open>seen\<close> that the relaxed load of the counter returns, and
  whether setting \<open>TCP_NODELAY\<close> throws.
\<close>

datatype accept_env = AcceptEnv (env_open: bool) (env_failed: bool) (env_seen: u64) (env_throws: bool)

definition accept_action :: "accept_env \<Rightarrow> 'w server \<Rightarrow> 'w server" where
  "accept_action env v =
     (case accept_at v of
        AwaitAccept \<Rightarrow>
          (if \<not> env_open env then v\<lparr>accept_at := AcceptorClosed\<rparr>
           else if \<not> env_failed env then v\<lparr>accept_at := CheckLimit\<rparr>
           else v\<lparr>accept_at := Rearm\<rparr>)
      | CheckLimit \<Rightarrow>
          (if env_seen env < max_connections v then v\<lparr>accept_at := CountTotal\<rparr>
           else v\<lparr>accept_at := RejectSocket\<rparr>)
      | CountTotal \<Rightarrow> v\<lparr>total_connections := total_connections v + 1, accept_at := CountActive\<rparr>
      | CountActive \<Rightarrow> v\<lparr>active_connections := active_connections v + 1, accept_at := SetNoDelay\<rparr>
      | SetNoDelay \<Rightarrow> v\<lparr>accept_at := (if env_throws env then HandlerThrew else TakeId)\<rparr>
      | TakeId \<Rightarrow>
          v\<lparr>next_session_id := next_session_id v + 1, accept_at := StartSession (next_session_id v)\<rparr>
      | StartSession sid \<Rightarrow>
          v\<lparr>sessions := sessions v @ [start (make_session sid)], accept_at := Rearm\<rparr>
      | RejectSocket \<Rightarrow> v\<lparr>accept_at := Rearm\<rparr>
      | Rearm \<Rightarrow> do_accept v
      | _ \<Rightarrow> v)"

text \<open>
  Steps of the whole server. The loads of the counter are relaxed: a load may miss decrements of
  other threads, but not the increments, which all happened in earlier runs of the same handler, so
  the value seen is at least the current one. A step of session \<open>i\<close> runs its close callback as often
  as the session called it. While the context runs, the sessions' handlers run; once the server has
  been stopped none does, and what is left is the destruction of the context, which destroys the
  sessions one by one, the open ones too, each with its close callback.
\<close>

datatype server_event = RunCalled | AcceptAction | SessionEvent nat session_event | StopServer

inductive server_step ::
  "endianness \<Rightarrow> 'w dispatch_fun \<Rightarrow> 'w server \<Rightarrow> server_event \<Rightarrow> 'w server \<Rightarrow> bool"
  for E :: endianness and disp :: "'w dispatch_fun"
where
  run_called:
    "accept_at v = NotRunning \<Longrightarrow> server_step E disp v RunCalled (do_accept v)"
| accept_one:
    "\<not> stopped v \<Longrightarrow> active_connections v \<le> env_seen env \<Longrightarrow>
     server_step E disp v AcceptAction (accept_action env v)"
| session_one:
    "(stopped v \<longleftrightarrow> e = ContextDestroyed) \<Longrightarrow> i < length (sessions v) \<Longrightarrow>
     session_step E disp (proc v, sessions v ! i) e (w', s') \<Longrightarrow>
     server_step E disp v (SessionEvent i e)
       ((on_session_close ^^ (on_close_calls s' - on_close_calls (sessions v ! i)))
          (v\<lparr>proc := w', sessions := (sessions v)[i := s']\<rparr>))"
| stop_one:
    "server_step E disp v StopServer (stop_server v)"

definition server_start :: "server_config \<Rightarrow> u32 \<Rightarrow> 'w \<Rightarrow> 'w server \<Rightarrow> bool" where
  "server_start cfg hw w v \<longleftrightarrow> v = make_server cfg hw w"

section \<open>Invariant\<close>

definition open_sessions :: "'w server \<Rightarrow> session list" where
  "open_sessions v = filter (\<lambda>s. \<not> closed s) (sessions v)"

text \<open>A connection that is counted but has no session object yet, or never gets one.\<close>

fun in_flight :: "accept_pc \<Rightarrow> nat" where
  "in_flight SetNoDelay = 1"
| "in_flight TakeId = 1"
| "in_flight (StartSession sid) = 1"
| "in_flight HandlerThrew = 1"
| "in_flight _ = 0"

fun numbered :: "accept_pc \<Rightarrow> nat" where
  "numbered (StartSession sid) = 1"
| "numbered _ = 0"

fun admitted :: "accept_pc \<Rightarrow> bool" where
  "admitted CountTotal = True"
| "admitted CountActive = True"
| "admitted _ = False"

text \<open>
  The counter of active connections is the number of open sessions plus the connection the handler
  is setting up; it is within the limit, strictly so once a connection has been admitted and not
  counted; session numbers are handed out in order from 1; nobody counts requests.
\<close>

definition server_inv :: "server_config \<Rightarrow> u32 \<Rightarrow> 'w server \<Rightarrow> bool" where
  "server_inv cfg hw v \<longleftrightarrow>
     max_connections v = cfg_max_connections cfg
     \<and> thread_count v = resolve_threads (cfg_threads cfg) hw
     \<and> unat (active_connections v) = length (open_sessions v) + in_flight (accept_at v)
     \<and> active_connections v \<le> cfg_max_connections cfg
     \<and> (admitted (accept_at v) \<longrightarrow> active_connections v < cfg_max_connections cfg)
     \<and> total_requests v = 0
     \<and> next_session_id v = of_nat (1 + length (sessions v) + numbered (accept_at v))
     \<and> (\<forall>sid. accept_at v = StartSession sid \<longrightarrow> sid = of_nat (1 + length (sessions v)))
     \<and> (\<forall>i < length (sessions v). session_id (sessions v ! i) = of_nat (1 + i))
     \<and> (\<forall>s \<in> set (sessions v). session_inv (proc v, s))
     \<and> total_connections v =
         of_nat (length (sessions v) + in_flight (accept_at v) + (if accept_at v = CountActive then 1 else 0))"

text \<open>The session steps keep the number of a session, and tell the owner of every closing.\<close>

lemma session_id_ops [simp]:
  "session_id (close s) = session_id s" "session_id (do_read_header s) = session_id s"
  "session_id (do_write E r s) = session_id s" "session_id (stop s) = session_id s"
  "session_id (write_done res s) = session_id s" "session_id (destroy s) = session_id s"
  "session_id (start s) = session_id s" "session_id (make_session sid) = sid"
  "session_id (snd (dispatch_and_write E disp w s)) = session_id s"
  "session_id (snd (do_read_body E disp w s)) = session_id s"
  "session_id (snd (header_read E disp res w s)) = session_id s"
  "session_id (snd (body_read E disp res w s)) = session_id s"
  by (auto simp: session_ops make_session_def Let_def split: io_result.splits sum.splits prod.splits)

lemma session_step_id: "session_step E disp (w, s) e (w', s') \<Longrightarrow> session_id s' = session_id s"
proof (cases rule: session_step.cases)
qed (auto dest: arg_cong [where f = "\<lambda>p. session_id (snd p)"])

lemma closed_ops [simp]:
  "closed s \<Longrightarrow> closed (close s)" "closed (do_read_header s) = closed s"
  "closed (do_write E r s) = closed s" "closed (stop s) = closed s"
  "closed s \<Longrightarrow> closed (write_done res s)" "closed s \<Longrightarrow> closed (destroy s)"
  "closed (snd (dispatch_and_write E disp w s)) = closed s"
  "closed (snd (do_read_body E disp w s)) = closed s"
  "closed s \<Longrightarrow> closed (snd (header_read E disp res w s))"
  "closed s \<Longrightarrow> closed (snd (body_read E disp res w s))"
  by (auto simp: session_ops Let_def split: io_result.splits sum.splits prod.splits)

lemma session_step_closed: "session_step E disp (w, s) e (w', s') \<Longrightarrow> closed s \<Longrightarrow> closed s'"
proof (cases rule: session_step.cases)
qed (auto dest: arg_cong [where f = "\<lambda>p. closed (snd p)"])

lemma on_session_close_funpow:
  "(on_session_close ^^ n) v = v\<lparr>active_connections := active_connections v - of_nat n\<rparr>"
  by (induction n) (simp_all add: on_session_close_def algebra_simps)

lemma session_inv_world: "session_inv (w, s) = session_inv (w', s)"
  by (simp add: session_inv_def)

lemma server_inv_start: "server_start cfg hw w v \<Longrightarrow> server_inv cfg hw v"
  by (auto simp: server_start_def server_inv_def make_server_def open_sessions_def)

lemma unat_Suc_less: "(x :: u64) < y \<Longrightarrow> unat (x + 1) = Suc (unat x)"
  using unsigned_less [of y, where ?'a = nat]
  by (simp add: word_less_nat_alt unat_plus_if')

lemma accept_action_inv:
  assumes inv: "server_inv cfg hw v" and seen: "active_connections v \<le> env_seen env"
  shows "server_inv cfg hw (accept_action env v)"
proof (cases "accept_at v")
  case CountActive
  with inv have lt: "active_connections v < cfg_max_connections cfg" by (simp add: server_inv_def)
  with CountActive inv show ?thesis
    by (simp add: accept_action_def server_inv_def open_sessions_def unat_Suc_less [OF lt] inc_le)
next
  case CheckLimit
  with inv seen show ?thesis
    by (auto simp: accept_action_def server_inv_def open_sessions_def)
next
  case (StartSession sid)
  have "session_inv (proc v, start (make_session sid))"
    by (rule session_inv_start) (auto simp: session_start_def)
  with StartSession inv show ?thesis
    by (auto simp: accept_action_def server_inv_def open_sessions_def nth_append less_Suc_eq
        start_def make_session_def do_read_header_def algebra_simps)
qed (use inv in \<open>auto simp: accept_action_def server_inv_def open_sessions_def do_accept_def algebra_simps\<close>)

lemma session_event_inv:
  assumes inv: "server_inv cfg hw v" and i: "i < length (sessions v)"
    and step: "session_step E disp (proc v, sessions v ! i) e (w', s')"
  shows "server_inv cfg hw
     ((on_session_close ^^ (on_close_calls s' - on_close_calls (sessions v ! i)))
        (v\<lparr>proc := w', sessions := (sessions v)[i := s']\<rparr>))" (is "server_inv cfg hw ?v'")
proof -
  let ?s = "sessions v ! i"
  have si: "session_inv (proc v, ?s)" using inv i by (simp add: server_inv_def)
  have si': "session_inv (w', s')" by (rule session_inv_step [OF si step])
  let ?n = "on_close_calls s' - on_close_calls ?s"
  have n: "?n = (if \<not> closed ?s \<and> closed s' then 1 else 0)"
    using si si' session_step_closed [OF step] by (auto simp: session_inv_def Let_def)
  let ?open = "\<lambda>xs. length (filter (\<lambda>s. \<not> closed s) xs)"
  have len: "?open ((sessions v)[i := s']) + ?n = ?open (sessions v)"
    using length_filter_update [OF i, of "\<lambda>s. \<not> closed s" s'] session_step_closed [OF step]
    unfolding n by (auto split: if_splits)
  have act: "unat (active_connections v) = ?open (sessions v) + in_flight (accept_at v)"
    and lim: "active_connections v \<le> cfg_max_connections cfg"
    and adm: "admitted (accept_at v) \<longrightarrow> active_connections v < cfg_max_connections cfg"
    using inv by (simp_all add: server_inv_def open_sessions_def)
  have le: "of_nat ?n \<le> active_connections v"
    using act len unfolding n by (auto simp: word_le_nat_alt split: if_splits)
  have un: "unat (active_connections v - of_nat ?n) = unat (active_connections v) - ?n"
    using unat_sub [OF le] unfolding n by simp
  have down: "active_connections v - of_nat ?n \<le> active_connections v"
    by (rule word_sub_le [OF le])
  have wld: "session_inv (w', s)" if "s \<in> set (sessions v)" for s
    using inv that session_inv_world [of w' s "proc v"] by (auto simp: server_inv_def)
  have all: "\<forall>s \<in> set ((sessions v)[i := s']). session_inv (w', s)"
    using si' wld set_update_subset_insert [of "sessions v" i s'] by auto
  have ids: "\<forall>j < length (sessions v). session_id ((sessions v)[i := s'] ! j) = of_nat (1 + j)"
    using inv i session_step_id [OF step] by (auto simp: server_inv_def nth_list_update)
  have v': "?v' = v\<lparr>proc := w', sessions := (sessions v)[i := s'],
      active_connections := active_connections v - of_nat ?n\<rparr>"
    by (simp add: on_session_close_funpow)
  show ?thesis
    using inv un down lim adm all ids act len unfolding v'
    by (auto simp: server_inv_def open_sessions_def)
qed

lemma server_inv_step:
  assumes "server_inv cfg hw v" and "server_step E disp v e v'"
  shows "server_inv cfg hw v'"
  using assms(2)
proof cases
  case run_called
  with assms(1) show ?thesis by (simp add: server_inv_def do_accept_def open_sessions_def)
next
  case (accept_one env)
  with assms(1) show ?thesis by (simp add: accept_action_inv)
next
  case (session_one e i w' s')
  with assms(1) show ?thesis by (simp add: session_event_inv)
next
  case stop_one
  with assms(1) show ?thesis by (simp add: server_inv_def stop_server_def open_sessions_def)
qed

interpretation server_life: transition_system "server_start cfg hw w" "server_step E disp" "server_inv cfg hw"
  for cfg :: server_config and hw :: u32 and w :: 'w and E :: endianness and disp :: "'w dispatch_fun"
  by unfold_locales (auto intro: server_inv_start server_inv_step)

section \<open>Thread count\<close>

lemma resolve_threads_pos: "resolve_threads n hw \<noteq> 0"
  by (simp add: resolve_threads_def Let_def)

lemma io_threads_eq: "thread_count v \<noteq> 0 \<Longrightarrow> io_threads v = unat (thread_count v)"
  using unat_gt_0 [of "thread_count v"] by (simp add: io_threads_def)

section \<open>Consequences of the invariant\<close>

lemma reach_accept:
  "reach S (server_step E disp) v \<Longrightarrow> \<not> stopped v \<Longrightarrow> active_connections v \<le> env_seen env \<Longrightarrow>
     reach S (server_step E disp) (accept_action env v)"
  by (rule reach_step [where e = AcceptAction], assumption, rule accept_one)

text \<open>Several actions of the accept handler in a row, with nothing in between.\<close>

fun accepts_seen :: "accept_env list \<Rightarrow> 'w server \<Rightarrow> bool" where
  "accepts_seen [] v = True"
| "accepts_seen (env # envs) v \<longleftrightarrow>
     active_connections v \<le> env_seen env \<and> accepts_seen envs (accept_action env v)"

lemma stopped_accept_action [simp]: "stopped (accept_action env v) = stopped v"
  by (simp add: accept_action_def do_accept_def split: accept_pc.split)

lemma reach_accepts:
  "reach S (server_step E disp) v \<Longrightarrow> \<not> stopped v \<Longrightarrow> accepts_seen envs v \<Longrightarrow>
     reach S (server_step E disp) (fold accept_action envs v)"
  by (induction envs arbitrary: v) (simp_all add: reach_accept)

text \<open>A run on the default configuration: the acceptor is armed, then handler actions follow.\<close>

definition sample_run :: "nat \<Rightarrow> bool \<Rightarrow> nat server" where
  "sample_run n throws =
     fold accept_action (replicate n (AcceptEnv True False 1 throws))
       (do_accept (make_server default_server_config 4 0))"

lemma reach_sample_run:
  assumes "accepts_seen (replicate n (AcceptEnv True False 1 throws))
       (do_accept (make_server default_server_config 4 (0 :: nat)))"
  shows "reach (server_start default_server_config 4 0) (server_step E disp) (sample_run n throws)"
proof -
  let ?m = "make_server default_server_config 4 (0 :: nat)"
  have r0: "reach (server_start default_server_config 4 0) (server_step E disp) ?m"
    by (rule reach_start) (simp add: server_start_def)
  have "server_step E disp ?m RunCalled (do_accept ?m)"
    by (rule run_called) (simp add: make_server_def)
  note r1 = reach_step [OF r0, OF this]
  show ?thesis
    unfolding sample_run_def
  proof (rule reach_accepts [OF r1])
    show "\<not> stopped (do_accept ?m)" by (simp add: do_accept_def make_server_def)
  qed (rule assms)
qed

section \<open>Properties\<close>

text \<open>C3: However accepts, session handlers on other threads and stale relaxed loads interleave, the
  counter of active connections never exceeds the configured maximum, and it equals the number of
  sessions that are not closed plus the one connection the accept handler may be setting up.\<close>

theorem connection_limit:
  assumes "reach (server_start cfg hw w) (server_step E disp) v"
  shows "active_connections v \<le> cfg_max_connections cfg
     \<and> unat (active_connections v) = length (open_sessions v) + in_flight (accept_at v)
     \<and> length (open_sessions v) \<le> unat (cfg_max_connections cfg)"
  using server_life.reach_inv [OF assms] by (simp add: server_inv_def word_le_nat_alt)

theorem connection_limit_witness:
  "let v = sample_run 4 False
   in active_connections v \<le> cfg_max_connections default_server_config
     \<and> unat (active_connections v) = length (open_sessions v) + in_flight (accept_at v)
     \<and> length (open_sessions v) \<le> unat (cfg_max_connections default_server_config)"
  unfolding Let_def
  by (rule connection_limit, rule reach_sample_run)
    code_simp

text \<open>The sessions are numbered 1, 2, 3, ... in the order of their creation, so no two sessions of a
  run have the same number as long as no more than \<open>2 ^ 64\<close> were created.\<close>

theorem session_ids_distinct:
  assumes "reach (server_start cfg hw w) (server_step E disp) v" and "length (sessions v) \<le> 2 ^ 64"
  shows "map session_id (sessions v) = map (\<lambda>i. of_nat (1 + i)) [0..<length (sessions v)]
     \<and> distinct (map session_id (sessions v))"
proof -
  have ids: "map session_id (sessions v) = map (\<lambda>i. of_nat (1 + i)) [0..<length (sessions v)]"
    using server_life.reach_inv [OF assms(1)] by (auto simp: server_inv_def intro!: nth_equalityI)
  have "inj_on (\<lambda>i. of_nat (1 + i) :: u64) {0..<length (sessions v)}"
  proof (rule inj_onI)
    fix i j
    assume ij: "i \<in> {0..<length (sessions v)}" "j \<in> {0..<length (sessions v)}"
      and "(of_nat (1 + i) :: u64) = of_nat (1 + j)"
    then have "unat (of_nat i :: u64) = unat (of_nat j :: u64)" by simp
    with ij assms(2) show "i = j" by (simp add: unat_of_nat)
  qed
  with ids show ?thesis by (simp add: distinct_map)
qed

theorem session_ids_distinct_witness:
  "let v = sample_run 7 False
   in map session_id (sessions v) = map (\<lambda>i. of_nat (1 + i)) [0..<length (sessions v)]
     \<and> distinct (map session_id (sessions v)) \<and> length (sessions v) = 1"
proof -
  have "reach (server_start default_server_config 4 0) (server_step LittleEndian (\<lambda>w m. (m, w)))
      (sample_run 7 False)"
    by (rule reach_sample_run) code_simp
  moreover have one: "length (sessions (sample_run 7 False)) = 1"
    by code_simp
  ultimately show ?thesis
    unfolding Let_def using session_ids_distinct [of default_server_config 4 0 LittleEndian] by fastforce
qed

text \<open>Every request goes uncounted: the counter that the shutdown message prints as requests stays 0.\<close>

lemma requests_never_counted:
  assumes "reach (server_start cfg hw w) (server_step E disp) v"
  shows "total_requests v = 0"
  using server_life.reach_inv [OF assms] by (simp add: server_inv_def)

text \<open>The server runs its handlers on the configured number of threads, or on as many as the
  hardware reports when none is configured, or on one when that is not known either; so there is
  always at least one thread, counting the one that called \<open>run\<close>.\<close>

theorem io_thread_count:
  "io_threads (make_server cfg hw w) =
     (if cfg_threads cfg \<noteq> 0 then unat (cfg_threads cfg) else if hw \<noteq> 0 then unat hw else 1)
   \<and> 1 \<le> io_threads (make_server cfg hw w)"
proof -
  have "io_threads (make_server cfg hw w) = unat (resolve_threads (cfg_threads cfg) hw)"
    using io_threads_eq [of "make_server cfg hw w"] by (simp add: make_server_def resolve_threads_pos)
  then show ?thesis
    by (auto simp: resolve_threads_def Let_def Suc_le_eq unat_gt_0)
qed

end
