(* ===== verification/Json_Fields.thy ===== *)
theory Json_Fields
  imports Prelude
begin

text \<open>
  The little JSON helpers of the service files and of the user-interface client: the field
  extractors, which search for the text of a key, and the escaper of the SQL service. The same
  \<open>extract_string\<close> stands in an anonymous namespace of \<^verbatim>\<open>sql_service.cpp\<close>, \<^verbatim>\<open>trade_service.cpp\<close>,
  \<^verbatim>\<open>position_service.cpp\<close> and \<^verbatim>\<open>price_history_service.cpp\<close>, character for character. Each extractor
  is shown equal to a specification by cases on where the key first occurs.
\<close>

section \<open>Index loops\<close>

text \<open>\<open>while (pos < s.size() && P(s[pos])) ++pos;\<close>\<close>

function scan :: "(char \<Rightarrow> bool) \<Rightarrow> string \<Rightarrow> nat \<Rightarrow> nat" where
  "scan P s pos = (if pos < length s \<and> P (s ! pos) then scan P s (Suc pos) else pos)"
  by pat_completeness auto
termination
  by (relation "measure (\<lambda>(P, s, pos). length s - pos)") auto

declare scan.simps [simp del]

lemma scan_takeWhile: "scan P s pos = pos + length (takeWhile P (drop pos s))"
proof (induction P s pos rule: scan.induct)
  case (1 P s pos)
  show ?case
  proof (cases "pos < length s \<and> P (s ! pos)")
    case True
    with 1 show ?thesis
      by (subst scan.simps) (simp add: Cons_nth_drop_Suc [symmetric])
  next
    case False
    then have "takeWhile P (drop pos s) = []"
      by (cases "pos < length s") (simp_all add: Cons_nth_drop_Suc [symmetric])
    with False show ?thesis by (subst scan.simps) auto
  qed
qed

section \<open>Extraction of a string field\<close>

abbreviation quote :: char where
  "quote \<equiv> CHR 0x22"

definition string_needle :: "string \<Rightarrow> string" where
  \<open>string_needle key = quote # key @ ''":"''\<close>

definition number_needle :: "string \<Rightarrow> string" where
  \<open>number_needle key = quote # key @ ''":''\<close>

definition extract_string :: "string \<Rightarrow> string \<Rightarrow> string" where
  "extract_string json key =
     (let needle = string_needle key
      in case str_find json needle 0 of
           None \<Rightarrow> []
         | Some pos \<Rightarrow>
             (let pos = pos + length needle
              in case str_find json [quote] pos of
                   None \<Rightarrow> []
                 | Some e \<Rightarrow> str_substr json pos (e - pos)))"

text \<open>The text up to the next quote, if there is one.\<close>

definition until_quote :: "string \<Rightarrow> string" where
  "until_quote s = (if quote \<in> set s then takeWhile (\<lambda>c. c \<noteq> quote) s else [])"

lemma find_quote_substr:
  assumes "pos \<le> length s"
  shows "(case str_find s [quote] pos of None \<Rightarrow> [] | Some e \<Rightarrow> str_substr s pos (e - pos)) =
      until_quote (drop pos s)"
  using assms
  by (simp add: str_find_def find_idx_char until_quote_def str_substr_def takeWhile_eq_take [symmetric])

lemma extract_string_eq:
  "extract_string json key =
     (case after (string_needle key) json of None \<Rightarrow> [] | Some r \<Rightarrow> until_quote r)"
proof (cases "find_idx (string_needle key) json")
  case None
  then show ?thesis by (simp add: extract_string_def str_find_def after_def Let_def)
next
  case (Some i)
  then have "i + length (string_needle key) \<le> length json"
    using find_idx_SomeD [OF Some] prefix_length_le by fastforce
  moreover have "str_find json (string_needle key) 0 = Some i"
    by (simp add: str_find_def Some)
  ultimately show ?thesis
    by (simp add: extract_string_def Let_def find_quote_substr after_def Some)
qed

lemma until_quote_noquote: "quote \<notin> set (until_quote s)"
  by (auto simp: until_quote_def dest: set_takeWhileD)

lemma extract_string_noquote: "quote \<notin> set (extract_string json key)"
  by (simp add: extract_string_eq until_quote_noquote split: option.split)

lemma length_until_quote: "length (until_quote s) \<le> length s"
  by (simp add: until_quote_def length_takeWhile_le)

lemma length_extract_string: "length (extract_string json key) \<le> length json"
  by (auto simp: extract_string_eq split: option.split dest!: after_SomeD
      intro: order_trans [OF length_until_quote])

lemma until_quote_field [find_rules]: "quote \<notin> set v \<Longrightarrow> until_quote (v @ quote # rest) = v"
  by (auto simp: until_quote_def takeWhile_append)

section \<open>Extraction of a number, as text and as an \<open>int\<close>\<close>

definition is_blank :: "char \<Rightarrow> bool" where
  "is_blank c \<longleftrightarrow> c = CHR '' '' \<or> c = CHR 0x09"

text \<open>
  \<open>std::isdigit\<close> is given a plain \<open>char\<close>: outside ASCII the argument may be negative, which the
  C++ standard leaves undefined and the C libraries in use answer with 0, as \<open>is_digit\<close> does.
\<close>

definition is_numeric :: "char \<Rightarrow> bool" where
  "is_numeric c \<longleftrightarrow> is_digit c \<or> c = CHR ''.'' \<or> c = CHR ''-''"

definition extract_number :: "string \<Rightarrow> string \<Rightarrow> string" where
  "extract_number json key =
     (let needle = number_needle key
      in case str_find json needle 0 of
           None \<Rightarrow> ''0''
         | Some pos \<Rightarrow>
             (let pos = scan is_blank json (pos + length needle);
                  e = scan is_numeric json pos
              in str_substr json pos (e - pos)))"

text \<open>
  \<open>val = val * 10 + (c - '0')\<close> on a 32-bit \<open>int\<close>: a value beyond \<open>INT_MAX\<close> is signed overflow,
  which the language leaves undefined. \<open>None\<close> stands for it.
\<close>

definition INT_MAX :: int where
  "INT_MAX = 2 ^ 31 - 1"

fun int_digits :: "string \<Rightarrow> int \<Rightarrow> bool \<Rightarrow> (int \<times> bool) option" where
  "int_digits [] val found = Some (val, found)"
| "int_digits (c # cs) val found =
     (if is_digit c then
        (let val' = val * 10 + int (digit_val c)
         in if val' > INT_MAX then None else int_digits cs val' True)
      else Some (val, found))"

definition extract_int :: "string \<Rightarrow> string \<Rightarrow> int \<Rightarrow> int option" where
  "extract_int json key def =
     (let needle = number_needle key
      in case str_find json needle 0 of
           None \<Rightarrow> Some def
         | Some pos \<Rightarrow>
             (let pos = scan (\<lambda>c. c = CHR '' '') json (pos + length needle)
              in map_option (\<lambda>(val, found). if found then val else def)
                   (int_digits (drop pos json) 0 False)))"

lemma drop_scan: "drop (scan P s pos) s = dropWhile P (drop pos s)"
  by (simp add: scan_takeWhile dropWhile_eq_drop add.commute)

lemma substr_scan: "str_substr s pos (scan P s pos - pos) = takeWhile P (drop pos s)"
  by (simp add: str_substr_def scan_takeWhile takeWhile_eq_take [symmetric])

lemma extract_number_eq:
  "extract_number json key =
     (case after (number_needle key) json of
        None \<Rightarrow> ''0''
      | Some r \<Rightarrow> takeWhile is_numeric (dropWhile is_blank r))"
  by (simp add: extract_number_def str_find_def after_def Let_def substr_scan drop_scan
      split: option.split)

lemma extract_number_chars: "c \<in> set (extract_number json key) \<Longrightarrow> is_numeric c"
  by (auto simp: extract_number_eq is_numeric_def is_digit_def split: option.splits dest: set_takeWhileD)

lemma length_extract_number: "length (extract_number json key) \<le> Suc (length json)"
  by (auto simp: extract_number_eq split: option.split dest!: after_SomeD
      intro!: order_trans [OF length_takeWhile_le] order_trans [OF length_dropWhile_le])

lemma extract_int_eq:
  "extract_int json key def =
     (case after (number_needle key) json of
        None \<Rightarrow> Some def
      | Some r \<Rightarrow>
          map_option (\<lambda>(val, found). if found then val else def)
            (int_digits (dropWhile (\<lambda>c. c = CHR '' '') r) 0 False))"
  by (simp add: extract_int_def str_find_def after_def Let_def drop_scan split: option.split)

text \<open>The accumulation is exact as long as it is defined, and it is undefined exactly when the
  number written does not fit an \<open>int\<close>.\<close>

lemma foldl_digits_ge: "v \<le> foldl (\<lambda>v c. v * 10 + digit_val c) v ds"
proof (induction ds arbitrary: v)
  case Nil
  then show ?case by simp
next
  case (Cons d ds)
  have "v \<le> v * 10 + digit_val d" by simp
  also have "\<dots> \<le> foldl (\<lambda>v c. v * 10 + digit_val c) (v * 10 + digit_val d) ds"
    by (rule Cons.IH)
  finally show ?case by simp
qed

lemma int_digits_eq:
  assumes "int v \<le> INT_MAX"
  shows "int_digits s (int v) found =
     (let ds = takeWhile is_digit s; n = foldl (\<lambda>v c. v * 10 + digit_val c) v ds
      in if int n > INT_MAX then None else Some (int n, found \<or> ds \<noteq> []))"
  using assms
proof (induction s arbitrary: v found)
  case Nil
  then show ?case by simp
next
  case (Cons c s)
  show ?case
  proof (cases "is_digit c")
    case False
    with Cons.prems show ?thesis by simp
  next
    case True
    have eq: "int v * 10 + int (digit_val c) = int (v * 10 + digit_val c)" by simp
    show ?thesis
    proof (cases "int (v * 10 + digit_val c) > INT_MAX")
      case True
      moreover have "int (v * 10 + digit_val c)
          \<le> int (foldl (\<lambda>v c. v * 10 + digit_val c) (v * 10 + digit_val c) (takeWhile is_digit s))"
        unfolding of_nat_le_iff by (rule foldl_digits_ge)
      ultimately show ?thesis
        using \<open>is_digit c\<close> by (simp add: Let_def)
    next
      case False
      with Cons.IH [of "v * 10 + digit_val c" True] \<open>is_digit c\<close> show ?thesis
        by (simp add: Let_def)
    qed
  qed
qed

lemma int_digits_str_val:
  "int_digits s 0 False =
     (let ds = takeWhile is_digit s
      in if int (str_val ds) > INT_MAX then None else Some (int (str_val ds), ds \<noteq> []))"
  using int_digits_eq [of 0 s False] by (simp add: INT_MAX_def str_val_def Let_def)

section \<open>Escaping\<close>

fun escape_char :: "char \<Rightarrow> string" where
  "escape_char c =
     (if c = quote then [CHR 0x5C, quote]
      else if c = CHR 0x5C then [CHR 0x5C, CHR 0x5C]
      else if c = CHR 0x0A then [CHR 0x5C, CHR ''n'']
      else if c = CHR 0x0D then [CHR 0x5C, CHR ''r'']
      else if c = CHR 0x09 then [CHR 0x5C, CHR ''t'']
      else [c])"

fun json_escape :: "string \<Rightarrow> string" where
  "json_escape [] = []"
| "json_escape (c # cs) = escape_char c @ json_escape cs"

lemma length_json_escape: "length s \<le> length (json_escape s) \<and> length (json_escape s) \<le> 2 * length s"
  by (induction s) auto

section \<open>The extractor of the user-interface client\<close>

text \<open>\<open>ExtractField\<close> of \<^verbatim>\<open>MainDlg.cpp\<close>: the string form of the field first, then the bare form.\<close>

definition field_stop :: "char \<Rightarrow> bool" where
  "field_stop c \<longleftrightarrow> c = CHR '','' \<or> c = CHR ''}''"

definition ExtractField :: "string \<Rightarrow> string \<Rightarrow> string" where
  "ExtractField json key =
     (let needle = string_needle key
      in case str_find json needle 0 of
           Some pos \<Rightarrow>
             (let pos = pos + length needle
              in case str_find json [quote] pos of
                   Some e \<Rightarrow> str_substr json pos (e - pos)
                 | None \<Rightarrow> [])
         | None \<Rightarrow>
             (let needle = number_needle key
              in case str_find json needle 0 of
                   None \<Rightarrow> []
                 | Some pos \<Rightarrow>
                     (let pos = scan is_blank json (pos + length needle);
                          e = scan (\<lambda>c. \<not> field_stop c) json pos
                      in str_substr json pos (e - pos))))"

lemma ExtractField_eq:
  "ExtractField json key =
     (case after (string_needle key) json of
        Some r \<Rightarrow> until_quote r
      | None \<Rightarrow>
          (case after (number_needle key) json of
             None \<Rightarrow> []
           | Some r \<Rightarrow> takeWhile (\<lambda>c. \<not> field_stop c) (dropWhile is_blank r)))"
proof (cases "find_idx (string_needle key) json")
  case None
  then show ?thesis
    by (simp add: ExtractField_def str_find_def after_def Let_def substr_scan drop_scan
        split: option.split)
next
  case (Some i)
  then have "ExtractField json key = extract_string json key"
    by (auto simp: ExtractField_def extract_string_def str_find_def Let_def split: option.splits)
  with Some show ?thesis by (simp add: extract_string_eq after_def)
qed

section \<open>Flat objects\<close>

text \<open>
  The messages of the program are flat JSON objects written without spaces. On such a text the
  extractors are exact: they find the first field of that name, and they never take a value for a
  key, because a value is followed by a comma or a brace and a key by a colon.
\<close>

datatype jval = JStr string | JRaw string

fun render_val :: "jval \<Rightarrow> string" where
  "render_val (JStr s) = quote # s @ [quote]"
| "render_val (JRaw s) = s"

fun render_field :: "string \<times> jval \<Rightarrow> string" where
  "render_field (k, v) = quote # k @ quote # CHR '':'' # render_val v"

fun render_tail :: "(string \<times> jval) list \<Rightarrow> string" where
  "render_tail [] = ''}''"
| "render_tail (f # fs) = CHR '','' # render_field f @ render_tail fs"

fun render_obj :: "(string \<times> jval) list \<Rightarrow> string" where
  "render_obj [] = ''{}''"
| "render_obj (f # fs) = CHR ''{'' # render_field f @ render_tail fs"

definition good_key :: "string \<Rightarrow> bool" where
  "good_key k \<longleftrightarrow> quote \<notin> set k \<and> CHR '':'' \<notin> set k \<and> (\<forall>c \<in> set k. \<not> field_stop c)"

fun plain_val :: "jval \<Rightarrow> bool" where
  "plain_val (JStr s) \<longleftrightarrow> quote \<notin> set s"
| "plain_val (JRaw s) \<longleftrightarrow> quote \<notin> set s \<and> (\<forall>c \<in> set s. \<not> field_stop c)"

fun plain :: "string \<times> jval \<Rightarrow> bool" where
  "plain (k, v) \<longleftrightarrow> good_key k \<and> plain_val v"

lemma prefix_key_stop:
  "good_key key \<Longrightarrow> field_stop c \<or> c = CHR '':'' \<Longrightarrow> \<not> prefix (key @ quote # x) (c # y)"
  by (cases key) (auto simp: good_key_def field_stop_def)

lemma after_quote_miss:
  "\<not> prefix nd s \<Longrightarrow> after (quote # nd) (quote # s) = after (quote # nd) s"
  by (simp add: after_miss)

lemma after_field:
  fixes t :: string
  assumes key: "good_key key" and f: "plain (k, v)" and c: "field_stop c"
  defines "nd \<equiv> quote # key @ quote # CHR '':'' # t"
  shows "after nd (render_field (k, v) @ c # T) =
     (if key = k \<and> prefix t (render_val v @ c # T)
      then Some (drop (length t) (render_val v @ c # T)) else after nd (c # T))"
proof (cases "key = k \<and> prefix t (render_val v @ c # T)")
  case True
  then have "prefix nd (render_field (k, v) @ c # T)"
    by (simp add: nd_def)
  then show ?thesis
    using True by (simp add: after_hit nd_def)
next
  case False
  have kq: "quote \<notin> set k" using f by (cases v) (auto simp: good_key_def)
  have keyq: "quote \<notin> set key" using key by (simp add: good_key_def)
  have cq: "c \<noteq> quote" "c \<noteq> CHR '':''" using c by (auto simp: field_stop_def)
  have "after nd (render_field (k, v) @ c # T) = after nd (k @ quote # CHR '':'' # render_val v @ c # T)"
    using False kq keyq by (simp add: nd_def after_quote_miss prefix_cut)
  also have "\<dots> = after nd (quote # CHR '':'' # render_val v @ c # T)"
    unfolding nd_def using kq by (rule after_skip)
  also have "\<dots> = after nd (CHR '':'' # render_val v @ c # T)"
    using key by (simp add: nd_def after_quote_miss prefix_key_stop)
  also have "\<dots> = after nd (render_val v @ c # T)"
    by (simp add: nd_def after_miss)
  also have "\<dots> = after nd (c # T)"
  proof (cases v)
    case (JRaw s)
    with f show ?thesis by (simp add: nd_def after_skip)
  next
    case (JStr s)
    with f have sq: "quote \<notin> set s" by simp
    have "after nd (render_val v @ c # T) = after nd (s @ quote # c # T)"
      using sq keyq cq JStr by (simp add: nd_def after_quote_miss prefix_cut)
    also have "\<dots> = after nd (quote # c # T)"
      unfolding nd_def using sq by (rule after_skip)
    also have "\<dots> = after nd (c # T)"
      using key c by (simp add: nd_def after_quote_miss prefix_key_stop)
    finally show ?thesis .
  qed
  finally show ?thesis by (simp only: if_not_P [OF False])
qed

lemma render_tail_stop: "\<exists>c T. render_tail fs = c # T \<and> field_stop c"
  by (cases fs) (auto simp: field_stop_def)

text \<open>The first field of a name (among those whose value satisfies \<open>P\<close>).\<close>

definition first_field :: "(jval \<Rightarrow> bool) \<Rightarrow> string \<Rightarrow> (string \<times> jval) list \<Rightarrow> jval option" where
  "first_field P key fs = map_option snd (List.find (\<lambda>(k, v). k = key \<and> P v) fs)"

lemma first_field_simps [simp]:
  "first_field P key [] = None"
  "first_field P key ((k, v) # fs) = (if k = key \<and> P v then Some v else first_field P key fs)"
  by (simp_all add: first_field_def)

fun is_JStr :: "jval \<Rightarrow> bool" where
  "is_JStr (JStr s) = True"
| "is_JStr (JRaw s) = False"

lemma after_tail:
  fixes t :: string
  assumes key: "good_key key"
    and P: "\<And>v c T. plain_val v \<Longrightarrow> field_stop c \<Longrightarrow> prefix t (render_val v @ c # T) \<longleftrightarrow> P v"
  defines "nd \<equiv> quote # key @ quote # CHR '':'' # t"
  shows "\<forall>f \<in> set fs. plain f \<Longrightarrow>
     (case first_field P key fs of
        None \<Rightarrow> after nd (render_tail fs) = None
      | Some v \<Rightarrow> \<exists>c T. field_stop c
          \<and> after nd (render_tail fs) = Some (drop (length t) (render_val v @ c # T)))"
proof (induction fs)
  case Nil
  show ?case by (simp add: nd_def after_miss after_Nil)
next
  case (Cons f fs)
  obtain k v where f: "f = (k, v)" by (cases f)
  obtain c T where T: "render_tail fs = c # T" "field_stop c"
    using render_tail_stop by blast
  have "after nd (render_tail (f # fs)) = after nd (render_field (k, v) @ c # T)"
    by (simp add: f T nd_def after_miss)
  also have "\<dots> = (if key = k \<and> P v then Some (drop (length t) (render_val v @ c # T))
      else after nd (render_tail fs))"
    using Cons.prems T unfolding nd_def T(1) by (subst after_field) (auto simp: f key P)
  finally have step: "after nd (render_tail (f # fs)) = \<dots>" .
  show ?case
  proof (cases "key = k \<and> P v")
    case True
    then have "first_field P key (f # fs) = Some v" by (simp add: f)
    with step True T(2) show ?thesis by (auto simp del: drop_append render_tail.simps)
  next
    case False
    then have "first_field P key (f # fs) = first_field P key fs" by (auto simp: f)
    moreover have "\<forall>f \<in> set fs. plain f" using Cons.prems by simp
    ultimately show ?thesis using step False Cons.IH by (simp only: if_False)
  qed
qed

lemma after_obj:
  fixes t :: string
  assumes "good_key key"
    and "\<And>v c T. plain_val v \<Longrightarrow> field_stop c \<Longrightarrow> prefix t (render_val v @ c # T) \<longleftrightarrow> P v"
    and "\<forall>f \<in> set fs. plain f"
  defines "nd \<equiv> quote # key @ quote # CHR '':'' # t"
  shows "case first_field P key fs of
        None \<Rightarrow> after nd (render_obj fs) = None
      | Some v \<Rightarrow> \<exists>c T. field_stop c
          \<and> after nd (render_obj fs) = Some (drop (length t) (render_val v @ c # T))"
proof -
  have "after nd (render_obj fs) = after nd (render_tail fs)"
    by (cases fs) (simp_all add: nd_def after_miss)
  with after_tail [of key t P fs, OF assms(1,2,3)] show ?thesis
    unfolding nd_def by (simp only:)
qed

text \<open>The value of a field as text, if it is a string.\<close>

fun str_of :: "jval option \<Rightarrow> string" where
  "str_of (Some (JStr s)) = s"
| "str_of _ = []"

lemma after_obj_string:
  assumes "good_key key" and "\<forall>f \<in> set fs. plain f"
  shows "case first_field is_JStr key fs of
        None \<Rightarrow> after (string_needle key) (render_obj fs) = None
      | Some v \<Rightarrow> \<exists>rest. after (string_needle key) (render_obj fs) = Some (str_of (Some v) @ quote # rest)"
proof -
  have P: "prefix [quote] (render_val v @ c # T) \<longleftrightarrow> is_JStr v" if "plain_val v" "field_stop c" for v c T
    using that by (cases v; cases "render_val v") (auto simp: field_stop_def)
  have js: "is_JStr v" if "first_field is_JStr key fs = Some v" for v
    using that by (induction fs) (auto split: if_splits)
  have "case first_field is_JStr key fs of
        None \<Rightarrow> after (quote # key @ quote # CHR '':'' # [quote]) (render_obj fs) = None
      | Some v \<Rightarrow> \<exists>c T. field_stop c \<and> after (quote # key @ quote # CHR '':'' # [quote]) (render_obj fs) =
          Some (drop (length [quote]) (render_val v @ c # T))"
    by (rule after_obj [OF assms(1) P assms(2)])
  with js show ?thesis
    by (cases "first_field is_JStr key fs") (auto simp: string_needle_def elim!: is_JStr.elims(2))
qed

lemma after_obj_number:
  assumes "good_key key" and "\<forall>f \<in> set fs. plain f"
  shows "case first_field (\<lambda>_. True) key fs of
        None \<Rightarrow> after (number_needle key) (render_obj fs) = None
      | Some v \<Rightarrow> \<exists>c T. field_stop c
          \<and> after (number_needle key) (render_obj fs) = Some (render_val v @ c # T)"
proof -
  have "case first_field (\<lambda>_. True) key fs of
        None \<Rightarrow> after (quote # key @ quote # CHR '':'' # []) (render_obj fs) = None
      | Some v \<Rightarrow> \<exists>c T. field_stop c \<and> after (quote # key @ quote # CHR '':'' # []) (render_obj fs) =
          Some (drop (length ([] :: string)) (render_val v @ c # T))"
    by (rule after_obj [OF assms(1) _ assms(2)]) simp
  then show ?thesis
    by (simp only: number_needle_def list.size drop0)
qed

lemma first_field_plain:
  assumes "first_field P key fs = Some v" and "\<forall>f \<in> set fs. plain f"
  shows "P v \<and> plain (key, v)"
  using assms by (induction fs) (auto split: if_splits)

lemma extract_string_obj:
  assumes "good_key key" and "\<forall>f \<in> set fs. plain f"
  shows "extract_string (render_obj fs) key = str_of (first_field is_JStr key fs)"
proof (cases "first_field is_JStr key fs")
  case None
  with after_obj_string [OF assms] show ?thesis by (simp add: extract_string_eq)
next
  case (Some v)
  with first_field_plain [OF Some assms(2)] obtain s where v: "v = JStr s" and s: "quote \<notin> set s"
    by (cases v) auto
  from after_obj_string [OF assms] Some v s show ?thesis
    by (auto simp: extract_string_eq until_quote_field)
qed

lemma number_text_raw:
  assumes "field_stop c" and "\<forall>x \<in> set s. is_numeric x"
  shows "takeWhile is_numeric (dropWhile is_blank (s @ c # T)) = s"
proof -
  have "\<not> is_blank x" if "is_numeric x" for x
    using that by (auto simp: is_numeric_def is_blank_def is_digit_def)
  moreover have c: "\<not> is_blank c" "\<not> is_numeric c"
    using assms(1) by (auto simp: field_stop_def is_blank_def is_numeric_def)
  ultimately have "dropWhile is_blank (s @ c # T) = s @ c # T"
    using assms(2) by (cases s) auto
  then show ?thesis using assms(2) c by (simp add: takeWhile_append)
qed

lemma extract_number_obj:
  assumes "good_key key" and "\<forall>f \<in> set fs. plain f"
    and "first_field (\<lambda>_. True) key fs = Some (JRaw s)" and "\<forall>c \<in> set s. is_numeric c"
  shows "extract_number (render_obj fs) key = s"
  using after_obj_number [OF assms(1,2)] assms(3,4)
  by (auto simp: extract_number_eq number_text_raw)

lemma extract_number_obj_string:
  assumes "good_key key" and "\<forall>f \<in> set fs. plain f"
    and "first_field (\<lambda>_. True) key fs = Some (JStr s)"
  shows "extract_number (render_obj fs) key = []"
  using after_obj_number [OF assms(1,2)] assms(3)
  by (auto simp: extract_number_eq is_blank_def is_numeric_def)

lemma extract_number_obj_none:
  assumes "good_key key" and "\<forall>f \<in> set fs. plain f" and "first_field (\<lambda>_. True) key fs = None"
  shows "extract_number (render_obj fs) key = ''0''"
  using after_obj_number [OF assms(1,2)] assms(3) by (simp add: extract_number_eq)

lemma extract_int_obj:
  assumes "good_key key" and "\<forall>f \<in> set fs. plain f"
    and "first_field (\<lambda>_. True) key fs = Some (JRaw (nat_str n))" and "int n \<le> INT_MAX"
  shows "extract_int (render_obj fs) key def = Some (int n)"
proof -
  obtain c T where c: "field_stop c"
    and a: "after (number_needle key) (render_obj fs) = Some (nat_str n @ c # T)"
    using after_obj_number [OF assms(1,2)] assms(3) by auto
  have "\<not> is_digit c" using c by (auto simp: field_stop_def)
  then have t: "takeWhile is_digit (nat_str n @ c # T) = nat_str n"
    using nat_str_digits [of n] by (simp add: takeWhile_append)
  have "dropWhile (\<lambda>c. c = CHR '' '') (nat_str n @ c # T) = nat_str n @ c # T"
    using nat_str_digits [of n] by (cases "nat_str n") auto
  with a t assms(4) show ?thesis
    by (simp add: extract_int_eq int_digits_str_val Let_def)
qed

lemma ExtractField_obj:
  assumes "good_key key" and "\<forall>f \<in> set fs. plain f"
  shows "ExtractField (render_obj fs) key =
     (case first_field is_JStr key fs of
        Some v \<Rightarrow> str_of (Some v)
      | None \<Rightarrow>
          (case first_field (\<lambda>_. True) key fs of
             Some (JRaw s) \<Rightarrow> dropWhile is_blank s
           | _ \<Rightarrow> []))"
proof (cases "first_field is_JStr key fs")
  case (Some v)
  with after_obj_string [OF assms] obtain r where "after (string_needle key) (render_obj fs) = Some r"
    by auto
  then have "ExtractField (render_obj fs) key = extract_string (render_obj fs) key"
    by (simp add: ExtractField_eq extract_string_eq)
  with Some show ?thesis by (simp add: extract_string_obj [OF assms])
next
  case None
  have stop: "takeWhile (\<lambda>c. \<not> field_stop c) (dropWhile is_blank (s @ c # T)) = dropWhile is_blank s"
    if "\<forall>x \<in> set s. \<not> field_stop x" "field_stop c" for s c T
  proof -
    have "\<not> is_blank c" using that(2) by (auto simp: field_stop_def is_blank_def)
    then have "dropWhile is_blank (s @ c # T) = dropWhile is_blank s @ c # T"
      by (induction s) auto
    then show ?thesis
      using that by (auto simp: takeWhile_append dest: set_dropWhileD)
  qed
  show ?thesis
  proof (cases "first_field (\<lambda>_. True) key fs")
    case N: None
    with None after_obj_string [OF assms] after_obj_number [OF assms] show ?thesis
      by (simp add: ExtractField_eq)
  next
    case (Some v)
    have "\<not> is_JStr v"
      using Some None by (induction fs) (auto split: if_splits)
    then obtain s where v: "v = JRaw s" by (cases v) auto
    with first_field_plain [OF Some assms(2)] have "\<forall>x \<in> set s. \<not> field_stop x" by simp
    with v Some None after_obj_string [OF assms] after_obj_number [OF assms] show ?thesis
      by (auto simp: ExtractField_eq stop)
  qed
qed

lemmas obj_rules = extract_string_obj extract_number_obj extract_number_obj_string
  extract_number_obj_none extract_int_obj ExtractField_obj

section \<open>Properties\<close>

text \<open>C35: On a flat object written without blanks, the server's string extractor returns the value of the
  first string field with the wanted key, wherever other fields stand and even if another value spells
  the key, and the empty string if there is none. The keys, the wanted one included, hold no quote,
  colon, comma or closing brace, string values hold no quote, and bare values no quote, comma or
  closing brace.\<close>

theorem extract_string_spec:
  assumes "good_key key" and "\<forall>f \<in> set fs. plain f"
  shows "extract_string (render_obj fs) key = str_of (first_field is_JStr key fs)"
  by (rule extract_string_obj [OF assms])

theorem extract_string_spec_witness:
  "extract_string (render_obj [(''note'', JStr ''symbol''), (''qty'', JRaw ''5''), (''symbol'', JStr ''IBM''),
     (''symbol'', JStr ''AAPL'')]) ''symbol'' = ''IBM''"
  by (subst extract_string_spec) (simp_all add: good_key_def field_stop_def)

end
