(* ===== verification/Sql_Service.thy ===== *)
theory Sql_Service
  imports Json_Fields
begin

text \<open>
  \<^verbatim>\<open>server/src/services/sql_service.cpp\<close>: the stub handler of SQL queries. It finds the \<open>sql\<close>
  field, refuses a request without one, and answers fixed rows followed by the escaped query.
\<close>

definition missing_sql_json :: string where
  \<open>missing_sql_json = ''{"error":"missing 'sql' field"}''\<close>

definition sql_rows_json :: string where
  \<open>sql_rows_json =
     ''{"rows":['' @
     ''{"symbol":"AAPL","price":182.50,"volume":52000000},'' @
     ''{"symbol":"MSFT","price":310.10,"volume":28000000},'' @
     ''{"symbol":"GOOGL","price":140.75,"volume":18000000}'' @
     ''],"affected":0,"query":"''\<close>

definition handle_sql_query :: "string \<Rightarrow> string" where
  \<open>handle_sql_query request_json =
     (let sql = extract_string request_json ''sql''
      in if sql = [] then missing_sql_json
         else sql_rows_json @ json_escape sql @ ''"}'')\<close>

lemma handle_sql_query_missing:
  "extract_string req ''sql'' = [] \<Longrightarrow> handle_sql_query req = missing_sql_json"
  by (simp add: handle_sql_query_def)

lemma length_sql_rows_json: "length sql_rows_json = 186"
  by (simp add: sql_rows_json_def)

lemma length_handle_sql_query:
  assumes "extract_string req ''sql'' = sql" and "sql \<noteq> []"
  shows "length (handle_sql_query req) = 188 + length (json_escape sql)"
  using assms by (simp add: handle_sql_query_def length_sql_rows_json)

text \<open>A request made by wrapping a text without quotes.\<close>

lemma extract_sql_request:
  "quote \<notin> set sql \<Longrightarrow> extract_string (render_obj [(''sql'', JStr sql)]) ''sql'' = sql"
  by (subst extract_string_obj) (auto simp: good_key_def field_stop_def)

section \<open>Properties\<close>

text \<open>C40: The request format the documentation gives, with a blank behind the colon, is not recognised:
  the handler answers that the \<open>sql\<close> field is missing, for every query without quotes.\<close>

theorem documented_sql_request_refused:
  assumes "quote \<notin> set sql"
  shows \<open>handle_sql_query (''{ "sql": "'' @ sql @ ''" }'') = missing_sql_json\<close>
proof -
  have hit: \<open>\<not> prefix (''sql":"'') (sql @ ''" }'')\<close>
    using prefix_cut [of quote "''sql''" sql "CHR '':'' # [quote]" "'' }''"] assms by simp
  have tail: \<open>after (string_needle ''sql'') (sql @ ''" }'') = None\<close>
    using assms by (simp add: string_needle_def after_skip after_miss after_Nil)
  have \<open>after (string_needle ''sql'') (''{ "sql": "'' @ sql @ ''" }'') = None\<close>
    using hit tail by (simp add: string_needle_def after_miss)
  then show ?thesis
    by (intro handle_sql_query_missing) (simp add: extract_string_eq)
qed

theorem documented_sql_request_refused_witness:
  \<open>handle_sql_query (''{ "sql": "'' @ ''SELECT 1'' @ ''" }'') = missing_sql_json\<close>
  by (rule documented_sql_request_refused) simp

text \<open>C39: There is a request within the 16 MiB limit whose response is not: escaping doubles the
  backslashes of the query, so the server produces a payload above its own limit.\<close>

theorem sql_response_exceeds_limit:
  "\<exists>req. length req \<le> 16777216 \<and> 16777216 < length (handle_sql_query req)"
proof (intro exI conjI)
  let ?n = "8388608 :: nat"
  let ?sql = "replicate ?n (CHR 0x5C)"
  let ?req = "render_obj [(''sql'', JStr ?sql)]"
  have x: "extract_string ?req ''sql'' = ?sql"
    by (rule extract_sql_request) simp
  have "json_escape (replicate k (CHR 0x5C)) = replicate (2 * k) (CHR 0x5C)" for k
    by (induction k) simp_all
  then have "length (json_escape ?sql) = 2 * ?n"
    by simp
  moreover have "?sql \<noteq> []" by simp
  ultimately show "16777216 < length (handle_sql_query ?req)"
    using length_handle_sql_query [OF x] by simp
  show "length ?req \<le> 16777216" by simp
qed

end
