(* ===== verification/Trade_Service.thy ===== *)
theory Trade_Service
  imports Json_Fields
begin

text \<open>
  \<^verbatim>\<open>server/src/services/trade_service.cpp\<close>: the order handlers. The process-wide order counter is an
  atomic 64-bit integer, taken with \<open>fetch_add\<close>; the model passes it explicitly, so an execution of
  several orders, on any threads, is the sequence in which their \<open>fetch_add\<close>s took effect.
\<close>

definition order_id_str :: "u64 \<Rightarrow> string" where
  "order_id_str n = ''ORD-'' @ nat_str (unat n)"

definition build_order_ack :: "u64 \<Rightarrow> string \<Rightarrow> string \<Rightarrow> string \<times> u64" where
  \<open>build_order_ack g_order_counter request_json side =
     (let symbol = extract_string request_json ''symbol'';
          qty_s = extract_number request_json ''qty'';
          price_s = extract_number request_json ''price'';
          account = extract_string request_json ''account'';
          symbol = (if symbol = [] then ''UNKNOWN'' else symbol);
          qty_s = (if qty_s = [] then ''0'' else qty_s);
          price_s = (if price_s = [] then ''0'' else price_s);
          order_id = g_order_counter
      in (''{'' @
          ''"order_id":"'' @ order_id_str order_id @ ''",'' @
          ''"symbol":"'' @ symbol @ ''",'' @
          ''"side":"'' @ side @ ''",'' @
          ''"account":"'' @ (if account = [] then ''N/A'' else account) @ ''",'' @
          ''"qty":'' @ qty_s @ '','' @
          ''"price":'' @ price_s @ '','' @
          ''"status":"FILLED"'' @
          ''}'',
          g_order_counter + 1))\<close>

definition handle_buy_order :: "u64 \<Rightarrow> string \<Rightarrow> string \<times> u64" where
  "handle_buy_order g request_json = build_order_ack g request_json ''BUY''"

definition handle_sell_order :: "u64 \<Rightarrow> string \<Rightarrow> string \<times> u64" where
  "handle_sell_order g request_json = build_order_ack g request_json ''SELL''"

section \<open>The acknowledgement as a reader sees it\<close>

text \<open>The fields of an acknowledgement, in the order they are written.\<close>

definition ack_fields ::
  "string \<Rightarrow> string \<Rightarrow> string \<Rightarrow> string \<Rightarrow> string \<Rightarrow> string \<Rightarrow> (string \<times> jval) list" where
  "ack_fields oid symb side acct qty price =
     [(''order_id'', JStr oid), (''symbol'', JStr symb), (''side'', JStr side),
      (''account'', JStr acct), (''qty'', JRaw qty), (''price'', JRaw price),
      (''status'', JStr ''FILLED'')]"

definition or_default :: "string \<Rightarrow> string \<Rightarrow> string" where
  "or_default d s = (if s = [] then d else s)"

lemma build_order_ack_obj:
  "build_order_ack g req side =
     (render_obj
        (ack_fields (order_id_str g) (or_default ''UNKNOWN'' (extract_string req ''symbol'')) side
           (or_default ''N/A'' (extract_string req ''account''))
           (or_default ''0'' (extract_number req ''qty'')) (or_default ''0'' (extract_number req ''price''))),
      g + 1)"
  by (simp add: build_order_ack_def ack_fields_def or_default_def Let_def)

lemma quote_notin_order_id [simp]: "quote \<notin> set (order_id_str n)"
  by (simp add: order_id_str_def)

lemma is_numeric_plain: "\<forall>c \<in> set s. is_numeric c \<Longrightarrow> plain_val (JRaw s)"
  by (auto simp: is_numeric_def field_stop_def is_digit_def)

lemma ack_fields_plain:
  assumes "quote \<notin> set oid" "quote \<notin> set symb" "quote \<notin> set side" "quote \<notin> set acct"
    and "\<forall>c \<in> set qty. is_numeric c" and "\<forall>c \<in> set price. is_numeric c"
  shows "\<forall>f \<in> set (ack_fields oid symb side acct qty price). plain f"
  using assms(1-4) is_numeric_plain [OF assms(5)] is_numeric_plain [OF assms(6)]
  by (simp add: ack_fields_def good_key_def field_stop_def)

lemma or_default_noquote: "quote \<notin> set d \<Longrightarrow> quote \<notin> set s \<Longrightarrow> quote \<notin> set (or_default d s)"
  by (simp add: or_default_def)

lemma or_default_numeric:
  "\<forall>c \<in> set (or_default ''0'' (extract_number req key)). is_numeric c"
  by (auto simp: or_default_def is_numeric_def [of "CHR ''0''"] is_digit_def dest: extract_number_chars)

text \<open>What the client reads in it.\<close>

lemma ack_ExtractField:
  fixes g :: u64 and req side :: string
  assumes "quote \<notin> set side"
  defines "a \<equiv> fst (build_order_ack g req side)"
  shows "ExtractField a ''order_id'' = order_id_str g"
    and "ExtractField a ''side'' = side"
    and "ExtractField a ''status'' = ''FILLED''"
    and "ExtractField a ''symbol'' = or_default ''UNKNOWN'' (extract_string req ''symbol'')"
    and "ExtractField a ''account'' = or_default ''N/A'' (extract_string req ''account'')"
    and "ExtractField a ''qty'' = or_default ''0'' (extract_number req ''qty'')"
    and "ExtractField a ''price'' = or_default ''0'' (extract_number req ''price'')"
proof -
  have nb: "dropWhile is_blank s = s" if "\<forall>c \<in> set s. is_numeric c" for s
    using that by (cases s) (auto simp: is_numeric_def is_blank_def is_digit_def)
  have p: "\<forall>f \<in> set (ack_fields (order_id_str g) (or_default ''UNKNOWN'' (extract_string req ''symbol'')) side
           (or_default ''N/A'' (extract_string req ''account''))
           (or_default ''0'' (extract_number req ''qty'')) (or_default ''0'' (extract_number req ''price''))).
         plain f"
    using assms(1)
    by (intro ack_fields_plain or_default_numeric) (simp_all add: or_default_noquote extract_string_noquote)
  show "ExtractField a ''order_id'' = order_id_str g"
    and "ExtractField a ''side'' = side"
    and "ExtractField a ''status'' = ''FILLED''"
    and "ExtractField a ''symbol'' = or_default ''UNKNOWN'' (extract_string req ''symbol'')"
    and "ExtractField a ''account'' = or_default ''N/A'' (extract_string req ''account'')"
    and "ExtractField a ''qty'' = or_default ''0'' (extract_number req ''qty'')"
    and "ExtractField a ''price'' = or_default ''0'' (extract_number req ''price'')"
    unfolding a_def build_order_ack_obj fst_conv
    by (subst ExtractField_obj [OF _ p],
        simp add: good_key_def field_stop_def,
        simp add: ack_fields_def nb [OF or_default_numeric])+
qed

lemma length_order_id_str: "length (order_id_str n) \<le> 24"
proof -
  have "unat n < 10 ^ 20"
    using unsigned_less [of n, where ?'a = nat] by simp
  from length_nat_str [OF this] show ?thesis by (simp add: order_id_str_def)
qed

lemma length_build_order_ack:
  "length (fst (build_order_ack g req side)) \<le> 4 * length req + length side + 150"
proof -
  have "length (or_default d s) \<le> length d + length s" for d s
    by (simp add: or_default_def)
  from this [of "''UNKNOWN''" "extract_string req ''symbol''"] this [of "''N/A''" "extract_string req ''account''"]
    this [of "''0''" "extract_number req ''qty''"] this [of "''0''" "extract_number req ''price''"]
    length_extract_string [of req "''symbol''"] length_extract_string [of req "''account''"]
    length_extract_number [of req "''qty''"] length_extract_number [of req "''price''"]
    length_order_id_str [of g]
  show ?thesis
    by (simp add: build_order_ack_obj ack_fields_def)
qed

section \<open>The order counter\<close>

text \<open>A batch of orders, in the order in which they took their number.\<close>

fun process_orders :: "u64 \<Rightarrow> (string \<times> string) list \<Rightarrow> string list \<times> u64" where
  "process_orders g [] = ([], g)"
| "process_orders g ((side, req) # os) =
     (let (a, g') = build_order_ack g req side; (as, g'') = process_orders g' os in (a # as, g''))"

lemma process_orders_ids:
  "\<forall>(side, req) \<in> set os. quote \<notin> set side \<Longrightarrow>
     map (\<lambda>a. ExtractField a ''order_id'') (fst (process_orders g os)) =
       map (\<lambda>i. order_id_str (g + of_nat i)) [0..<length os]
     \<and> snd (process_orders g os) = g + of_nat (length os)"
proof (induction os arbitrary: g)
  case Nil
  then show ?case by simp
next
  case (Cons o' os)
  obtain side req where o': "o' = (side, req)" by (cases o')
  have up: "[0..<Suc (length os)] = 0 # map Suc [0..<length os]"
    by (simp add: upt_conv_Cons map_Suc_upt del: upt_Suc)
  have next_g: "snd (build_order_ack g req side) = g + 1"
    by (simp add: build_order_ack_obj)
  from Cons.IH [of "g + 1"] Cons.prems show ?case
    by (simp add: o' case_prod_unfold Let_def next_g ack_ExtractField(1) up add.assoc
        del: upt_Suc)
qed

lemma order_id_str_inj: "order_id_str m = order_id_str n \<longleftrightarrow> m = n"
  by (auto simp: order_id_str_def word_unat_eq_iff dest!: nat_str_inj)

lemma process_orders_distinct:
  assumes "\<forall>(side, req) \<in> set os. quote \<notin> set side" and "length os < 2 ^ 64"
  shows "distinct (map (\<lambda>a. ExtractField a ''order_id'') (fst (process_orders g os)))"
proof -
  have "inj_on (\<lambda>i. order_id_str (g + of_nat i)) {0..<length os}"
  proof (rule inj_onI)
    fix i j
    assume "i \<in> {0..<length os}" "j \<in> {0..<length os}"
      and "order_id_str (g + of_nat i) = order_id_str (g + of_nat j)"
    then have "(of_nat i :: u64) = of_nat j" and b: "i < 2 ^ 64" "j < 2 ^ 64"
      using assms(2) by (auto simp: order_id_str_inj)
    then have "unat (of_nat i :: u64) = unat (of_nat j :: u64)" by simp
    with b show "i = j" by (simp add: unat_of_nat)
  qed
  then show ?thesis
    using process_orders_ids [OF assms(1), of g] by (simp add: distinct_map)
qed

section \<open>Properties\<close>

text \<open>C21: The client reads in every order acknowledgement, whatever the request was: the number drawn
  from the counter, the side, the status FILLED, and the symbol, account, quantity and price of the
  request or their defaults; and every order advances the counter by one.\<close>

theorem order_ack_reads_back:
  "list_all (\<lambda>(handle, side).
      let (ack, g') = handle g req
      in g' = g + 1
       \<and> ExtractField ack ''order_id'' = ''ORD-'' @ nat_str (unat g)
       \<and> ExtractField ack ''side'' = side
       \<and> ExtractField ack ''status'' = ''FILLED''
       \<and> ExtractField ack ''symbol'' = or_default ''UNKNOWN'' (extract_string req ''symbol'')
       \<and> ExtractField ack ''account'' = or_default ''N/A'' (extract_string req ''account'')
       \<and> ExtractField ack ''qty'' = or_default ''0'' (extract_number req ''qty'')
       \<and> ExtractField ack ''price'' = or_default ''0'' (extract_number req ''price''))
     [(handle_buy_order, ''BUY''), (handle_sell_order, ''SELL'')]"
proof -
  have "snd (build_order_ack g req side) = g + 1" for side
    by (simp add: build_order_ack_obj)
  then show ?thesis
    by (simp add: handle_buy_order_def handle_sell_order_def case_prod_unfold Let_def
        ack_ExtractField order_id_str_def)
qed

text \<open>Any orders, buys and sells in the sequence in which they drew their number, fewer than
  \<open>2 ^ 64\<close> of them, are acknowledged under pairwise different order ids.\<close>

theorem order_ids_distinct:
  assumes "\<forall>(side, req) \<in> set os. side = ''BUY'' \<or> side = ''SELL''" and "length os < 2 ^ 64"
  shows "distinct (map (\<lambda>a. ExtractField a ''order_id'') (fst (process_orders g os)))"
  using assms by (intro process_orders_distinct) auto

theorem order_ids_distinct_witness:
  "distinct (map (\<lambda>a. ExtractField a ''order_id'')
     (fst (process_orders 1 [(''BUY'', ''a''), (''SELL'', ''b''), (''BUY'', ''a'')])))"
  by (rule order_ids_distinct) simp_all

end
