(* ===== verification/Position_Service.thy ===== *)
theory Position_Service
  imports Json_Fields
begin

text \<open>
  \<^verbatim>\<open>server/src/services/position_service.cpp\<close>: the stub handler of position queries, which echoes
  the account and answers three fixed holdings.
\<close>

definition positions_json :: string where
  \<open>positions_json =
     ''"positions":['' @
     ''{"symbol":"AAPL","qty":500,"avg_cost":178.30,"current":182.50,"pnl":2100.00},'' @
     ''{"symbol":"MSFT","qty":200,"avg_cost":305.10,"current":310.10,"pnl":1000.00},'' @
     ''{"symbol":"GOOGL","qty":50,"avg_cost":138.20,"current":140.75,"pnl":127.50}'' @
     ''],'' @
     ''"cash":12345.67'' @
     ''}''\<close>

definition handle_get_position :: "string \<Rightarrow> string" where
  \<open>handle_get_position request_json =
     (let account = extract_string request_json ''account'';
          account = (if account = [] then ''UNKNOWN'' else account)
      in ''{'' @ ''"account":"'' @ account @ ''",'' @ positions_json)\<close>

lemma handle_get_position_account:
  assumes "extract_string req ''account'' = acct" and "acct \<noteq> []"
  shows \<open>handle_get_position req = ''{"account":"'' @ acct @ quote # CHR '','' # positions_json\<close>
  using assms by (simp add: handle_get_position_def)

end
