(* ===== verification/Binary64.thy ===== *)
theory Binary64
  imports Complex_Main "HOL-Library.Log_Nat" Prelude
begin

text \<open>
  Double-precision arithmetic as the services and the metrics use it. A finite double is a rational
  number; each operation is the exact one followed by rounding to 53 significant bits, ties to even
  (IEEE 754 binary64 in the default mode). Exponents are not bounded: every value the program
  computes lies far from overflow and from the subnormal range. The laws a client of rounding needs
  are the locale \<open>rounding\<close>; \<open>rnd64\<close> is shown to satisfy them. The last part is the default output
  of a double on a stream (precision 6, the \<open>%g\<close> conversion).
\<close>

type_synonym double = rat

section \<open>The exponent of a positive rational\<close>

definition base_exponent :: "nat \<Rightarrow> rat \<Rightarrow> int" where
  "base_exponent b x =
     (let (p, q) = quotient_of x;
          k = int (floorlog b (nat p)) - int (floorlog b (nat q))
      in if of_nat b powi k \<le> x then k else k - 1)"

lemma base_exponent_bounds:
  assumes b: "1 < b" and x: "0 < x"
  shows "of_nat b powi base_exponent b x \<le> x \<and> x < of_nat b powi (base_exponent b x + 1)"
proof -
  obtain p q where pq: "quotient_of x = (p, q)" by (cases "quotient_of x")
  have q: "0 < q" using pq by (rule quotient_of_denom_pos)
  have xpq: "x = of_int p / of_int q" using pq by (rule quotient_of_div)
  have p: "0 < p" using x q unfolding xpq by (simp add: zero_less_divide_iff)
  let ?P = "floorlog b (nat p)" and ?Q = "floorlog b (nat q)" and ?b = "of_nat b :: rat"
  let ?k = "int ?P - int ?Q"
  have b0: "0 < ?b" "1 < ?b" using b by auto
  have P: "b ^ (?P - 1) \<le> nat p" "nat p < b ^ ?P" and Q: "b ^ (?Q - 1) \<le> nat q" "nat q < b ^ ?Q"
    using floorlog_bounds [of "nat p" b] floorlog_bounds [of "nat q" b] p q b by auto
  have pos: "0 < ?P" "0 < ?Q" using p q b by (auto simp: floorlog_def)
  have rp: "(of_int p :: rat) = of_nat (nat p)" and rq: "(of_int q :: rat) = of_nat (nat q)"
    using p q by simp_all
  have P': "?b ^ (?P - 1) \<le> of_int p" "of_int p < ?b ^ ?P"
    and Q': "?b ^ (?Q - 1) \<le> of_int q" "of_int q < ?b ^ ?Q"
    using P Q unfolding rp rq of_nat_power [symmetric] of_nat_le_iff of_nat_less_iff by simp_all
  have "x < ?b ^ ?P / ?b ^ (?Q - 1)"
    unfolding xpq using P' Q' q p b0 by (intro frac_less) auto
  also have "\<dots> = ?b powi (int ?P - int (?Q - 1))"
    using b0 by (simp add: power_int_diff)
  also have "int ?P - int (?Q - 1) = ?k + 1"
    using pos by simp
  finally have up: "x < ?b powi (?k + 1)" .
  have "int (?P - 1) - int ?Q = ?k - 1"
    using pos by simp
  then have "?b powi (?k - 1) = ?b powi (int (?P - 1) - int ?Q)"
    by (simp only:)
  also have "\<dots> = ?b ^ (?P - 1) / ?b ^ ?Q"
    using b0 by (simp add: power_int_diff)
  also have "\<dots> < x"
    unfolding xpq using P' Q' q p b0 by (intro frac_less2) auto
  finally have lo: "?b powi (?k - 1) < x" .
  show ?thesis
    using up lo by (simp add: base_exponent_def pq Let_def)
qed

lemma powi_less_cancel:
  fixes b :: rat
  assumes "1 < b" and "b powi i < b powi j"
  shows "i < j"
  using assms power_int_increasing [of j i b] by (metis linorder_not_less order.strict_implies_order)

lemma base_exponent_unique:
  assumes b: "1 < b" and "of_nat b powi e \<le> x" and "x < of_nat b powi (e + 1)"
  shows "base_exponent b x = e"
proof -
  let ?b = "of_nat b :: rat"
  have b1: "1 < ?b" using b by simp
  then have "0 < ?b powi e" by (simp add: zero_less_power_int)
  with assms(2) have x: "0 < x" by linarith
  have "?b powi e < ?b powi (base_exponent b x + 1)" "?b powi base_exponent b x < ?b powi (e + 1)"
    using base_exponent_bounds [OF b x] assms(2,3) by linarith+
  then have "e < base_exponent b x + 1" "base_exponent b x < e + 1"
    using powi_less_cancel [OF b1] by blast+
  then show ?thesis by simp
qed

lemma base_exponent_mono:
  assumes b: "1 < b" and "0 < x" and "x \<le> y"
  shows "base_exponent b x \<le> base_exponent b y"
proof -
  let ?b = "of_nat b :: rat"
  have "?b powi base_exponent b x < ?b powi (base_exponent b y + 1)"
    using base_exponent_bounds [OF b, of x] base_exponent_bounds [OF b, of y] assms(2,3) by linarith
  then have "base_exponent b x < base_exponent b y + 1"
    using b by (intro powi_less_cancel [of ?b]) auto
  then show ?thesis by simp
qed

section \<open>Rounding to an integer, ties to even\<close>

definition rne :: "rat \<Rightarrow> int" where
  "rne y =
     (let f = \<lfloor>y\<rfloor>; d = y - of_int f
      in if d < 1 / 2 then f else if 1 / 2 < d then f + 1 else if even f then f else f + 1)"

lemma rne_of_int [simp]: "rne (of_int n) = n"
  by (simp add: rne_def Let_def)

lemma rne_range: "\<lfloor>y\<rfloor> \<le> rne y \<and> rne y \<le> \<lfloor>y\<rfloor> + 1"
  by (simp add: rne_def Let_def)

lemma rne_mono: "y \<le> z \<Longrightarrow> rne y \<le> rne z"
proof -
  assume le: "y \<le> z"
  show ?thesis
  proof (cases "\<lfloor>y\<rfloor> = \<lfloor>z\<rfloor>")
    case True
    with le show ?thesis by (auto simp: rne_def Let_def)
  next
    case False
    with le have "\<lfloor>y\<rfloor> + 1 \<le> \<lfloor>z\<rfloor>" using floor_mono [OF le] by simp
    with rne_range [of y] rne_range [of z] show ?thesis by linarith
  qed
qed

lemma rne_minus: "rne (- y) = - rne y"
proof (cases "y = of_int \<lfloor>y\<rfloor>")
  case True
  then show ?thesis by (metis of_int_minus rne_of_int)
next
  case False
  then have "of_int \<lfloor>y\<rfloor> < y"
    using of_int_floor_le [of y] by linarith
  then have "\<lfloor>- y\<rfloor> = - \<lfloor>y\<rfloor> - 1"
    using floor_correct [of y] by (intro floor_unique) simp_all
  then show ?thesis
    by (auto simp: rne_def Let_def)
qed

section \<open>Rounding to double precision\<close>

definition rnd64 :: "rat \<Rightarrow> double" where
  "rnd64 x =
     (if x = 0 then 0
      else let u = 2 powi (base_exponent 2 \<bar>x\<bar> - 52) in of_int (rne (x / u)) * u)"

definition rep64 :: "rat \<Rightarrow> bool" where
  "rep64 x \<longleftrightarrow> (\<exists>m e. x = of_int m * 2 powi e \<and> \<bar>m\<bar> \<le> 2 ^ 53)"

lemma rnd64_zero [simp]: "rnd64 0 = 0"
  by (simp add: rnd64_def)

lemma rnd64_minus: "rnd64 (- x) = - rnd64 x"
  by (simp add: rnd64_def Let_def rne_minus)

lemma rnd64_exact:
  assumes "x = of_int m * 2 powi e" and "\<bar>m\<bar> < 2 ^ 53"
  shows "rnd64 x = x"
proof (cases "m = 0")
  case True
  with assms show ?thesis by simp
next
  case False
  let ?E = "base_exponent 2 \<bar>x\<bar>" and ?u = "2 powi (base_exponent 2 \<bar>x\<bar> - 52) :: rat"
  have x0: "x \<noteq> 0" using assms False by (simp add: power_int_eq_0_iff)
  have "\<bar>of_int m :: rat\<bar> < 2 ^ 53"
    using assms(2) by (metis of_int_abs of_int_less_iff of_int_numeral of_int_power)
  then have "\<bar>x\<bar> < 2 ^ 53 * 2 powi e"
    using assms(1) by (simp add: abs_mult power_int_abs)
  also have "(2 ^ 53 * 2 powi e :: rat) = 2 powi (53 + e)"
    by (simp add: power_int_add)
  finally have "2 powi ?E < (2 powi (53 + e) :: rat)"
    using base_exponent_bounds [of 2 "\<bar>x\<bar>"] x0 by simp
  then have le: "?E - 52 \<le> e"
    using powi_less_cancel [of 2 ?E "53 + e"] by simp
  have "x / ?u = of_int m * (2 powi e / ?u)"
    by (simp add: assms(1))
  also have "2 powi e / ?u = 2 powi (e - (?E - 52))"
    by (simp add: power_int_diff)
  also have "\<dots> = of_int (2 ^ nat (e - (?E - 52)))"
    using le by (simp add: power_int_def)
  also have "of_int m * \<dots> = of_int (m * 2 ^ nat (e - (?E - 52)))"
    by simp
  finally have "x / ?u = of_int (m * 2 ^ nat (e - (?E - 52)))" .
  then have "of_int (rne (x / ?u)) = x / ?u"
    by (metis rne_of_int)
  then show ?thesis
    using x0 by (simp add: rnd64_def Let_def)
qed

lemma rnd64_rep64:
  assumes "rep64 x"
  shows "rnd64 x = x"
proof -
  obtain m e where x: "x = of_int m * 2 powi e" and m: "\<bar>m\<bar> \<le> 2 ^ 53"
    using assms by (auto simp: rep64_def)
  show ?thesis
  proof (cases "\<bar>m\<bar> = 2 ^ 53")
    case False
    with m x show ?thesis by (intro rnd64_exact) auto
  next
    case True
    then have "x = of_int (sgn m) * 2 powi (53 + e)"
      using x by (auto simp: abs_if power_int_add split: if_splits)
    then show ?thesis
      by (rule rnd64_exact) (simp add: sgn_if)
  qed
qed

lemma rne_scaled:
  assumes "0 < x"
  shows "2 ^ 52 \<le> rne (x / 2 powi (base_exponent 2 x - 52))"
    and "rne (x / 2 powi (base_exponent 2 x - 52)) \<le> 2 ^ 53"
proof -
  let ?E = "base_exponent 2 x" and ?u = "2 powi (base_exponent 2 x - 52) :: rat"
  have u: "0 < ?u" by (simp add: zero_less_power_int)
  have p: "(2 powi ?E :: rat) = of_int (2 ^ 52) * ?u" "(2 powi (?E + 1) :: rat) = of_int (2 ^ 53) * ?u"
    by (simp_all add: power_int_diff power_int_add)
  have "of_int (2 ^ 52) * ?u \<le> x" "x \<le> of_int (2 ^ 53) * ?u"
    using base_exponent_bounds [of 2 x] assms unfolding p [symmetric] by simp_all
  then have "of_int (2 ^ 52) \<le> x / ?u" "x / ?u \<le> of_int (2 ^ 53)"
    using u by (simp_all add: field_simps)
  then show "2 ^ 52 \<le> rne (x / ?u)" and "rne (x / ?u) \<le> 2 ^ 53"
    using rne_mono [of "of_int (2 ^ 52)" "x / ?u"] rne_mono [of "x / ?u" "of_int (2 ^ 53)"]
    unfolding rne_of_int by blast+
qed

lemma rnd64_bracket:
  assumes "0 < x"
  shows "2 powi base_exponent 2 x \<le> rnd64 x \<and> rnd64 x \<le> 2 powi (base_exponent 2 x + 1)"
proof -
  let ?E = "base_exponent 2 x" and ?u = "2 powi (base_exponent 2 x - 52) :: rat"
  have u: "0 < ?u" by (simp add: zero_less_power_int)
  have p: "(2 powi ?E :: rat) = of_int (2 ^ 52) * ?u" "(2 powi (?E + 1) :: rat) = of_int (2 ^ 53) * ?u"
    by (simp_all add: power_int_diff power_int_add)
  have "of_int (2 ^ 52) \<le> (of_int (rne (x / ?u)) :: rat)" "(of_int (rne (x / ?u)) :: rat) \<le> of_int (2 ^ 53)"
    using rne_scaled [OF assms] by (simp_all only: of_int_le_iff)
  then show ?thesis
    unfolding p using u assms by (simp add: rnd64_def Let_def)
qed

lemma rep64_rnd64: "rep64 (rnd64 x)"
proof -
  have pos: "rep64 (rnd64 y)" if "0 < y" for y
    unfolding rep64_def
    by (rule exI [of _ "rne (y / 2 powi (base_exponent 2 y - 52))"],
        rule exI [of _ "base_exponent 2 y - 52"])
      (use that rne_scaled [OF that] in \<open>simp add: rnd64_def Let_def\<close>)
  have minus: "rep64 (- y)" if "rep64 y" for y
    using that unfolding rep64_def by (metis abs_minus_cancel mult_minus_left of_int_minus)
  have "rep64 0"
    unfolding rep64_def by (intro exI [of _ 0]) simp
  with pos [of x] minus [OF pos [of "- x"]] show ?thesis
    by (cases "0 < x"; cases "x = 0") (simp_all add: rnd64_minus)
qed

lemma rnd64_mono_pos:
  assumes "0 < x" and "x \<le> y"
  shows "rnd64 x \<le> rnd64 y"
proof (cases "base_exponent 2 x = base_exponent 2 y")
  case True
  let ?u = "2 powi (base_exponent 2 x - 52) :: rat"
  have u: "0 < ?u" by (simp add: zero_less_power_int)
  have "rne (x / ?u) \<le> rne (y / ?u)"
    using assms u by (intro rne_mono) (simp add: divide_right_mono)
  then have "of_int (rne (x / ?u)) * ?u \<le> of_int (rne (y / ?u)) * ?u"
    using u by (intro mult_right_mono) simp_all
  with assms True show ?thesis by (simp add: rnd64_def Let_def)
next
  case False
  with base_exponent_mono [of 2 x y] assms have "base_exponent 2 x + 1 \<le> base_exponent 2 y" by simp
  then have "(2 powi (base_exponent 2 x + 1) :: rat) \<le> 2 powi base_exponent 2 y"
    by (intro power_int_increasing) simp_all
  with rnd64_bracket [of x] rnd64_bracket [of y] assms show ?thesis by linarith
qed

lemma rnd64_pos: "0 < x \<Longrightarrow> 0 < rnd64 x"
  using rnd64_bracket [of x] zero_less_power_int [of "2 :: rat" "base_exponent 2 x"] by linarith

lemma rnd64_mono:
  assumes "x \<le> y"
  shows "rnd64 x \<le> rnd64 y"
proof -
  consider "0 < x" | "x \<le> 0" "0 \<le> y" | "y < 0" by linarith
  then show ?thesis
  proof cases
    case 1
    with assms show ?thesis by (intro rnd64_mono_pos)
  next
    case 2
    have "0 \<le> rnd64 z" if "0 \<le> z" for z
      using that rnd64_pos [of z] by (cases "z = 0") auto
    from this [of "- x"] this [of y] 2 show ?thesis by (simp add: rnd64_minus)
  next
    case 3
    with assms rnd64_mono_pos [of "- y" "- x"] show ?thesis by (simp add: rnd64_minus)
  qed
qed

section \<open>What the clients of rounding use\<close>

locale rounding =
  fixes rnd :: "rat \<Rightarrow> rat"
    and rep :: "rat \<Rightarrow> bool"
  assumes rnd_mono: "x \<le> y \<Longrightarrow> rnd x \<le> rnd y"
    and rnd_rep: "rep x \<Longrightarrow> rnd x = x"
    and rep_rnd: "rep (rnd x)"
    and rep_int: "\<bar>n\<bar> \<le> 2 ^ 53 \<Longrightarrow> rep (of_int n)"
begin

lemma rnd_ge: "rep a \<Longrightarrow> a \<le> x \<Longrightarrow> a \<le> rnd x"
  using rnd_mono [of a x] by (simp add: rnd_rep)

lemma rnd_le: "rep a \<Longrightarrow> x \<le> a \<Longrightarrow> rnd x \<le> a"
  using rnd_mono [of x a] by (simp add: rnd_rep)

lemma rnd_nat: "n \<le> 2 ^ 53 \<Longrightarrow> rnd (of_nat n) = of_nat n"
  using rnd_rep [OF rep_int [of "int n"]] by simp

lemma rep_nat: "n \<le> 2 ^ 53 \<Longrightarrow> rep (of_nat n)"
  using rep_int [of "int n"] by simp

lemma rnd_nonneg: "0 \<le> x \<Longrightarrow> 0 \<le> rnd x"
  using rnd_ge [of 0 x] rep_int [of 0] by simp

text \<open>A rank \<open>p * n\<close> with \<open>p \<le> 1\<close>, rounded and truncated, stays an index below \<open>n\<close>.\<close>

lemma rank_le:
  assumes "p \<le> 1" and "n \<le> 2 ^ 53"
  shows "nat \<lfloor>rnd (p * of_nat n)\<rfloor> \<le> n"
proof -
  have "p * of_nat n \<le> 1 * of_nat n"
    using assms(1) by (intro mult_right_mono) simp_all
  then have "rnd (p * of_nat n) \<le> of_nat n"
    using assms(2) by (intro rnd_le rep_nat) simp_all
  then have "\<lfloor>rnd (p * of_nat n)\<rfloor> \<le> int n"
    by (metis floor_mono floor_of_nat)
  then show ?thesis by simp
qed

lemma rank_mono:
  assumes "p \<le> q"
  shows "nat \<lfloor>rnd (p * of_nat n)\<rfloor> \<le> nat \<lfloor>rnd (q * of_nat n)\<rfloor>"
  using assms by (intro nat_mono floor_mono rnd_mono mult_right_mono) simp_all

text \<open>Adding something non-negative to a double never takes it down.\<close>

lemma rnd_add_ge: "rep a \<Longrightarrow> 0 \<le> b \<Longrightarrow> a \<le> rnd (a + b)"
  by (rule rnd_ge) simp_all

lemma rnd_diff_le: "rep a \<Longrightarrow> 0 \<le> b \<Longrightarrow> rnd (a - b) \<le> a"
  by (rule rnd_le) simp_all

end

interpretation dbl: rounding rnd64 rep64
proof
  show "rep64 (of_int n)" if "\<bar>n\<bar> \<le> 2 ^ 53" for n
    using that unfolding rep64_def by (intro exI [of _ n] exI [of _ 0]) simp
qed (simp_all add: rnd64_mono rnd64_rep64 rep64_rnd64)

section \<open>Default stream output\<close>

definition strip_zeros :: "string \<Rightarrow> string" where
  "strip_zeros s = rev (dropWhile (\<lambda>c. c = CHR ''0'') (rev s))"

text \<open>\<open>%g\<close> with precision 6: six significant digits, trailing zeros removed, exponent form outside
  \<open>10^-4 \<le> x < 10^6\<close>.\<close>

definition with_point :: "string \<Rightarrow> string \<Rightarrow> string" where
  "with_point i f = i @ (if f = [] then [] else CHR ''.'' # f)"

text \<open>The digits \<open>ds\<close> of a value with decimal exponent \<open>X\<close>.\<close>

definition g6_body :: "int \<Rightarrow> string \<Rightarrow> string" where
  "g6_body X ds =
     (if X < - 4 \<or> 6 \<le> X then
        with_point (take 1 ds) (strip_zeros (drop 1 ds)) @
        (if X < 0 then ''e-'' else ''e+'') @
        (if \<bar>X\<bar> < 10 then ''0'' else []) @ nat_str (nat \<bar>X\<bar>)
      else if 0 \<le> X then
        with_point (take (nat X + 1) ds) (strip_zeros (drop (nat X + 1) ds))
      else with_point ''0'' (replicate (nat (- X) - 1) CHR ''0'' @ strip_zeros ds))"

definition fmt_g6 :: "double \<Rightarrow> string" where
  "fmt_g6 x =
     (if x = 0 then ''0''
      else
        let X0 = base_exponent 10 \<bar>x\<bar>;
            m0 = rne (\<bar>x\<bar> / 10 powi (X0 - 5));
            m = (if m0 = 10 ^ 6 then 10 ^ 5 else m0);
            X = (if m0 = 10 ^ 6 then X0 + 1 else X0)
        in (if x < 0 then ''-'' else []) @ g6_body X (nat_str (nat m)))"

lemma set_strip_zeros: "set (strip_zeros s) \<subseteq> set s"
  using set_dropWhileD by (fastforce simp: strip_zeros_def)

lemma set_with_point: "set (with_point i f) \<subseteq> set i \<union> set f \<union> {CHR ''.''}"
  by (auto simp: with_point_def)

text \<open>In the range of prices the output has only digits and at most a point.\<close>

lemma fmt_g6_plain:
  assumes "1 \<le> x" and "x < 10 ^ 5"
  shows "\<exists>k n. n < 10 ^ 6 \<and> fmt_g6 x = with_point (take k (nat_str n)) (strip_zeros (drop k (nat_str n)))"
proof -
  let ?X0 = "base_exponent 10 x"
  let ?y = "x / 10 powi (?X0 - 5)"
  have e0: "base_exponent 10 1 = 0"
    by (rule base_exponent_unique) simp_all
  have "0 \<le> ?X0"
    using base_exponent_mono [of 10 1 x] assms e0 by simp
  moreover have bnd: "(10 :: rat) powi ?X0 \<le> x" "x < 10 powi (?X0 + 1)"
    using base_exponent_bounds [of 10 x] assms by simp_all
  then have "(10 :: rat) powi ?X0 < 10 powi 5"
    using assms by simp
  then have "?X0 < 5" by (intro powi_less_cancel [of 10]) simp_all
  ultimately have X: "0 \<le> X \<and> X < 6" if "X = ?X0 \<or> X = ?X0 + 1" for X
    using that by auto
  have "(10 :: rat) powi (?X0 + 1) = 10 powi (?X0 - 5) * 10 ^ 6"
    using power_int_add [of "10 :: rat" "?X0 - 5" 6] by (simp add: add.commute)
  with bnd have "?y \<le> of_int (10 ^ 6)"
    by (simp add: divide_le_eq mult.commute)
  from rne_mono [OF this] have m0: "rne ?y \<le> 10 ^ 6"
    unfolding rne_of_int .
  define m where "m = (if rne ?y = 10 ^ 6 then 10 ^ 5 else rne ?y)"
  have "m < 10 ^ 6" using m0 by (simp add: m_def)
  then have n: "nat m < 10 ^ 6" by simp
  have "\<exists>k. fmt_g6 x = with_point (take k (nat_str (nat m))) (strip_zeros (drop k (nat_str (nat m))))"
    using assms X [of ?X0] X [of "?X0 + 1"] by (auto simp: fmt_g6_def g6_body_def Let_def m_def)
  with n show ?thesis by blast
qed

lemma fmt_g6_chars:
  assumes "1 \<le> x" and "x < 10 ^ 5"
  shows "\<forall>c \<in> set (fmt_g6 x). is_digit c \<or> c = CHR ''.''"
proof -
  obtain k n where kn: "fmt_g6 x = with_point (take k (nat_str n)) (strip_zeros (drop k (nat_str n)))"
    using fmt_g6_plain [OF assms] by blast
  show ?thesis
    unfolding kn using set_with_point set_strip_zeros nat_str_digits [of n]
    by (fastforce dest: in_set_takeD in_set_dropD)
qed

lemma length_strip_zeros: "length (strip_zeros s) \<le> length s"
  using length_dropWhile_le [of _ "rev s"] by (simp add: strip_zeros_def)

lemma length_fmt_g6:
  assumes "1 \<le> x" and "x < 10 ^ 5"
  shows "length (fmt_g6 x) \<le> 7"
proof -
  obtain k n where n: "n < 10 ^ 6"
    and kn: "fmt_g6 x = with_point (take k (nat_str n)) (strip_zeros (drop k (nat_str n)))"
    using fmt_g6_plain [OF assms] by blast
  have "length (with_point (take k s) (strip_zeros (drop k s))) \<le> Suc (length s)" for s
    using length_strip_zeros [of "drop k s"] by (auto simp: with_point_def)
  from order_trans [OF this] length_nat_str [OF n] show ?thesis
    unfolding kn by simp
qed

text \<open>In general the output has digits, signs, a point and the exponent letter only.\<close>

definition float_char :: "char \<Rightarrow> bool" where
  "float_char c \<longleftrightarrow> is_digit c \<or> c \<in> set ''.-+e''"

lemma digits_float: "s = nat_str n \<Longrightarrow> \<forall>c \<in> set s. float_char c"
  using nat_str_digits [of n] by (auto simp: float_char_def)

lemma fmt_g6_text: "\<forall>c \<in> set (fmt_g6 x). float_char c"
proof -
  have zero: "float_char CHR ''0''" and pt: "float_char CHR ''.''"
    using is_digit_digit_char [of 0] by (simp_all add: float_char_def)
  have wp: "\<forall>c \<in> set (with_point i f). float_char c"
    if "\<forall>c \<in> set i. float_char c" "\<forall>c \<in> set f. float_char c" for i f
    using that pt set_with_point [of i f] by auto
  have sz: "\<forall>c \<in> set (strip_zeros s). float_char c" if "\<forall>c \<in> set s. float_char c" for s
    using that set_strip_zeros [of s] by auto
  have tk: "\<forall>c \<in> set (take k (nat_str n)). float_char c" "\<forall>c \<in> set (drop k (nat_str n)). float_char c"
    "\<forall>c \<in> set (nat_str n). float_char c" for k n
    using digits_float [OF refl, of n] by (auto dest: in_set_takeD in_set_dropD)
  have body: "\<forall>c \<in> set (g6_body X (nat_str n)). float_char c" for X n
  proof -
    have "\<forall>c \<in> set (with_point (take k (nat_str n)) (strip_zeros (drop k (nat_str n)))). float_char c" for k
      using tk by (intro wp sz) simp_all
    moreover have "\<forall>c \<in> set (with_point ''0'' (replicate k CHR ''0'' @ strip_zeros (nat_str n))). float_char c"
      for k
      using tk(3) [of n] sz [of "nat_str n"] zero by (intro wp) auto
    moreover have "\<forall>c \<in> set ''e-''. float_char c" "\<forall>c \<in> set ''e+''. float_char c"
      by (simp_all add: float_char_def)
    ultimately show ?thesis
      using tk(3) [of "nat \<bar>X\<bar>"] zero unfolding g6_body_def by auto
  qed
  have minus: "float_char CHR ''-''" by (simp add: float_char_def)
  show ?thesis
  proof (cases "x = 0")
    case True
    with zero show ?thesis by (simp add: fmt_g6_def)
  next
    case False
    then obtain X n where "fmt_g6 x = (if x < 0 then ''-'' else []) @ g6_body X (nat_str n)"
      unfolding fmt_g6_def Let_def by auto
    with body [of X n] minus show ?thesis by auto
  qed
qed

end
