(* ===== verification/Calendar.thy ===== *)
theory Calendar
  imports Prelude
begin

text \<open>
  The part of the C library's calendar that \<open>format_date\<close> of
  \<^verbatim>\<open>server/src/services/price_history_service.cpp\<close> uses: \<open>gmtime\<close> from seconds since 1970 to a
  Gregorian date, and the \<open>%Y-%m-%d\<close> form of \<open>strftime\<close>. The calendar repeats every 400 years
  (146097 days), which makes the year loop short for every time.
\<close>

section \<open>Days to dates\<close>

definition is_leap :: "int \<Rightarrow> bool" where
  "is_leap y \<longleftrightarrow> y mod 4 = 0 \<and> y mod 100 \<noteq> 0 \<or> y mod 400 = 0"

definition year_days :: "int \<Rightarrow> int" where
  "year_days y = (if is_leap y then 366 else 365)"

definition month_lengths :: "bool \<Rightarrow> int list" where
  "month_lengths leap = [31, if leap then 29 else 28, 31, 30, 31, 30, 31, 31, 30, 31, 30, 31]"

function year_split :: "int \<Rightarrow> int \<Rightarrow> int \<times> int" where
  "year_split y d = (if d < year_days y then (y, d) else year_split (y + 1) (d - year_days y))"
  by pat_completeness auto
termination
  by (relation "measure (\<lambda>(y, d). nat d)") (auto simp: year_days_def split: if_splits)

declare year_split.simps [simp del]

fun month_split :: "int list \<Rightarrow> int \<Rightarrow> nat \<times> int" where
  "month_split [] r = (0, r)"
| "month_split (l # ls) r =
     (if r < l then (0, r) else (case month_split ls (r - l) of (k, d) \<Rightarrow> (Suc k, d)))"

text \<open>Year, month (1 to 12) and day of the month of the day with this number (1970-01-01 is 0).\<close>

definition civil :: "int \<Rightarrow> int \<times> int \<times> int" where
  "civil n =
     (let (y, r) = year_split 1970 (n mod 146097);
          (k, d) = month_split (month_lengths (is_leap y)) r
      in (y + 400 * (n div 146097), int k + 1, d + 1))"

definition gmtime :: "int \<Rightarrow> int \<times> int \<times> int" where
  "gmtime t = civil (t div 86400)"

definition two_digits :: "int \<Rightarrow> string" where
  "two_digits n = (if n < 10 then CHR ''0'' # int_str n else int_str n)"

definition format_date :: "int \<Rightarrow> string" where
  "format_date t =
     (let (y, m, d) = gmtime t in int_str y @ ''-'' @ two_digits m @ ''-'' @ two_digits d)"

section \<open>The dates run through the calendar\<close>

text \<open>The day after a date, as the calendar says.\<close>

definition next_date :: "int \<times> int \<times> int \<Rightarrow> int \<times> int \<times> int" where
  "next_date = (\<lambda>(y, m, d).
     if d < month_lengths (is_leap y) ! nat (m - 1) then (y, m, d + 1)
     else if m < 12 then (y, m + 1, 1) else (y + 1, 1, 1))"

lemma year_days_pos: "0 < year_days y"
  by (simp add: year_days_def)

lemma year_split_range:
  "0 \<le> d \<Longrightarrow> 0 \<le> snd (year_split y d) \<and> snd (year_split y d) < year_days (fst (year_split y d))"
proof (induction y d rule: year_split.induct)
  case (1 y d)
  then show ?case
    by (cases "d < year_days y") (simp_all add: year_split.simps [of y d])
qed

lemma year_split_Suc:
  "0 \<le> d \<Longrightarrow> year_split y (d + 1) =
     (let (y', r) = year_split y d in if r + 1 < year_days y' then (y', r + 1) else (y' + 1, 0))"
proof (induction y d rule: year_split.induct)
  case (1 y d)
  show ?case
  proof (cases "d < year_days y")
    case True
    show ?thesis
    proof (cases "d + 1 < year_days y")
      case False
      with True have "d + 1 = year_days y" by simp
      then show ?thesis
        using True year_days_pos [of "y + 1"]
        by (simp add: year_split.simps [of y d] year_split.simps [of y "year_days y"]
            year_split.simps [of "y + 1" 0] Let_def)
    qed (use True in \<open>simp add: year_split.simps [of y d] year_split.simps [of y "d + 1"] Let_def\<close>)
  next
    case False
    with 1 have "year_split (y + 1) (d - year_days y + 1) =
        (let (y', r) = year_split (y + 1) (d - year_days y)
         in if r + 1 < year_days y' then (y', r + 1) else (y' + 1, 0))"
      by simp
    moreover have "year_split y (d + 1) = year_split (y + 1) (d - year_days y + 1)"
      by (subst year_split.simps) (use False in \<open>simp add: algebra_simps\<close>)
    moreover have "year_split y d = year_split (y + 1) (d - year_days y)"
      by (subst year_split.simps) (use False in simp)
    ultimately show ?thesis by (simp only:)
  qed
qed

lemma month_split_range:
  assumes "0 \<le> r" and "r < sum_list ls" and "\<forall>l \<in> set ls. 0 < l"
  shows "fst (month_split ls r) < length ls
     \<and> 0 \<le> snd (month_split ls r) \<and> snd (month_split ls r) < ls ! fst (month_split ls r)"
  using assms by (induction ls r rule: month_split.induct) (auto split: prod.splits)

lemma month_split_Suc:
  assumes "0 \<le> r" and "r < sum_list ls" and "\<forall>l \<in> set ls. 0 < l"
  shows "month_split ls (r + 1) =
     (let (k, d) = month_split ls r
      in if d + 1 < ls ! k then (k, d + 1) else (Suc k, if Suc k < length ls then 0 else d + 1 - ls ! k))"
  using assms
proof (induction ls r rule: month_split.induct)
  case (1 r)
  then show ?case by simp
next
  case (2 l ls r)
  show ?case
  proof (cases "r < l")
    case True
    then show ?thesis
      using "2.prems" by (cases ls) (auto simp: Let_def)
  next
    case False
    with 2 have "month_split ls (r - l + 1) =
        (let (k, d) = month_split ls (r - l)
         in if d + 1 < ls ! k then (k, d + 1) else (Suc k, if Suc k < length ls then 0 else d + 1 - ls ! k))"
      by simp
    moreover have "r + 1 - l = r - l + 1" by simp
    then have "month_split (l # ls) (r + 1) =
        (case month_split ls (r - l + 1) of (k, d) \<Rightarrow> (Suc k, d))"
      unfolding month_split.simps using False by (simp only:) simp
    ultimately show ?thesis
      using False by (auto simp: Let_def split: prod.splits)
  qed
qed

lemma month_lengths_sum: "sum_list (month_lengths leap) = (if leap then 366 else 365)"
  by (simp add: month_lengths_def)

lemma month_lengths_pos: "\<forall>l \<in> set (month_lengths leap). 0 < l"
  by (simp add: month_lengths_def)

lemma is_leap_cycle: "is_leap (y + 400 * c) = is_leap y"
proof -
  have "(y + 400 * c) mod 4 = y mod 4"
    using mod_mult_self2 [of y 4 "100 * c"] by simp
  moreover have "(y + 400 * c) mod 100 = y mod 100"
    using mod_mult_self2 [of y 100 "4 * c"] by simp
  ultimately show ?thesis by (simp add: is_leap_def)
qed

lemma year_split_last: "year_split 1970 146096 = (2369, 364)"
  by code_simp

lemma civil_parts:
  assumes "year_split 1970 (n mod 146097) = (y, r)" and "month_split (month_lengths (is_leap y)) r = (k, d)"
  shows "civil n = (y + 400 * (n div 146097), int k + 1, d + 1)"
    and "0 \<le> r" and "r < year_days y" and "k < 12" and "0 \<le> d" and "d < month_lengths (is_leap y) ! k"
proof -
  show "civil n = (y + 400 * (n div 146097), int k + 1, d + 1)"
    using assms by (simp add: civil_def)
  show r: "0 \<le> r" "r < year_days y"
    using year_split_range [of "n mod 146097" 1970] assms(1) by simp_all
  then have "r < sum_list (month_lengths (is_leap y))"
    by (simp add: month_lengths_sum year_days_def)
  from month_split_range [OF r(1) this month_lengths_pos] assms(2)
  show "k < 12" and "0 \<le> d" and "d < month_lengths (is_leap y) ! k"
    by (simp_all add: month_lengths_def)
qed

lemma divmod_next:
  fixes n m :: int
  assumes "0 < m" and "n mod m + 1 < m"
  shows "(n + 1) mod m = n mod m + 1" and "(n + 1) div m = n div m"
proof -
  have e: "n + 1 = m * (n div m) + (n mod m + 1)" by simp
  have "0 \<le> n mod m + 1" using pos_mod_sign [OF assms(1), of n] by simp
  with e assms(2) show "(n + 1) mod m = n mod m + 1" and "(n + 1) div m = n div m"
    by (blast intro: int_mod_pos_eq int_div_pos_eq)+
qed

lemma divmod_wrap:
  fixes n m :: int
  assumes "0 < m" and "n mod m + 1 = m"
  shows "(n + 1) mod m = 0" and "(n + 1) div m = n div m + 1"
proof -
  have "m * (n div m + 1) + 0 = m * (n div m) + (n mod m + 1)"
    using assms(2) by (simp add: algebra_simps)
  then have e: "n + 1 = m * (n div m + 1) + 0" by simp
  show "(n + 1) mod m = 0" and "(n + 1) div m = n div m + 1"
    using int_mod_pos_eq [OF e] int_div_pos_eq [OF e] assms(1) by simp_all
qed

lemma civil_Suc: "civil (n + 1) = next_date (civil n)"
proof -
  obtain y r where yr: "year_split 1970 (n mod 146097) = (y, r)" by fastforce
  obtain k d where kd: "month_split (month_lengths (is_leap y)) r = (k, d)" by fastforce
  note c = civil_parts [OF yr kd]
  have len: "length (month_lengths b) = 12" for b by (simp add: month_lengths_def)
  have rs: "r < sum_list (month_lengths (is_leap y))"
    using c(3) by (simp add: month_lengths_sum year_days_def)
  note ms = month_split_Suc [OF c(2) rs month_lengths_pos, unfolded kd Let_def prod.case len]
  define q where "q = n div 146097"
  have civ: "civil n = (y + 400 * q, int k + 1, d + 1)" using c(1) by (simp add: q_def)
  have nxt: "next_date (civil n) =
      (if d + 1 < month_lengths (is_leap y) ! k then (y + 400 * q, int k + 1, d + 2)
       else if k < 11 then (y + 400 * q, int k + 2, 1) else (y + 400 * q + 1, 1, 1))"
    by (auto simp: civ next_date_def is_leap_cycle)
  show ?thesis
  proof (cases "r + 1 < year_days y")
    case True
    have "n mod 146097 \<noteq> 146096"
    proof
      assume "n mod 146097 = 146096"
      with yr year_split_last have "y = 2369" "r = 364" by simp_all
      with True show False by (simp add: year_days_def is_leap_def)
    qed
    then have n1: "(n + 1) mod 146097 = n mod 146097 + 1" "(n + 1) div 146097 = q"
      using divmod_next [of 146097 n] pos_mod_bound [of 146097 n] by (simp_all add: q_def)
    have ys: "year_split 1970 ((n + 1) mod 146097) = (y, r + 1)"
      using year_split_Suc [of "n mod 146097" 1970] yr True by (simp add: n1 Let_def)
    obtain k' d' where kd': "month_split (month_lengths (is_leap y)) (r + 1) = (k', d')" by fastforce
    have "civil (n + 1) = (y + 400 * q, int k' + 1, d' + 1)" "k' < 12"
      using civil_parts [OF ys kd'] by (simp_all add: n1)
    with nxt kd' ms show ?thesis
      using c(4) by (auto split: if_splits)
  next
    case False
    with c have r: "r + 1 = year_days y" by simp
    have last: "\<not> d + 1 < month_lengths (is_leap y) ! k \<and> k = 11"
    proof -
      have "sum_list (month_lengths (is_leap y)) = r + 1"
        using r by (simp add: month_lengths_sum year_days_def)
      then have "month_split (month_lengths (is_leap y)) r = (11, 30)"
        by (cases "is_leap y") (simp_all add: month_lengths_def)
      with kd show ?thesis by (simp add: month_lengths_def)
    qed
    have nl: "next_date (civil n) = (y + 400 * q + 1, 1, 1)"
      unfolding nxt if_not_P [OF conjunct1 [OF last]] using conjunct2 [OF last] by simp
    have ml0: "month_split (month_lengths b) 0 = (0, 0)" for b by (simp add: month_lengths_def)
    show ?thesis
    proof (cases "n mod 146097 = 146096")
      case True
      then have "(n + 1) mod 146097 = 0" "(n + 1) div 146097 = q + 1"
        using divmod_wrap [of 146097 n] by (simp_all add: q_def)
      moreover have "year_split 1970 0 = (1970, 0)" by code_simp
      moreover have "y = 2369" using yr year_split_last True by simp
      ultimately show ?thesis unfolding nl by (simp add: civil_def ml0)
    next
      case False
      then have n1: "(n + 1) mod 146097 = n mod 146097 + 1" "(n + 1) div 146097 = q"
        using divmod_next [of 146097 n] pos_mod_bound [of 146097 n] by (simp_all add: q_def)
      have "year_split 1970 ((n + 1) mod 146097) = (y + 1, 0)"
        using year_split_Suc [of "n mod 146097" 1970] yr r by (simp add: n1 Let_def)
      then show ?thesis unfolding nl by (simp add: civil_def ml0 n1)
    qed
  qed
qed

lemma civil_epoch: "civil 0 = (1970, 1, 1)"
  by code_simp

text \<open>Dates are valid: a month from 1 to 12 and a day that the month has.\<close>

lemma civil_valid:
  "case civil n of (y, m, d) \<Rightarrow> 1 \<le> m \<and> m \<le> 12 \<and> 1 \<le> d \<and> d \<le> month_lengths (is_leap y) ! nat (m - 1)"
proof -
  obtain y r where yr: "year_split 1970 (n mod 146097) = (y, r)" by fastforce
  obtain k d where kd: "month_split (month_lengths (is_leap y)) r = (k, d)" by fastforce
  from civil_parts [OF yr kd] show ?thesis by (simp add: is_leap_cycle)
qed

section \<open>The text of a date has only digits and hyphens\<close>

lemma int_str_chars: "c \<in> set (int_str i) \<Longrightarrow> is_digit c \<or> c = CHR ''-''"
  using nat_str_digits by (auto simp: int_str_def split: if_splits)

lemma two_digits_chars: "c \<in> set (two_digits n) \<Longrightarrow> is_digit c \<or> c = CHR ''-''"
  using int_str_chars [of c n] digit_chars(1) is_digit_digit_char [of 0]
  by (auto simp: two_digits_def split: if_splits)

lemma format_date_chars:
  assumes "c \<in> set (format_date t)"
  shows "is_digit c \<or> c = CHR ''-''"
proof -
  obtain y m d where "gmtime t = (y, m, d)" by (cases "gmtime t")
  with assms have "c \<in> set (int_str y) \<or> c = CHR ''-'' \<or> c \<in> set (two_digits m) \<or> c \<in> set (two_digits d)"
    by (auto simp: format_date_def)
  then show ?thesis
    using int_str_chars two_digits_chars by blast
qed

text \<open>The length of a date, for times from 1970 on up to far beyond the year 9999.\<close>

lemma year_split_year: "0 \<le> d \<Longrightarrow> y \<le> fst (year_split y d) \<and> fst (year_split y d) \<le> y + d"
proof (induction y d rule: year_split.induct)
  case (1 y d)
  then show ?case
    using year_days_pos [of y] by (cases "d < year_days y") (force simp: year_split.simps [of y d])+
qed

lemma civil_year:
  assumes "0 \<le> n"
  shows "0 \<le> fst (civil n) \<and> fst (civil n) \<le> 148067 + 400 * n"
proof -
  obtain y r where yr: "year_split 1970 (n mod 146097) = (y, r)" by fastforce
  obtain k d where kd: "month_split (month_lengths (is_leap y)) r = (k, d)" by fastforce
  have "n div 146097 \<le> n" "0 \<le> n div 146097"
    using assms zdiv_mono2 [of n 1 146097] by (simp_all add: pos_imp_zdiv_nonneg_iff)
  moreover have "1970 \<le> y \<and> y \<le> 1970 + n mod 146097"
    using year_split_year [of "n mod 146097" 1970] yr by simp
  moreover have "n mod 146097 < 146097" by simp
  ultimately have "0 \<le> y + 400 * (n div 146097) \<and> y + 400 * (n div 146097) \<le> 148067 + 400 * n"
    by linarith
  then show ?thesis
    using civil_parts(1) [OF yr kd] by simp
qed

lemma length_int_str: "0 \<le> i \<Longrightarrow> i < 10 ^ k \<Longrightarrow> 0 < k \<Longrightarrow> length (int_str i) \<le> k"
  by (simp add: int_str_def length_nat_str nat_less_iff)

lemma length_format_date:
  assumes "0 \<le> t" and "t < 10 ^ 15"
  shows "length (format_date t) \<le> 20"
proof -
  obtain y m d where g: "gmtime t = (y, m, d)" by (cases "gmtime t")
  have "0 \<le> y \<and> y \<le> 148067 + 400 * (t div 86400)"
    using civil_year [of "t div 86400"] assms g by (simp add: gmtime_def pos_imp_zdiv_nonneg_iff)
  moreover have "t div 86400 < 10 ^ 11"
    using assms zdiv_mono1 [of t "10 ^ 15" 86400] by simp
  ultimately have y: "length (int_str y) \<le> 14"
    by (intro length_int_str) simp_all
  from civil_valid [of "t div 86400"] g
  have md: "1 \<le> m" "m \<le> 12" "1 \<le> d" and d: "d \<le> month_lengths (is_leap y) ! nat (m - 1)"
    by (simp_all add: gmtime_def)
  have "month_lengths (is_leap y) ! nat (m - 1) \<in> set (month_lengths (is_leap y))"
    using md by (intro nth_mem) (simp add: month_lengths_def)
  then have "month_lengths (is_leap y) ! nat (m - 1) \<le> 31"
    by (auto simp: month_lengths_def split: if_splits)
  with d have "d \<le> 31" by simp
  have two: "length (two_digits n) \<le> 2" if "0 \<le> n" "n < 100" for n
    using that length_int_str [of n 1] length_int_str [of n 2] by (auto simp: two_digits_def)
  show ?thesis
    using y two [of m] two [of d] md \<open>d \<le> 31\<close> by (simp add: format_date_def g)
qed

section \<open>Properties\<close>

text \<open>The date printed for a time is the Gregorian calendar's: day 0 is 1970-01-01, and every day,
  before or after it, is followed by its calendar successor, with month lengths and leap years.\<close>

theorem calendar_days:
  "civil 0 = (1970, 1, 1) \<and> civil (n + 1) = next_date (civil n)
   \<and> list_all (\<lambda>c. is_digit c \<or> c = CHR ''-'') (format_date t)"
  using civil_epoch civil_Suc format_date_chars by (simp add: list_all_iff)

end
