(* ===== verification/Price_History_Service.thy ===== *)
theory Price_History_Service
  imports Json_Fields Binary64 Calendar
begin

text \<open>
  \<^verbatim>\<open>server/src/services/price_history_service.cpp\<close>: the synthetic price walk. Arithmetic is
  double precision (\<open>rnd64\<close> after every operation, literals rounded); \<open>std::sin\<close> and \<open>std::cos\<close>,
  whose accuracy the language leaves to the library, are the parameters \<open>sin_d\<close> and \<open>cos_d\<close>, and
  so are the time of day and the signedness of \<open>char\<close>. A request whose \<open>days\<close> overflows an \<open>int\<close>
  has no defined result (\<open>None\<close>).
\<close>

record libm =
  sin_d :: "double \<Rightarrow> double"
  cos_d :: "double \<Rightarrow> double"

section \<open>One candle\<close>

definition int_of_char :: "bool \<Rightarrow> char \<Rightarrow> int" where
  "int_of_char char_signed c =
     (let n = int (of_char c) in if char_signed \<and> 128 \<le> n then n - 256 else n)"

fun base_price :: "bool \<Rightarrow> double \<Rightarrow> string \<Rightarrow> double" where
  "base_price sg acc [] = acc"
| "base_price sg acc (c # cs) =
     base_price sg (rnd64 (acc + rnd64 (of_int (int_of_char sg c) * rnd64 (1 / 100)))) cs"

record candle =
  c_open :: double
  c_high :: double
  c_low :: double
  c_close :: double
  c_volume :: int

definition candle_at :: "libm \<Rightarrow> double \<Rightarrow> int \<Rightarrow> candle" where
  "candle_at L base i =
     (let di = of_int i;
          delta = rnd64 (sin_d L (rnd64 (di * rnd64 (42 / 100))) * 2);
          op = rnd64 (base + delta);
          cl = rnd64 (op + rnd64 (cos_d L (rnd64 (di * rnd64 (31 / 100))) * (3 / 2)));
          hi = rnd64 (max op cl + rnd64 (\<bar>sin_d L (rnd64 (di * rnd64 (7 / 10)))\<bar> * rnd64 (8 / 10)));
          lo = rnd64 (min op cl - rnd64 (\<bar>cos_d L (rnd64 (di * rnd64 (7 / 10)))\<bar> * rnd64 (8 / 10)));
          vol = 20000000 + \<lfloor>\<bar>rnd64 (sin_d L di * 15000000)\<bar>\<rfloor>
      in \<lparr>c_open = op, c_high = hi, c_low = lo, c_close = cl, c_volume = vol\<rparr>)"

text \<open>High and low enclose open and close, whatever the library's sine and cosine return.\<close>

lemma candle_ohlc:
  "c_low (candle_at L b i) \<le> min (c_open (candle_at L b i)) (c_close (candle_at L b i))
   \<and> max (c_open (candle_at L b i)) (c_close (candle_at L b i)) \<le> c_high (candle_at L b i)"
proof -
  have rep: "rep64 (max (rnd64 x) (rnd64 y))" "rep64 (min (rnd64 x) (rnd64 y))" for x y
    by (simp_all add: max_def min_def dbl.rep_rnd)
  have pos: "0 \<le> rnd64 (\<bar>v\<bar> * rnd64 (8 / 10))" for v
    by (intro dbl.rnd_nonneg mult_nonneg_nonneg) simp_all
  show ?thesis
    by (simp add: candle_at_def Let_def dbl.rnd_add_ge [OF rep(1) pos, simplified]
        dbl.rnd_diff_le [OF rep(2) pos, simplified])
qed

lemma candle_volume:
  assumes "\<bar>sin_d L (of_int i)\<bar> \<le> 1"
  shows "20000000 \<le> c_volume (candle_at L b i) \<and> c_volume (candle_at L b i) \<le> 35000000"
proof -
  have le: "\<bar>sin_d L (of_int i) * 15000000\<bar> \<le> of_int 15000000"
    using assms by (simp add: abs_mult)
  have r: "rep64 (of_int 15000000)" "rep64 (of_int (- 15000000))"
    by (intro dbl.rep_int; simp)+
  have "rnd64 (sin_d L (of_int i) * 15000000) \<le> of_int 15000000"
    using le by (intro dbl.rnd_le [OF r(1)]) (simp add: abs_le_iff)
  moreover have "of_int (- 15000000) \<le> rnd64 (sin_d L (of_int i) * 15000000)"
    using le by (intro dbl.rnd_ge [OF r(2)]) (simp add: abs_le_iff)
  ultimately have "\<bar>rnd64 (sin_d L (of_int i) * 15000000)\<bar> \<le> of_int 15000000"
    by (simp add: abs_le_iff)
  then have "\<lfloor>\<bar>rnd64 (sin_d L (of_int i) * 15000000)\<bar>\<rfloor> \<le> 15000000"
    by (metis floor_mono floor_of_int)
  then show ?thesis
    by (simp add: candle_at_def Let_def)
qed

section \<open>The response\<close>

definition kSecsPerDay :: int where
  "kSecsPerDay = 86400"

definition candle_json :: "libm \<Rightarrow> double \<Rightarrow> int \<Rightarrow> nat \<Rightarrow> string" where
  \<open>candle_json L base now i =
     (let day_t = now - int i * kSecsPerDay; c = candle_at L base (int i)
      in ''{"date":"'' @ format_date day_t @
         ''","open":'' @ fmt_g6 (c_open c) @
         '',"high":'' @ fmt_g6 (c_high c) @
         '',"low":'' @ fmt_g6 (c_low c) @
         '',"close":'' @ fmt_g6 (c_close c) @
         '',"volume":'' @ int_str (c_volume c) @
         ''}'')\<close>

text \<open>\<open>for (i = days - 1; i >= 0; --i)\<close>: \<open>candles_json days n\<close> runs the last \<open>n\<close> iterations.\<close>

fun candles_json :: "libm \<Rightarrow> double \<Rightarrow> int \<Rightarrow> nat \<Rightarrow> nat \<Rightarrow> string" where
  "candles_json L base now days 0 = []"
| "candles_json L base now days (Suc i) =
     (if i < days - 1 then '','' else []) @ candle_json L base now i @ candles_json L base now days i"

definition requested_days :: "string \<Rightarrow> int option" where
  "requested_days request_json =
     map_option (\<lambda>days. if days \<le> 0 \<or> days > 365 then 30 else days)
       (extract_int request_json ''days'' 30)"

definition handle_get_price_history :: "libm \<Rightarrow> bool \<Rightarrow> int \<Rightarrow> string \<Rightarrow> string option" where
  \<open>handle_get_price_history L char_signed now request_json =
     (let symbol = extract_string request_json ''symbol'';
          symbol = (if symbol = [] then ''AAPL'' else symbol)
      in map_option (\<lambda>days.
           (let base = base_price char_signed (365 / 2) symbol
            in ''{'' @ ''"symbol":"'' @ symbol @ ''",'' @ ''"history":['' @
               candles_json L base now (nat days) (nat days) @ '']}''))
         (requested_days request_json))\<close>

lemma requested_days_range: "requested_days req = Some d \<Longrightarrow> 1 \<le> d \<and> d \<le> 365"
  by (auto simp: requested_days_def split: if_splits)

text \<open>The requests for which the accumulation of \<open>days\<close> leaves the range of \<open>int\<close>.\<close>

lemma requested_days_undefined:
  "requested_days req = None \<longleftrightarrow>
     (\<exists>r. after (number_needle ''days'') req = Some r
        \<and> INT_MAX < int (str_val (takeWhile is_digit (dropWhile (\<lambda>c. c = CHR '' '') r))))"
  by (auto simp: requested_days_def extract_int_eq int_digits_str_val Let_def split: option.splits if_splits)

lemma handle_defined:
  "handle_get_price_history L sg now req = None \<longleftrightarrow> requested_days req = None"
  by (simp add: handle_get_price_history_def Let_def)

text \<open>The candles in order: day \<open>days - 1\<close> ago first, today last.\<close>

fun join_comma :: "string list \<Rightarrow> string" where
  "join_comma [] = []"
| "join_comma [x] = x"
| "join_comma (x # y # xs) = x @ '','' @ join_comma (y # xs)"

lemma join_comma_Cons: "join_comma (x # xs) = x @ concat (map (\<lambda>y. CHR '','' # y) xs)"
  by (induction xs arbitrary: x) simp_all

lemma candles_tail:
  "n < days \<Longrightarrow> candles_json L b now days n =
     concat (map (\<lambda>y. CHR '','' # y) (map (candle_json L b now) (rev [0..<n])))"
  by (induction n) simp_all

lemma candles_json_join:
  "0 < days \<Longrightarrow> candles_json L b now days days = join_comma (map (candle_json L b now) (rev [0..<days]))"
  by (cases days) (simp_all add: candles_tail join_comma_Cons)

lemma candle_date: "gmtime (now - int i * kSecsPerDay) = civil (now div 86400 - int i)"
proof -
  have "(now - int i * 86400) div 86400 = now div 86400 - int i"
    using div_mult_self1 [of 86400 now "- int i"] by simp
  then show ?thesis by (simp add: gmtime_def kSecsPerDay_def)
qed

lemma consecutive_dates:
  "gmtime (now - int i * kSecsPerDay) = next_date (gmtime (now - int (Suc i) * kSecsPerDay))"
  using civil_Suc [of "now div 86400 - int (Suc i)"] unfolding candle_date by simp

text \<open>Each candle is a flat object.\<close>

lemma candle_json_obj:
  "candle_json L b now i =
     (let c = candle_at L b (int i)
      in render_obj [(''date'', JStr (format_date (now - int i * kSecsPerDay))),
           (''open'', JRaw (fmt_g6 (c_open c))), (''high'', JRaw (fmt_g6 (c_high c))),
           (''low'', JRaw (fmt_g6 (c_low c))), (''close'', JRaw (fmt_g6 (c_close c))),
           (''volume'', JRaw (int_str (c_volume c)))])"
  by (simp add: candle_json_def Let_def)

lemma price_history_symbol:
  assumes "handle_get_price_history L sg now req = Some resp"
  shows \<open>\<exists>rest. resp = ''{"symbol":"'' @ (if extract_string req ''symbol'' = [] then ''AAPL''
       else extract_string req ''symbol'') @ ''","history":['' @ rest\<close>
  using assms by (auto simp: handle_get_price_history_def Let_def)

section \<open>The size of a response\<close>

definition shown_symbol :: "string \<Rightarrow> string" where
  "shown_symbol req =
     (if extract_string req ''symbol'' = [] then ''AAPL'' else extract_string req ''symbol'')"

text \<open>
  With a sine and a cosine that stay in [-1, 1] the prices stay within 5 of the base price, so that
  they print in at most seven characters.
\<close>

definition libm_bounded :: "libm \<Rightarrow> bool" where
  "libm_bounded L \<longleftrightarrow> (\<forall>x. \<bar>sin_d L x\<bar> \<le> 1 \<and> \<bar>cos_d L x\<bar> \<le> 1)"

lemma rnd64_between:
  "\<bar>a\<bar> \<le> 2 ^ 53 \<Longrightarrow> \<bar>b\<bar> \<le> 2 ^ 53 \<Longrightarrow> of_int a \<le> x \<Longrightarrow> x \<le> of_int b \<Longrightarrow>
     of_int a \<le> rnd64 x \<and> rnd64 x \<le> of_int b"
  using dbl.rnd_ge [OF dbl.rep_int [of a], of x] dbl.rnd_le [OF dbl.rep_int [of b], of x] by simp

lemma candle_prices:
  assumes L: "libm_bounded L" and "6 \<le> lo" and "hi \<le> 90000" and b: "of_int lo \<le> b" "b \<le> of_int hi"
    and x: "x \<in> {c_open (candle_at L b i), c_high (candle_at L b i), c_low (candle_at L b i), c_close (candle_at L b i)}"
  shows "1 \<le> x \<and> x < 10 ^ 5"
proof -
  have s: "\<bar>sin_d L y\<bar> \<le> 1" "\<bar>cos_d L y\<bar> \<le> 1" for y
    using L by (simp_all add: libm_bounded_def)
  define de where "de = rnd64 (sin_d L (rnd64 (of_int i * rnd64 (42 / 100))) * 2)"
  define op where "op = rnd64 (b + de)"
  define dc where "dc = rnd64 (cos_d L (rnd64 (of_int i * rnd64 (31 / 100))) * (3 / 2))"
  define cl where "cl = rnd64 (op + dc)"
  define dh where "dh = rnd64 (\<bar>sin_d L (rnd64 (of_int i * rnd64 (7 / 10)))\<bar> * rnd64 (8 / 10))"
  define dl where "dl = rnd64 (\<bar>cos_d L (rnd64 (of_int i * rnd64 (7 / 10)))\<bar> * rnd64 (8 / 10))"
  have r8: "of_int 0 \<le> rnd64 (8 / 10) \<and> rnd64 (8 / 10) \<le> of_int 1"
    by (rule rnd64_between) simp_all
  have m1: "\<bar>u\<bar> * v \<le> 1" if "\<bar>u\<bar> \<le> 1" "0 \<le> v" "v \<le> 1" for u v :: rat
    using mult_mono [OF that(1,3)] that by simp
  have de: "- 2 \<le> de \<and> de \<le> 2"
    using s(1) rnd64_between [of "- 2" 2] unfolding de_def by (simp add: abs_le_iff)
  have dc: "- 2 \<le> dc \<and> dc \<le> 2"
    using s(2) [of "rnd64 (of_int i * rnd64 (31 / 100))"] rnd64_between [of "- 2" 2]
    unfolding dc_def by (simp add: abs_le_iff)
  have dh: "0 \<le> dh \<and> dh \<le> 1" and dl: "0 \<le> dl \<and> dl \<le> 1"
    using r8 m1 [OF s(1)] m1 [OF s(2)] rnd64_between [of 0 1] unfolding dh_def dl_def by simp_all
  have op: "of_int (lo - 2) \<le> op \<and> op \<le> of_int (hi + 2)"
    unfolding op_def using assms(2,3) b de by (intro rnd64_between) simp_all
  have cl: "of_int (lo - 4) \<le> cl \<and> cl \<le> of_int (hi + 4)"
    unfolding cl_def using assms(2,3) op dc by (intro rnd64_between) simp_all
  have hi: "of_int (lo - 4) \<le> rnd64 (max op cl + dh) \<and> rnd64 (max op cl + dh) \<le> of_int (hi + 5)"
    using assms(2,3) op cl dh by (intro rnd64_between) (auto simp: max_def)
  have lo: "of_int (lo - 5) \<le> rnd64 (min op cl - dl) \<and> rnd64 (min op cl - dl) \<le> of_int (hi + 4)"
    using assms(2,3) op cl dl by (intro rnd64_between) (auto simp: min_def)
  have "x \<in> {op, cl, rnd64 (max op cl + dh), rnd64 (min op cl - dl)}"
    using x by (auto simp: candle_at_def op_def cl_def dh_def dl_def de_def dc_def Let_def)
  moreover have "1 \<le> (of_int (lo - 5) :: rat)" "(of_int (hi + 5) :: rat) < 10 ^ 5"
    using assms(2,3) by simp_all
  ultimately show ?thesis
    using op cl hi lo by auto
qed

lemma length_candle_json:
  assumes L: "libm_bounded L" and "6 \<le> lo" and "hi \<le> 90000" and b: "of_int lo \<le> b" "b \<le> of_int hi"
    and t: "31536000 \<le> now" "now < 10 ^ 15" and i: "i < 365"
  shows "length (candle_json L b now i) \<le> 120"
proof -
  have "0 \<le> now - int i * kSecsPerDay" and "now - int i * kSecsPerDay < 10 ^ 15"
    using t i by (simp_all add: kSecsPerDay_def)
  note d = length_format_date [OF this]
  have f: "length (fmt_g6 x) \<le> 7"
    if "x \<in> {c_open (candle_at L b (int i)), c_high (candle_at L b (int i)), c_low (candle_at L b (int i)),
         c_close (candle_at L b (int i))}" for x
    using candle_prices [OF L assms(2,3) b that] by (intro length_fmt_g6) simp_all
  have "\<bar>sin_d L (of_int (int i))\<bar> \<le> 1" using L by (simp add: libm_bounded_def)
  from candle_volume [OF this, of b] have v: "length (int_str (c_volume (candle_at L b (int i)))) \<le> 8"
    by (intro length_int_str) simp_all
  show ?thesis
    using d v f [of "c_open (candle_at L b (int i))"] f [of "c_high (candle_at L b (int i))"]
      f [of "c_low (candle_at L b (int i))"] f [of "c_close (candle_at L b (int i))"]
    by (simp add: candle_json_def Let_def)
qed

lemma length_join_comma: "\<forall>x \<in> set xs. length x \<le> k \<Longrightarrow> length (join_comma xs) \<le> length xs * Suc k"
  by (induction xs rule: join_comma.induct) auto

lemma length_history_response:
  assumes L: "libm_bounded L" and "6 \<le> lo" and "hi \<le> 90000"
    and b: "of_int lo \<le> base_price sg (365 / 2) (shown_symbol req)"
      "base_price sg (365 / 2) (shown_symbol req) \<le> of_int hi"
    and t: "31536000 \<le> now" "now < 10 ^ 15"
    and resp: "handle_get_price_history L sg now req = Some resp"
  shows "length resp \<le> length req + 45000"
proof -
  let ?b = "base_price sg (365 / 2) (shown_symbol req)"
  from resp obtain d where d: "requested_days req = Some d"
    by (auto simp: handle_get_price_history_def Let_def)
  define n where "n = nat d"
  have n: "0 < n" "n \<le> 365" using requested_days_range [OF d] by (simp_all add: n_def nat_le_iff)
  have "length (join_comma (map (candle_json L ?b now) (rev [0..<n]))) \<le> n * Suc 120"
    using length_join_comma [of "map (candle_json L ?b now) (rev [0..<n])" 120]
      length_candle_json [OF L assms(2,3) b t] n by simp
  moreover have "candles_json L ?b now n n = join_comma (map (candle_json L ?b now) (rev [0..<n]))"
    using n by (intro candles_json_join) simp
  moreover have "length (shown_symbol req) \<le> length req + 4"
    using length_extract_string [of req "''symbol''"] by (simp add: shown_symbol_def)
  ultimately show ?thesis
    using resp n d by (auto simp: handle_get_price_history_def shown_symbol_def Let_def n_def)
qed

text \<open>Each character of the symbol moves the base price by at most 2 down and 4 up.\<close>

lemma hundredth_range: "0 \<le> rnd64 (1 / 100) \<and> rnd64 (1 / 100) \<le> 1 / 64"
proof -
  have "rep64 (1 / 64)"
    unfolding rep64_def by (intro exI [of _ 1] exI [of _ "- 6"]) (simp add: power_int_minus)
  then show ?thesis
    using dbl.rnd_le [of "1 / 64" "1 / 100"] dbl.rnd_nonneg [of "1 / 100"] by simp
qed

lemma char_step_range:
  "- 2 \<le> of_int (int_of_char sg c) * rnd64 (1 / 100) \<and> of_int (int_of_char sg c) * rnd64 (1 / 100) \<le> 4"
proof -
  let ?c = "of_int (int_of_char sg c) :: rat" and ?r = "rnd64 (1 / 100)"
  obtain n :: nat where n: "of_char c = n" "n < 256"
    using nat_of_char_less_256 [of c] by blast
  then have "- 128 \<le> int_of_char sg c" "int_of_char sg c \<le> 255"
    unfolding int_of_char_def Let_def n(1) by auto
  then have c: "of_int (- 128) \<le> ?c" "?c \<le> of_int 255"
    by (simp_all only: of_int_le_iff)
  from mult_right_mono [OF c(1), of ?r] mult_right_mono [OF c(2), of ?r] hundredth_range
  show ?thesis by simp
qed

lemma base_price_range:
  "\<bar>a\<bar> + 4 * int (length cs) \<le> 10 ^ 6 \<Longrightarrow> \<bar>b\<bar> + 4 * int (length cs) \<le> 10 ^ 6 \<Longrightarrow> of_int a \<le> x \<Longrightarrow> x \<le> of_int b \<Longrightarrow>
     of_int (a - 2 * int (length cs)) \<le> base_price sg x cs
     \<and> base_price sg x cs \<le> of_int (b + 4 * int (length cs))"
proof (induction cs arbitrary: a b x)
  case Nil
  then show ?case by simp
next
  case (Cons c cs)
  let ?p = "rnd64 (of_int (int_of_char sg c) * rnd64 (1 / 100))"
  have "of_int (- 2) \<le> ?p \<and> ?p \<le> of_int 4"
    using char_step_range [of sg c] by (intro rnd64_between) simp_all
  then have "of_int (a - 2) \<le> rnd64 (x + ?p) \<and> rnd64 (x + ?p) \<le> of_int (b + 4)"
    using Cons.prems by (intro rnd64_between) simp_all
  with Cons.prems Cons.IH [of "a - 2" "b + 4" "rnd64 (x + ?p)"] show ?case
    by (simp add: algebra_simps)
qed

lemma history_response_size:
  assumes "libm_bounded L" and "length (shown_symbol req) \<le> 80"
    and "31536000 \<le> now" and "now < 10 ^ 15"
    and "handle_get_price_history L sg now req = Some resp"
  shows "length resp \<le> length req + 45000"
proof -
  let ?cs = "shown_symbol req"
  have "of_int (182 - 2 * int (length ?cs)) \<le> base_price sg (365 / 2) ?cs
      \<and> base_price sg (365 / 2) ?cs \<le> of_int (183 + 4 * int (length ?cs))"
    using assms(2) by (intro base_price_range) simp_all
  then show ?thesis
    using assms(2)
    by (intro length_history_response [OF assms(1) _ _ _ _ assms(3,4,5),
          of "182 - 2 * int (length ?cs)" "183 + 4 * int (length ?cs)"]) simp_all
qed

section \<open>Properties\<close>

text \<open>C23: A price history response names the request's symbol, or AAPL, and lists exactly as many candles
  as requested, between 1 and 365, oldest first: candle \<open>k\<close> of \<open>n\<close> is that of \<open>n - 1 - k\<close> days ago,
  so the last is today's and the dates are consecutive days.\<close>

theorem price_history_candles:
  assumes "handle_get_price_history L sg now req = Some resp"
  shows \<open>\<exists>n. requested_days req = Some (int n) \<and> 1 \<le> n \<and> n \<le> 365
     \<and> resp = ''{"symbol":"'' @ shown_symbol req @ ''","history":['' @
         join_comma (map (candle_json L (base_price sg (365 / 2) (shown_symbol req)) now) (rev [0..<n])) @
         '']}''
     \<and> (\<forall>i. gmtime (now - int i * kSecsPerDay) = next_date (gmtime (now - int (Suc i) * kSecsPerDay)))\<close>
proof -
  obtain d where d: "requested_days req = Some d"
    using assms by (auto simp: handle_get_price_history_def Let_def)
  note r = requested_days_range [OF d]
  define n where "n = nat d"
  have n: "requested_days req = Some (int n)" "1 \<le> n" "n \<le> 365"
    using d r by (auto simp: n_def)
  have c: "candles_json L b now n n = join_comma (map (candle_json L b now) (rev [0..<n]))" for b
    using n by (intro candles_json_join) simp
  have "\<forall>i. gmtime (now - int i * kSecsPerDay) = next_date (gmtime (now - int (Suc i) * kSecsPerDay))"
    using consecutive_dates by blast
  with n assms show ?thesis
    by (intro exI [of _ n]) (simp add: handle_get_price_history_def shown_symbol_def Let_def c del: upt_Suc)
qed

theorem price_history_candles_witness:
  \<open>\<exists>resp n. handle_get_price_history \<lparr>sin_d = (\<lambda>x. 0), cos_d = (\<lambda>x. 1)\<rparr> True 0 [] = Some resp
     \<and> requested_days [] = Some (int n) \<and> 1 \<le> n \<and> n \<le> 365
     \<and> resp = ''{"symbol":"'' @ shown_symbol [] @ ''","history":['' @
         join_comma (map (candle_json \<lparr>sin_d = (\<lambda>x. 0), cos_d = (\<lambda>x. 1)\<rparr>
           (base_price True (365 / 2) (shown_symbol [])) 0) (rev [0..<n])) @ '']}''\<close>
proof -
  let ?L = "\<lparr>sin_d = (\<lambda>x. 0), cos_d = (\<lambda>x. 1)\<rparr> :: libm"
  have "requested_days [] = Some 30" by code_simp
  then obtain resp where r: "handle_get_price_history ?L True 0 [] = Some resp"
    using handle_defined [of ?L True 0 "[]"] by auto
  from price_history_candles [OF r] r show ?thesis
    by blast
qed

text \<open>C24: Every candle is consistent: its low is at most its open and close, and its high at least both,
  in the double precision arithmetic of the code and whatever the library's sine and cosine return;
  and if the sine of the candle's index is in [-1, 1], the volume is between 20 and 35 million.\<close>

theorem candle_consistent:
  "c_low (candle_at L b i) \<le> min (c_open (candle_at L b i)) (c_close (candle_at L b i))
   \<and> max (c_open (candle_at L b i)) (c_close (candle_at L b i)) \<le> c_high (candle_at L b i)
   \<and> (\<bar>sin_d L (of_int i)\<bar> \<le> 1 \<longrightarrow>
        20000000 \<le> c_volume (candle_at L b i) \<and> c_volume (candle_at L b i) \<le> 35000000)"
  using candle_ohlc [of L b i] candle_volume [of L i b] by blast

theorem candle_consistent_witness:
  "let c = candle_at \<lparr>sin_d = (\<lambda>x. 1 / 2), cos_d = (\<lambda>x. - 1)\<rparr> (365 / 2) 3
   in c_low c \<le> min (c_open c) (c_close c) \<and> max (c_open c) (c_close c) \<le> c_high c
     \<and> 20000000 \<le> c_volume c \<and> c_volume c \<le> 35000000"
  using candle_consistent [of "\<lparr>sin_d = (\<lambda>x. 1 / 2), cos_d = (\<lambda>x. - 1)\<rparr>" "365 / 2" 3]
  unfolding Let_def by simp

text \<open>C26: The number of days is decoded with signed overflow, undefined in C++, exactly for a request
  whose digits behind the \<open>days\<close> key exceed the range of \<open>int\<close>; every other request gets a response.\<close>

theorem price_history_overflow:
  "handle_get_price_history L sg now req = None \<longleftrightarrow>
     (\<exists>r. after (number_needle ''days'') req = Some r
        \<and> 2147483647 < str_val (takeWhile is_digit (dropWhile (\<lambda>c. c = CHR '' '') r)))"
proof -
  have "INT_MAX < int k \<longleftrightarrow> 2147483647 < k" for k
    unfolding INT_MAX_def by auto
  then show ?thesis
    by (simp add: handle_defined requested_days_undefined)
qed

text \<open>C25: The price history response fits well inside the payload limit: for a symbol of at most 80
  characters, a clock between 1971 and the far future and a maths library whose sine and cosine stay in
  [-1, 1], it is at most 45000 characters longer than the request, whatever number of days is asked.\<close>

theorem history_response_fits:
  assumes "libm_bounded L" and "length (shown_symbol req) \<le> 80"
    and "31536000 \<le> now" and "now < 10 ^ 15"
    and "handle_get_price_history L sg now req = Some resp"
  shows "length resp \<le> length req + 45000"
  using assms by (rule history_response_size)

theorem history_response_fits_witness:
  "\<exists>resp. handle_get_price_history \<lparr>sin_d = (\<lambda>x. 0), cos_d = (\<lambda>x. 1)\<rparr> True 1700000000 (render_obj [(''symbol'', JStr ''IBM'')]) = Some resp
     \<and> length resp \<le> 45016"
proof -
  let ?L = "\<lparr>sin_d = (\<lambda>x. 0), cos_d = (\<lambda>x. 1)\<rparr> :: libm" and ?q = "render_obj [(''symbol'', JStr ''IBM'')]"
  have "requested_days ?q = Some 30" and s: "shown_symbol ?q = ''IBM''" and len: "length ?q = 16"
    by code_simp+
  then obtain resp where r: "handle_get_price_history ?L True 1700000000 ?q = Some resp"
    using handle_defined [of ?L True 1700000000 ?q] by auto
  have "libm_bounded ?L" by (simp add: libm_bounded_def)
  from history_response_fits [OF this _ _ _ r] r s len show ?thesis by auto
qed

end
