(* ===== verification/Server_Services.thy ===== *)
theory Server_Services
  imports Service_Router Sql_Service Trade_Service Position_Service Price_History_Service
begin

text \<open>
  The service registrations of \<^verbatim>\<open>server/src/main.cpp\<close> on the router of
  \<^verbatim>\<open>server/include/service_router.hpp\<close>, and what the assembled router answers. The process-wide
  state of the handlers is the order counter of the trade service and the wall clock read by the
  price history service.
\<close>

section \<open>The process state and the platform\<close>

record world =
  g_order_counter :: u64
  wall_clock :: int

text \<open>The initial state: the order counter starts at 1.\<close>

definition initial_world :: "int \<Rightarrow> world" where
  "initial_world now = \<lparr>g_order_counter = 1, wall_clock = now\<rparr>"

text \<open>
  What the build fixes and the source does not: the accuracy of the maths library, the signedness
  of \<open>char\<close>, and what a handler does once an \<open>int\<close> has overflowed.
\<close>

record platform =
  plat_libm :: libm
  plat_char_signed :: bool
  plat_overflow :: "string \<Rightarrow> string + string"

section \<open>The handlers as the router calls them\<close>

definition sql_handler :: "world service_handler" where
  "sql_handler w req = (Inr (handle_sql_query req), w)"

definition buy_handler :: "world service_handler" where
  "buy_handler w req =
     (let (ack, g) = handle_buy_order (g_order_counter w) req in (Inr ack, w\<lparr>g_order_counter := g\<rparr>))"

definition sell_handler :: "world service_handler" where
  "sell_handler w req =
     (let (ack, g) = handle_sell_order (g_order_counter w) req in (Inr ack, w\<lparr>g_order_counter := g\<rparr>))"

definition position_handler :: "world service_handler" where
  "position_handler w req = (Inr (handle_get_position req), w)"

definition price_history_handler :: "platform \<Rightarrow> world service_handler" where
  "price_history_handler P w req =
     (case handle_get_price_history (plat_libm P) (plat_char_signed P) (wall_clock w) req of
        Some resp \<Rightarrow> (Inr resp, w)
      | None \<Rightarrow> (plat_overflow P req, w))"

definition ping_handler :: "world service_handler" where
  \<open>ping_handler w req = (Inr (if req = [] then ''{"seq":0}'' else req), w)\<close>

section \<open>Registration\<close>

fun register_all ::
  "(MessageType \<times> 'w service_handler) list \<Rightarrow> 'w service_router \<Rightarrow> string + 'w service_router" where
  "register_all [] r = Inr r"
| "register_all ((t, h) # hs) r =
     (case register_handler r t h of Inl e \<Rightarrow> Inl e | Inr r' \<Rightarrow> register_all hs r')"

definition service_table :: "platform \<Rightarrow> (MessageType \<times> world service_handler) list" where
  "service_table P =
     [(kSqlQuery, sql_handler), (kBuyOrder, buy_handler), (kSellOrder, sell_handler),
      (kGetPosition, position_handler), (kGetPriceHistory, price_history_handler P),
      (kPing, ping_handler)]"

definition register_services :: "platform \<Rightarrow> world service_router \<Rightarrow> string + world service_router" where
  "register_services P r = register_all (service_table P) r"

text \<open>
  Registration of a table with pairwise different types into a router that has none of them adds
  exactly the table; a type that is already there, or occurs twice, is refused.
\<close>

lemma register_all_fresh:
  "distinct (map fst hs) \<Longrightarrow> \<forall>t \<in> fst ` set hs. mt_code t \<notin> dom r \<Longrightarrow>
     register_all hs r = Inr (r ++ map_of (map (\<lambda>(t, h). (mt_code t, h)) hs))"
proof (induction hs arbitrary: r)
  case Nil
  then show ?case by simp
next
  case (Cons x hs)
  obtain t h where x: "x = (t, h)" by (cases x)
  let ?m = "map_of (map (\<lambda>(t, h). (mt_code t, h)) hs)"
  have new: "mt_code t \<notin> dom r" using Cons.prems x by simp
  have "mt_code t \<notin> dom ?m"
    using Cons.prems x by (auto simp: dom_map_of_conv_image_fst mt_code_inj image_iff)
  then have "r(mt_code t \<mapsto> h) ++ ?m = r ++ ?m(mt_code t \<mapsto> h)"
    by (metis map_add_upd map_add_upd_left)
  moreover have "\<forall>u \<in> fst ` set hs. mt_code u \<notin> dom (r(mt_code t \<mapsto> h))"
    using Cons.prems x by (auto simp: mt_code_inj)
  ultimately show ?case
    using Cons.IH [of "r(mt_code t \<mapsto> h)"] Cons.prems x register_handler_new [OF new, of h]
    by (simp del: fun_upd_apply)
qed

lemma register_all_duplicate:
  assumes "\<exists>t \<in> fst ` set hs. mt_code t \<in> dom r"
  shows "register_all hs r = Inl ''ServiceRouter: duplicate handler for message type''"
  using assms
proof (induction hs arbitrary: r)
  case Nil
  then show ?case by simp
next
  case (Cons x hs)
  obtain t h where x: "x = (t, h)" by (cases x)
  show ?case
  proof (cases "mt_code t \<in> dom r")
    case True
    then show ?thesis using x by (simp add: register_handler_duplicate)
  next
    case False
    with Cons.prems x have "\<exists>u \<in> fst ` set hs. mt_code u \<in> dom (r(mt_code t \<mapsto> h))"
      by auto
    from Cons.IH [OF this] False x show ?thesis
      by (simp add: register_handler_new del: fun_upd_apply)
  qed
qed

definition server_router :: "platform \<Rightarrow> world service_router" where
  "server_router P = map_of (map (\<lambda>(t, h). (mt_code t, h)) (service_table P))"

lemma register_services_ok: "register_services P Map.empty = Inr (server_router P)"
  by (subst register_services_def, subst register_all_fresh)
    (simp_all add: server_router_def service_table_def)

lemma server_router_at:
  "server_router P 1 = Some sql_handler" "server_router P 2 = Some buy_handler"
  "server_router P 3 = Some sell_handler" "server_router P 4 = Some position_handler"
  "server_router P 5 = Some (price_history_handler P)" "server_router P 6 = Some ping_handler"
  by (simp_all add: server_router_def service_table_def)

lemma dom_server_router: "dom (server_router P) = {1, 2, 3, 4, 5, 6}"
  by (auto simp: server_router_def service_table_def split: if_splits)

section \<open>What the server answers\<close>

text \<open>The contract of the server's dispatch, by message type.\<close>

definition answer :: "platform \<Rightarrow> world \<Rightarrow> u16 \<Rightarrow> string \<Rightarrow> (string \<times> world) option" where
  \<open>answer P w t req =
     (if t = 1 then Some (handle_sql_query req, w)
      else if t = 2 then
        Some (fst (build_order_ack (g_order_counter w) req ''BUY''),
              w\<lparr>g_order_counter := g_order_counter w + 1\<rparr>)
      else if t = 3 then
        Some (fst (build_order_ack (g_order_counter w) req ''SELL''),
              w\<lparr>g_order_counter := g_order_counter w + 1\<rparr>)
      else if t = 4 then Some (handle_get_position req, w)
      else if t = 5 then
        map_option (\<lambda>s. (s, w))
          (handle_get_price_history (plat_libm P) (plat_char_signed P) (wall_clock w) req)
      else if t = 6 then Some (if req = [] then ''{"seq":0}'' else req, w)
      else None)\<close>

lemma snd_build_order_ack: "snd (build_order_ack g req side) = g + 1"
  by (simp add: build_order_ack_obj)

lemma server_dispatch_answer:
  assumes "answer P w (message_type (header m)) (payload m) = Some (s, w')"
  shows "dispatch (server_router P) w m =
    (make_message (message_type (header m) OR 0x8000) s 0, w')"
proof -
  let ?t = "message_type (header m)"
  have "\<exists>h. server_router P ?t = Some h \<and> h w (payload m) = (Inr s, w')"
    using assms
    by (auto simp: answer_def server_router_at sql_handler_def buy_handler_def sell_handler_def
        position_handler_def price_history_handler_def ping_handler_def handle_buy_order_def
        handle_sell_order_def case_prod_unfold snd_build_order_ack Let_def split: if_splits)
  then show ?thesis
    by (auto intro: dispatch_returns)
qed

lemma server_dispatch_unknown:
  assumes "message_type (header m) \<notin> {1, 2, 3, 4, 5, 6}"
  shows "dispatch (server_router P) w m = (make_message (mt_code kError) unknown_type_json 0, w)"
  using assms by (intro dispatch_unknown) (simp add: dom_server_router)

lemma answer_None:
  "answer P w t req = None \<longleftrightarrow>
     t \<notin> {1, 2, 3, 4, 5, 6} \<or> t = 5 \<and> requested_days req = None"
  by (auto simp: answer_def handle_defined)

text \<open>Only orders change the process state, and they only advance the counter.\<close>

lemma server_dispatch_world:
  "snd (dispatch (server_router P) w m) =
     (if message_type (header m) \<in> {2, 3} then w\<lparr>g_order_counter := g_order_counter w + 1\<rparr> else w)"
  by (auto simp: dispatch_def server_router_def service_table_def sql_handler_def buy_handler_def
      sell_handler_def position_handler_def price_history_handler_def ping_handler_def
      handle_buy_order_def handle_sell_order_def case_prod_unfold snd_build_order_ack Let_def
      split: option.splits sum.splits)

section \<open>Properties\<close>

text \<open>Registering the services into an empty router succeeds and gives a router with a handler for
  exactly the six request types; registering them a second time is refused as a duplicate.\<close>

theorem register_services_once:
  "register_services P Map.empty = Inr (server_router P)
   \<and> dom (server_router P) =
       mt_code ` {kSqlQuery, kBuyOrder, kSellOrder, kGetPosition, kGetPriceHistory, kPing}
   \<and> register_services P (server_router P) = Inl ''ServiceRouter: duplicate handler for message type''"
proof (intro conjI)
  show "register_services P Map.empty = Inr (server_router P)"
    by (rule register_services_ok)
  show "dom (server_router P) =
       mt_code ` {kSqlQuery, kBuyOrder, kSellOrder, kGetPosition, kGetPriceHistory, kPing}"
    by (simp add: dom_server_router)
  show "register_services P (server_router P) = Inl ''ServiceRouter: duplicate handler for message type''"
    unfolding register_services_def
    by (rule register_all_duplicate) (simp add: service_table_def dom_server_router)
qed

text \<open>C11: A request with any type code other than 1 to 6 is answered with the error message and its
  404 payload; one with a code from 1 to 6 whose handler has a defined result is answered with that
  result under the request's code with the high bit set. In both cases the header announces the
  payload's length, and the process state changes only as the handler says.\<close>

theorem server_response:
  "dispatch (server_router P) w m =
     (if message_type (header m) \<notin> {1, 2, 3, 4, 5, 6}
      then (make_message 0xFFFF unknown_type_json 0, w)
      else case answer P w (message_type (header m)) (payload m) of
             Some (s, w') \<Rightarrow> (make_message (message_type (header m) OR 0x8000) s 0, w')
           | None \<Rightarrow>
               (case plat_overflow P (payload m) of
                  Inr s \<Rightarrow> (make_message 0x8005 s 0, w)
                | Inl what \<Rightarrow> (make_message 0xFFFF (internal_error_json what) 0, w)))"
proof (cases "message_type (header m) \<notin> {1, 2, 3, 4, 5, 6}")
  case True
  then show ?thesis by (simp add: server_dispatch_unknown)
next
  case known: False
  show ?thesis
  proof (cases "answer P w (message_type (header m)) (payload m)")
    case None
    with known have t: "message_type (header m) = 5" "requested_days (payload m) = None"
      by (auto simp: answer_None)
    then have "handle_get_price_history L sg now (payload m) = None" for L sg now
      by (simp add: handle_defined)
    with t None show ?thesis
      by (auto simp: dispatch_def server_router_at price_history_handler_def Let_def split: sum.splits)
  next
    case (Some sw)
    then show ?thesis
      using known server_dispatch_answer [of P w m "fst sw" "snd sw"] by (simp add: case_prod_unfold)
  qed
qed

text \<open>A sell order is acknowledged under the type code 0x8003, which is none of the message types the
  protocol names; the acknowledgement type it names, 0x8002, is sent for buy orders only.\<close>

theorem sell_ack_unnamed:
  "message_type (header (fst (dispatch (server_router P) w (make_message (mt_code kSellOrder) req 0)))) = 0x8003
   \<and> (\<forall>t. mt_code t \<noteq> 0x8003)
   \<and> message_type (header (fst (dispatch (server_router P) w (make_message (mt_code kBuyOrder) req 0)))) =
       mt_code kOrderAck"
proof -
  have "mt_code t \<noteq> 0x8003" for t
    by (cases t) simp_all
  then show ?thesis
    by (simp add: server_dispatch_answer answer_def)
qed

end
