(* ===== verification/Server_Orders.thy ===== *)
theory Server_Orders
  imports Server Server_Services
begin

text \<open>
  The whole server on its router: the acceptor, any number of sessions and the process-wide order
  counter they share. A run of the server is observed at its sockets: every write that a session
  starts is decoded, and the order numbers of the acknowledgements among them are collected in the
  order in which the writes were started.
\<close>

section \<open>Order numbers on the wire\<close>

definition ack_order_id :: "endianness \<Rightarrow> bytes \<Rightarrow> string list" where
  "ack_order_id E bs =
     (case decode_header E (take kHeaderSize bs) of
        Inl what \<Rightarrow> []
      | Inr h \<Rightarrow>
          if message_type h = 0x8002 \<or> message_type h = 0x8003
          then [ExtractField (string_of_bytes (drop kHeaderSize bs)) ''order_id''] else [])"

text \<open>The writes a session has started with the completion of a read.\<close>

definition pending_writes :: "session \<Rightarrow> bytes list" where
  "pending_writes s = concat (map (\<lambda>op. case op of AsyncWrite bs \<Rightarrow> [bs] | _ \<Rightarrow> []) (outstanding s))"

fun writes_started :: "session_event \<Rightarrow> session \<Rightarrow> bytes list" where
  "writes_started (HeaderDone r) s = pending_writes s"
| "writes_started (BodyDone r) s = pending_writes s"
| "writes_started _ s = []"

fun ids_written :: "endianness \<Rightarrow> server_event \<Rightarrow> 'w server \<Rightarrow> string list" where
  "ids_written E (SessionEvent i e) v = concat (map (ack_order_id E) (writes_started e (sessions v ! i)))"
| "ids_written E _ v = []"

lemma ack_order_id_response:
  assumes "dispatch (server_router P) w m = (r, w')"
  shows "(ack_order_id E (message_bytes E r) = [] \<and> g_order_counter w' \<in> {g_order_counter w, g_order_counter w + 1})
     \<or> (ack_order_id E (message_bytes E r) = [order_id_str (g_order_counter w)]
        \<and> g_order_counter w' = g_order_counter w + 1)"
proof -
  let ?t = "message_type (header m)"
  have w': "g_order_counter w' = (if ?t \<in> {2, 3} then g_order_counter w + 1 else g_order_counter w)"
    using server_dispatch_world [of P w m] assms by (auto split: if_splits)
  have id: "ack_order_id E (message_bytes E r) =
      (if payload_length (header r) \<le> kMaxPayloadSize \<and> message_type (header r) \<in> {0x8002, 0x8003}
       then [ExtractField (payload r) ''order_id''] else [])"
    by (auto simp: ack_order_id_def message_bytes_def decode_encode_header not_less split: if_splits)
  show ?thesis
  proof (cases "?t \<in> {2, 3}")
    case True
    then obtain side where side: "quote \<notin> set side"
      "answer P w ?t (payload m) = Some (fst (build_order_ack (g_order_counter w) (payload m) side),
          w\<lparr>g_order_counter := g_order_counter w + 1\<rparr>)"
      by (cases "?t = 2") (auto simp: answer_def intro: that [of "''BUY''"] that [of "''SELL''"])
    from server_dispatch_answer [OF side(2)] assms
    have "payload r = fst (build_order_ack (g_order_counter w) (payload m) side)" by auto
    with True w' show ?thesis unfolding id by (simp add: ack_ExtractField(1) [OF side(1)])
  next
    case False
    obtain t s where t: "fst (dispatch (server_router P) w m) = make_message t s 0"
      "t = mt_code kError \<or> t = ?t OR 0x8000 \<and> ?t \<in> {1, 4, 5, 6}"
    proof (cases "?t \<in> {1, 2, 3, 4, 5, 6}")
      case True
      with False dispatch_is_made [of "server_router P" w m] that show ?thesis by blast
    next
      case unknown: False
      with server_dispatch_unknown [OF this] that show ?thesis by simp
    qed
    then have "message_type (header r) \<notin> {0x8002, 0x8003}" using assms by auto
    with False w' show ?thesis unfolding id by simp
  qed
qed

section \<open>The steps of a session\<close>

lemma dispatched_ids:
  assumes "outstanding s = []" and "dispatch_and_write E (dispatch (server_router P)) w s = (w', s')"
  shows "concat (map (ack_order_id E) (pending_writes s')) = [] \<and> g_order_counter w' \<in> {g_order_counter w, g_order_counter w + 1}
     \<or> concat (map (ack_order_id E) (pending_writes s')) = [order_id_str (g_order_counter w)]
        \<and> g_order_counter w' = g_order_counter w + 1"
proof -
  let ?m = "\<lparr>header = current_header s, payload = string_of_bytes (body_buf s)\<rparr>"
  obtain r where r: "dispatch (server_router P) w ?m = (r, w')" "s' = do_write E r s"
    using assms(2) by (auto simp: dispatch_and_write_def Let_def split: prod.splits)
  have "pending_writes s' = [message_bytes E r]"
    using assms(1) by (simp add: r(2) do_write_def pending_writes_def message_bytes_def Let_def)
  with ack_order_id_response [OF r(1), of E] show ?thesis by auto
qed

text \<open>What a step of a session adds to the order numbers written, and to the counter.\<close>

definition counted :: "world \<Rightarrow> world \<Rightarrow> string list \<Rightarrow> bool" where
  "counted w w' ids \<longleftrightarrow>
     ids = [] \<and> g_order_counter w' \<in> {g_order_counter w, g_order_counter w + 1}
     \<or> ids = [order_id_str (g_order_counter w)] \<and> g_order_counter w' = g_order_counter w + 1"

lemma counted_idle: "counted w w []"
  by (simp add: counted_def)

lemma read_ids:
  assumes "outstanding s = []"
  shows "header_read E (dispatch (server_router P)) r w s = (w', s') \<Longrightarrow>
     counted w w' (concat (map (ack_order_id E) (pending_writes s')))"
    and "body_read E (dispatch (server_router P)) r w s = (w', s') \<Longrightarrow>
     counted w w' (concat (map (ack_order_id E) (pending_writes s')))"
proof -
  have d: "counted w w' (concat (map (ack_order_id E) (pending_writes s')))"
    if "outstanding s0 = []" "dispatch_and_write E (dispatch (server_router P)) w s0 = (w', s')" for s0
    using dispatched_ids [OF that] by (auto simp: counted_def)
  have c: "pending_writes (close s0) = []" if "outstanding s0 = []" for s0
    using that by (simp add: pending_writes_def close_def)
  show "counted w w' (concat (map (ack_order_id E) (pending_writes s')))"
    if h: "header_read E (dispatch (server_router P)) r w s = (w', s')"
  proof (cases r)
    case IoErr
    with h c [OF assms] show ?thesis by (auto simp: header_read_def counted_idle)
  next
    case (IoOk bs)
    show ?thesis
    proof (cases "decode_header E bs")
      case (Inl what)
      have "pending_writes (close (s\<lparr>header_buf := bs\<rparr>)) = []" using assms by (intro c) simp
      with h IoOk Inl show ?thesis by (auto simp: header_read_def counted_idle)
    next
      case (Inr hd)
      let ?s = "s\<lparr>header_buf := bs, current_header := hd\<rparr>"
      show ?thesis
      proof (cases "payload_length hd = 0")
        case True
        with h IoOk Inr have "dispatch_and_write E (dispatch (server_router P)) w (?s\<lparr>body_buf := []\<rparr>) = (w', s')"
          by (simp add: header_read_def do_read_body_def)
        then show ?thesis using assms by (intro d [of "?s\<lparr>body_buf := []\<rparr>"]) simp_all
      next
        case False
        with h IoOk Inr assms show ?thesis
          by (auto simp: header_read_def do_read_body_def pending_writes_def counted_idle Let_def)
      qed
    qed
  qed
  show "counted w w' (concat (map (ack_order_id E) (pending_writes s')))"
    if h: "body_read E (dispatch (server_router P)) r w s = (w', s')"
  proof (cases r)
    case IoErr
    with h c [OF assms] show ?thesis by (auto simp: body_read_def counted_idle)
  next
    case (IoOk bs)
    with h have "dispatch_and_write E (dispatch (server_router P)) w (s\<lparr>body_buf := bs\<rparr>) = (w', s')"
      by (simp add: body_read_def)
    then show ?thesis using assms by (intro d [of "s\<lparr>body_buf := bs\<rparr>"]) simp_all
  qed
qed

lemma session_step_ids:
  assumes "session_step E (dispatch (server_router P)) (w, s) e (w', s')" and "session_inv (w, s)"
    and "e = OtherWork \<Longrightarrow> g_order_counter w' = g_order_counter w"
  shows "counted w w' (concat (map (ack_order_id E) (writes_started e s')))"
  using assms(1)
proof (cases rule: session_step.cases)
  case (header_done pre post r)
  then have "outstanding (s\<lparr>outstanding := pre @ post\<rparr>) = []"
    using idle_pop(3,4) [OF assms(2)] by simp
  from read_ids(1) [OF this] header_done show ?thesis by simp
next
  case (body_done pre n post r)
  then have "outstanding (s\<lparr>outstanding := pre @ post\<rparr>) = []"
    using idle_pop(3,4) [OF assms(2)] by simp
  from read_ids(2) [OF this] body_done show ?thesis by simp
next
  case other_work
  with assms(3) show ?thesis by (simp add: counted_def)
qed (simp_all add: counted_idle)

section \<open>Runs of the server\<close>

text \<open>
  \<open>order_run v n ids v'\<close>: from \<open>v\<close> to \<open>v'\<close> in \<open>n\<close> steps, in which the acknowledgements written carry
  the order numbers \<open>ids\<close>. What a session's step counts as work of others (\<open>OtherWork\<close>) is in the whole
  server either a step of another session or the clock, which leaves the counter alone.
\<close>

inductive order_run :: "endianness \<Rightarrow> platform \<Rightarrow> world server \<Rightarrow> nat \<Rightarrow> string list \<Rightarrow> world server \<Rightarrow> bool"
  for E :: endianness and P :: platform and v0 :: "world server"
where
  run_nothing: "order_run E P v0 0 [] v0"
| run_step: "order_run E P v0 n ids v \<Longrightarrow> server_step E (dispatch (server_router P)) v e v' \<Longrightarrow>
    (\<And>i. e = SessionEvent i OtherWork \<Longrightarrow> g_order_counter (proc v') = g_order_counter (proc v)) \<Longrightarrow>
    order_run E P v0 (Suc n) (ids @ ids_written E e v') v'"

lemma proc_server_ops [simp]:
  "proc (accept_action env v) = proc v" "proc (do_accept v) = proc v" "proc (stop_server v) = proc v"
  "proc ((on_session_close ^^ n) v) = proc v" "sessions ((on_session_close ^^ n) v) = sessions v"
  by (simp_all add: accept_action_def do_accept_def stop_server_def on_session_close_funpow split: accept_pc.split)

lemma server_step_ids:
  assumes "server_step E (dispatch (server_router P)) v e v'" and "server_inv cfg hw v"
    and "\<And>i. e = SessionEvent i OtherWork \<Longrightarrow> g_order_counter (proc v') = g_order_counter (proc v)"
  shows "counted (proc v) (proc v') (ids_written E e v')"
  using assms(1)
proof (cases rule: server_step.cases)
  case (session_one se i w' s')
  have "session_inv (proc v, sessions v ! i)"
    using assms(2) session_one(4) by (simp add: server_inv_def)
  from session_step_ids [OF session_one(5) this] assms(3) [of i] session_one show ?thesis by simp
qed (simp_all add: counted_idle)

text \<open>The numbers written are numbers drawn, in increasing order, and at most one is drawn in a step.\<close>

lemma order_run_numbers:
  assumes "order_run E P v0 n ids v" and "server_inv cfg hw v0"
  shows "server_inv cfg hw v
     \<and> (\<exists>ks m. ids = map (\<lambda>k. order_id_str (g_order_counter (proc v0) + of_nat k)) ks \<and> sorted_wrt (<) ks
          \<and> (\<forall>k \<in> set ks. k < m) \<and> m \<le> n \<and> g_order_counter (proc v) = g_order_counter (proc v0) + of_nat m)"
  using assms(1)
proof (induction rule: order_run.induct)
  case run_nothing
  with assms(2) show ?case by (intro conjI exI [of _ "[]"] exI [of _ 0]) simp_all
next
  case (run_step n ids v e v')
  let ?g = "g_order_counter (proc v0)"
  from run_step.IH obtain ks m where inv: "server_inv cfg hw v"
    and ks: "ids = map (\<lambda>k. order_id_str (?g + of_nat k)) ks" "sorted_wrt (<) ks" "\<forall>k \<in> set ks. k < m" "m \<le> n"
    and g: "g_order_counter (proc v) = ?g + of_nat m" by blast
  have inv': "server_inv cfg hw v'" by (rule server_inv_step [OF inv run_step.hyps(2)])
  have "counted (proc v) (proc v') (ids_written E e v')"
    using server_step_ids [OF run_step.hyps(2) inv] run_step.hyps(3) by blast
  then consider (none) d where "ids_written E e v' = []" "d \<le> 1" "g_order_counter (proc v') = ?g + of_nat (m + d)"
    | (one) "ids_written E e v' = [order_id_str (?g + of_nat m)]" "g_order_counter (proc v') = ?g + of_nat (m + 1)"
    by (auto simp: counted_def g algebra_simps intro: that(1) [of 0] that(1) [of 1])
  then show ?case
  proof cases
    case (none d)
    with ks inv' show ?thesis by (intro conjI exI [of _ ks] exI [of _ "m + d"]) auto
  next
    case one
    with ks inv' show ?thesis
      by (intro conjI exI [of _ "ks @ [m]"] exI [of _ "m + 1"]) (auto simp: sorted_wrt_append)
  qed
qed

lemma order_run_accepts:
  "order_run E P v0 n ids v \<Longrightarrow> \<not> stopped v \<Longrightarrow> accepts_seen envs v \<Longrightarrow>
     order_run E P v0 (n + length envs) ids (fold accept_action envs v)"
proof (induction envs arbitrary: n v)
  case (Cons env envs)
  have "order_run E P v0 (Suc n) (ids @ ids_written E AcceptAction (accept_action env v)) (accept_action env v)"
    using Cons.prems by (intro run_step [OF _ accept_one]) simp_all
  with Cons.IH [of "Suc n" "accept_action env v"] Cons.prems show ?case by simp
qed simp

text \<open>A run for the example: one client connects, places a buy order and then a sell order.\<close>

definition sample_platform :: platform where
  "sample_platform = \<lparr>plat_libm = \<lparr>sin_d = (\<lambda>x. 0), cos_d = (\<lambda>x. 1)\<rparr>, plat_char_signed = True, plat_overflow = Inr\<rparr>"

definition one_client :: "world server" where
  "one_client =
     fold accept_action (replicate 7 (AcceptEnv True False 1 False))
       (do_accept (make_server default_server_config 4 (initial_world 0)))"

definition order_header :: "u16 \<Rightarrow> bytes" where
  "order_header t = encode_header LittleEndian (header (make_message t [] 0))"

definition session_to :: "world server \<Rightarrow> world \<times> session \<Rightarrow> world server" where
  "session_to v ws = v\<lparr>proc := fst ws, sessions := [snd ws]\<rparr>"

definition after_buy :: "world \<times> session" where
  "after_buy = header_read LittleEndian (dispatch (server_router sample_platform)) (IoOk (order_header 2))
     (initial_world 0) ((start (make_session 1))\<lparr>outstanding := []\<rparr>)"

definition after_write :: "world \<times> session" where
  "after_write = (fst after_buy, write_done (IoOk []) ((snd after_buy)\<lparr>outstanding := []\<rparr>))"

definition after_sell :: "world \<times> session" where
  "after_sell = header_read LittleEndian (dispatch (server_router sample_platform)) (IoOk (order_header 3))
     (fst after_write) ((snd after_write)\<lparr>outstanding := []\<rparr>)"

lemma one_client_sel: "sessions one_client = [start (make_session 1)]" "proc one_client = initial_world 0"
    "\<not> stopped one_client"
  by code_simp+

lemma sample_ids: "concat (map (ack_order_id LittleEndian) (pending_writes (snd after_buy))) = [''ORD-1'']"
    "concat (map (ack_order_id LittleEndian) (pending_writes (snd after_sell))) = [''ORD-2'']"
  by code_simp+

lemma sample_states:
  "\<exists>bs. outstanding (snd after_buy) = [AsyncWrite bs]" "alive (snd after_buy)" "on_close_calls (snd after_buy) = 0"
  "outstanding (snd after_write) = [AsyncReadHeader]" "alive (snd after_write)" "on_close_calls (snd after_write) = 0"
  "on_close_calls (snd after_sell) = 0"
proof -
  have "\<exists>bs. outstanding s = [AsyncWrite bs]" if "pending_writes s \<noteq> []" "length (outstanding s) = 1" for s
    using that by (cases "outstanding s") (auto simp: pending_writes_def split: async_op.splits)
  moreover have "length (outstanding (snd after_buy)) = 1" by code_simp
  moreover have "pending_writes (snd after_buy) \<noteq> []" using sample_ids(1) by (metis concat.simps(1) list.distinct(1) list.simps(8))
  ultimately show "\<exists>bs. outstanding (snd after_buy) = [AsyncWrite bs]" by blast
qed code_simp+

lemma order_run_session:
  assumes "order_run E P v0 n ids v" and "\<not> stopped v" and "sessions v = [s]"
    and "session_step E (dispatch (server_router P)) (proc v, s) e ws" and "e \<noteq> OtherWork" and "e \<noteq> ContextDestroyed"
    and "on_close_calls (snd ws) = on_close_calls s"
  shows "order_run E P v0 (Suc n) (ids @ concat (map (ack_order_id E) (writes_started e (snd ws)))) (session_to v ws)"
proof -
  have "server_step E (dispatch (server_router P)) v (SessionEvent 0 e)
     ((on_session_close ^^ (on_close_calls (snd ws) - on_close_calls (sessions v ! 0)))
        (v\<lparr>proc := fst ws, sessions := (sessions v)[0 := snd ws]\<rparr>))"
    using assms(2-4,6) by (intro session_one) simp_all
  then have "server_step E (dispatch (server_router P)) v (SessionEvent 0 e) (session_to v ws)"
    using assms(3,7) by (simp add: session_to_def)
  from run_step [OF assms(1) this] assms(5) show ?thesis by (simp add: session_to_def)
qed

lemma sample_order_run:
  "\<exists>v. order_run LittleEndian sample_platform (make_server default_server_config 4 (initial_world 0)) 11
     [''ORD-1'', ''ORD-2''] v"
proof -
  let ?v0 = "make_server default_server_config 4 (initial_world 0)"
  let ?R = "order_run LittleEndian sample_platform ?v0"
  let ?S = "session_step LittleEndian (dispatch (server_router sample_platform))"
  have "server_step LittleEndian (dispatch (server_router sample_platform)) ?v0 RunCalled (do_accept ?v0)"
    by (rule run_called) (simp add: make_server_def)
  from run_step [OF run_nothing this] have "?R 1 [] (do_accept ?v0)" by simp
  moreover have "accepts_seen (replicate 7 (AcceptEnv True False 1 False)) (do_accept ?v0)" by code_simp
  ultimately have r1: "?R 8 [] one_client"
    using order_run_accepts [of LittleEndian sample_platform ?v0 1 "[]" "do_accept ?v0" "replicate 7 (AcceptEnv True False 1 False)"]
    by (simp add: one_client_def do_accept_def make_server_def)
  have h: "length (order_header t) = kHeaderSize" for t by (simp add: order_header_def)
  have "?S (initial_world 0, start (make_session 1)) (HeaderDone (IoOk (order_header 2))) after_buy"
    using header_done [of "start (make_session 1)" "[]" "[]" "IoOk (order_header 2)" LittleEndian
        "dispatch (server_router sample_platform)" "initial_world 0"] h
    by (simp add: after_buy_def start_def do_read_header_def make_session_def)
  from order_run_session [OF r1 _ one_client_sel(1), unfolded one_client_sel(2), OF _ this] one_client_sel(3) sample_ids(1)
  have r2: "?R 9 [''ORD-1''] (session_to one_client after_buy)"
    by (simp add: sample_states start_def do_read_header_def make_session_def)
  obtain bs where bs: "outstanding (snd after_buy) = [AsyncWrite bs]" using sample_states(1) by blast
  have "?S (fst after_buy, snd after_buy) (WriteDone (IoOk [])) after_write"
    using write_finished [of "snd after_buy" "[]" bs "[]" LittleEndian "dispatch (server_router sample_platform)"
        "fst after_buy" "IoOk []"] bs sample_states(2) by (simp add: after_write_def)
  from order_run_session [OF r2 _ _ , of "snd after_buy" "WriteDone (IoOk [])" after_write] this
  have r3: "?R 10 [''ORD-1''] (session_to (session_to one_client after_buy) after_write)"
    by (simp add: session_to_def sample_states one_client_sel(3))
  have "?S (fst after_write, snd after_write) (HeaderDone (IoOk (order_header 3))) after_sell"
    using header_done [of "snd after_write" "[]" "[]" "IoOk (order_header 3)" LittleEndian
        "dispatch (server_router sample_platform)" "fst after_write"] h sample_states(4,5) by (simp add: after_sell_def)
  from order_run_session [OF r3 _ _ , of "snd after_write" "HeaderDone (IoOk (order_header 3))" after_sell] this sample_ids(2)
  show ?thesis
    by (intro exI [of _ "session_to (session_to (session_to one_client after_buy) after_write) after_sell"])
      (simp add: session_to_def sample_states one_client_sel(3))
qed

section \<open>Properties\<close>

text \<open>C6: However the acceptor, the sessions and their threads interleave, no two order acknowledgements
  that the server writes, on the same connection or on different ones, carry the same order number, as
  long as it makes fewer than \<open>2 ^ 64\<close> steps; each carries a number that was drawn from the counter.\<close>

theorem order_numbers_unique:
  assumes "order_run E P (make_server cfg hw w) n ids v" and "n < 2 ^ 64"
  shows "distinct ids \<and> (\<forall>id \<in> set ids. \<exists>k < n. id = order_id_str (g_order_counter w + of_nat k))"
proof -
  have "server_inv cfg hw (make_server cfg hw w)"
    by (rule server_inv_start) (simp add: server_start_def)
  from order_run_numbers [OF assms(1) this] obtain ks m where
    ks: "ids = map (\<lambda>k. order_id_str (g_order_counter w + of_nat k)) ks" "sorted_wrt (<) ks" "\<forall>k \<in> set ks. k < m" "m \<le> n"
    by (auto simp: make_server_def)
  have "inj_on (\<lambda>k. order_id_str (g_order_counter w + of_nat k)) (set ks)"
  proof (rule inj_onI)
    fix i j
    assume "i \<in> set ks" "j \<in> set ks"
      and "order_id_str (g_order_counter w + of_nat i) = order_id_str (g_order_counter w + of_nat j)"
    moreover from this have "unat (of_nat i :: u64) = unat (of_nat j :: u64)" by (simp add: order_id_str_inj)
    moreover have "i < 2 ^ 64" "j < 2 ^ 64" using ks(3,4) assms(2) calculation(1,2) by fastforce+
    ultimately show "i = j" by (simp add: unat_of_nat)
  qed
  moreover have "distinct ks" using ks(2) by (simp add: strict_sorted_iff)
  ultimately show ?thesis using ks by (force simp: distinct_map)
qed

theorem order_numbers_unique_witness:
  "\<exists>v. order_run LittleEndian sample_platform (make_server default_server_config 4 (initial_world 0)) 11
       [''ORD-1'', ''ORD-2''] v
     \<and> distinct [''ORD-1'', ''ORD-2'']
     \<and> (\<forall>id \<in> set [''ORD-1'', ''ORD-2'']. \<exists>k < 11. id = order_id_str (g_order_counter (initial_world 0) + of_nat k))"
proof -
  obtain v where v: "order_run LittleEndian sample_platform (make_server default_server_config 4 (initial_world 0)) 11
       [''ORD-1'', ''ORD-2''] v"
    using sample_order_run by blast
  have "(11 :: nat) < 2 ^ 64" by simp
  from order_numbers_unique [OF v this] v show ?thesis by blast
qed

end
