(* ===== verification/Session_Close.thy ===== *)
theory Session_Close
  imports Server
begin

text \<open>
  \<^verbatim>\<open>Session::close\<close> action by action. \<open>stop\<close> posts a call of \<open>close\<close> to the executor of the socket, which
  is not a strand, so with several I/O threads the posted call can run beside a completion handler that
  calls \<open>close\<close> itself, and both read and write the plain flag \<open>closed_\<close>. In \<open>Session\<close> a call of \<open>close\<close> is
  one step; here its accesses are steps, and several calls interleave. (C++ leaves such a race
  undefined; the reads and writes here are atomic, which is the most favourable reading.) A session
  that is never stopped has one operation outstanding at a time, hence one handler, and no such race:
  no code of the program calls \<open>stop\<close>.
\<close>

section \<open>One call\<close>

datatype close_pc = LoadClosed | StoreClosed | CloseSocket | CallOwner | CloseReturned

definition close_action :: "close_pc \<Rightarrow> session \<Rightarrow> close_pc \<times> session" where
  "close_action pc s =
     (case pc of
        LoadClosed \<Rightarrow> (if closed s then CloseReturned else StoreClosed, s)
      | StoreClosed \<Rightarrow> (CloseSocket, s\<lparr>closed := True\<rparr>)
      | CloseSocket \<Rightarrow> (CallOwner, s\<lparr>sock_open := False\<rparr>)
      | CallOwner \<Rightarrow> (CloseReturned, s\<lparr>on_close_calls := Suc (on_close_calls s)\<rparr>)
      | CloseReturned \<Rightarrow> (CloseReturned, s))"

text \<open>A call that runs alone is the \<open>close\<close> of \<open>Session\<close>.\<close>

lemma close_alone: "((\<lambda>(pc, s). close_action pc s) ^^ 4) (LoadClosed, s) = (CloseReturned, close s)"
  by (simp add: eval_nat_numeral close_action_def close_def)

section \<open>Calls side by side\<close>












section \<open>What the owner makes of a second call\<close>

lemma closed_calls:
  "closed s \<Longrightarrow> close s = s"
  by (simp add: close_def)

lemma calls_ops [simp]:
  "on_close_calls (do_read_header s) = on_close_calls s" "on_close_calls (do_write E r s) = on_close_calls s"
  "on_close_calls (stop s) = on_close_calls s"
  "closed s \<Longrightarrow> on_close_calls (close s) = on_close_calls s"
  "closed s \<Longrightarrow> on_close_calls (write_done res s) = on_close_calls s"
  "closed s \<Longrightarrow> on_close_calls (destroy s) = on_close_calls s"
  "on_close_calls (snd (dispatch_and_write E disp w s)) = on_close_calls s"
  "on_close_calls (snd (do_read_body E disp w s)) = on_close_calls s"
  "closed s \<Longrightarrow> on_close_calls (snd (header_read E disp res w s)) = on_close_calls s"
  "closed s \<Longrightarrow> on_close_calls (snd (body_read E disp res w s)) = on_close_calls s"
  by (auto simp: session_ops Let_def split: io_result.splits sum.splits prod.splits)









section \<open>Properties\<close>





end
