(* ===== verification/Json_Text.thy ===== *)
theory Json_Text
  imports Json_Fields "HOL-Library.Monad_Syntax"
begin

text \<open>
  A reader of JSON texts after RFC 8259, to state what a client with a standard parser gets from the
  responses. It is strict: inside a string a control character is an error, and so is a backslash that
  starts none of the escapes of section 7; a number has the form of section 6; the text is one value
  with blanks around its tokens and nothing behind it. Characters are octets; those above ASCII are
  taken as they are, an escaped code point is given in UTF-8.
\<close>

datatype json =
    JsNull | JsBool bool | JsNumber string | JsString string
  | JsArray "json list" | JsObject "(string \<times> json) list"

section \<open>Strings (section 7)\<close>

definition is_control :: "char \<Rightarrow> bool" where
  "is_control c \<longleftrightarrow> of_char c < (0x20 :: nat)"

abbreviation backslash :: char where
  "backslash \<equiv> CHR 0x5C"

definition simple_escape :: "char \<Rightarrow> char option" where
  "simple_escape c =
     (if c = quote \<or> c = backslash \<or> c = CHR ''/'' then Some c
      else if c = CHR ''b'' then Some (CHR 0x08) else if c = CHR ''f'' then Some (CHR 0x0C)
      else if c = CHR ''n'' then Some (CHR 0x0A) else if c = CHR ''r'' then Some (CHR 0x0D)
      else if c = CHR ''t'' then Some (CHR 0x09) else None)"

definition hex_val :: "char \<Rightarrow> nat option" where
  "hex_val c =
     (let n = of_char c
      in if 48 \<le> n \<and> n \<le> 57 then Some (n - 48)
         else if 65 \<le> n \<and> n \<le> 70 then Some (n - 55)
         else if 97 \<le> n \<and> n \<le> 102 then Some (n - 87) else None)"

definition read_hex4 :: "string \<Rightarrow> (nat \<times> string) option" where
  "read_hex4 s =
     (case s of
        a # b # c # d # r \<Rightarrow>
          do {
            i \<leftarrow> hex_val a;
            j \<leftarrow> hex_val b;
            k \<leftarrow> hex_val c;
            l \<leftarrow> hex_val d;
            Some (((i * 16 + j) * 16 + k) * 16 + l, r)
          }
      | _ \<Rightarrow> None)"

definition utf8 :: "nat \<Rightarrow> string" where
  "utf8 n =
     map char_of
       (if n < 0x80 then [n]
        else if n < 0x800 then [0xC0 + n div 64, 0x80 + n mod 64]
        else if n < 0x10000 then [0xE0 + n div 4096, 0x80 + n div 64 mod 64, 0x80 + n mod 64]
        else [0xF0 + n div 262144, 0x80 + n div 4096 mod 64, 0x80 + n div 64 mod 64, 0x80 + n mod 64])"

text \<open>One unit of a string: a character or an escape, a surrogate pair being one unit.\<close>

definition read_unicode :: "string \<Rightarrow> (string \<times> string) option" where
  "read_unicode s =
     do {
       (u, r) \<leftarrow> read_hex4 s;
       if 0xD800 \<le> u \<and> u < 0xDC00
       then (case r of
               b # c # r' \<Rightarrow>
                 if b = backslash \<and> c = CHR ''u''
                 then do {
                   (l, r'') \<leftarrow> read_hex4 r';
                   if 0xDC00 \<le> l \<and> l < 0xE000
                   then Some (utf8 (0x10000 + (u - 0xD800) * 0x400 + (l - 0xDC00)), r'') else None
                 }
                 else None
             | _ \<Rightarrow> None)
       else if 0xDC00 \<le> u \<and> u < 0xE000 then None
       else Some (utf8 u, r)
     }"

definition read_unit :: "string \<Rightarrow> (string \<times> string) option" where
  "read_unit s =
     (case s of
        [] \<Rightarrow> None
      | c # cs \<Rightarrow>
          if c = quote \<or> is_control c then None
          else if c \<noteq> backslash then Some ([c], cs)
          else (case cs of
                  [] \<Rightarrow> None
                | d # ds \<Rightarrow>
                    if d = CHR ''u'' then read_unicode ds
                    else map_option (\<lambda>x. ([x], ds)) (simple_escape d)))"

lemma read_hex4_shorter: "read_hex4 s = Some (x, r) \<Longrightarrow> length r < length s"
  by (auto simp: read_hex4_def split: list.splits bind_splits)

lemma read_unicode_shorter: "read_unicode s = Some (x, r) \<Longrightarrow> length r < length s"
  by (fastforce simp: read_unicode_def split: list.splits bind_splits if_splits dest!: read_hex4_shorter)

lemma read_unit_shorter: "read_unit s = Some (x, r) \<Longrightarrow> length r < length s"
  by (auto simp: read_unit_def split: list.splits if_splits dest!: read_unicode_shorter)

text \<open>The characters behind the opening quote up to the closing one, and the text behind that.\<close>

function read_chars :: "string \<Rightarrow> (string \<times> string) option" where
  "read_chars s =
     (if s \<noteq> [] \<and> hd s = quote then Some ([], tl s)
      else (case read_unit s of
              None \<Rightarrow> None
            | Some (x, r) \<Rightarrow> map_option (\<lambda>(v, rest). (x @ v, rest)) (read_chars r)))"
  by pat_completeness auto
termination
  by (relation "measure length") (auto dest: read_unit_shorter)

declare read_chars.simps [simp del]

lemma read_chars_shorter: "read_chars s = Some (v, r) \<Longrightarrow> length r < length s"
proof (induction s arbitrary: v r rule: read_chars.induct)
  case (1 s)
  show ?case
  proof (cases "s \<noteq> [] \<and> hd s = quote")
    case True
    with "1.prems" show ?thesis by (subst (asm) read_chars.simps) (cases s; auto)
  next
    case False
    with "1.prems" obtain x r' v' where u: "read_unit s = Some (x, r')" and c: "read_chars r' = Some (v', r)"
      by (subst (asm) read_chars.simps) (auto split: option.splits)
    from "1.IH" [OF False u refl c] read_unit_shorter [OF u] show ?thesis by simp
  qed
qed

lemma read_chars_quote [simp]: "read_chars (quote # s) = Some ([], s)"
  by (subst read_chars.simps) simp

lemma read_chars_Nil [simp]: "read_chars [] = None"
  by (subst read_chars.simps) (simp add: read_unit_def)

lemma read_chars_unit:
  "s = [] \<or> hd s \<noteq> quote \<Longrightarrow>
   read_chars s = (case read_unit s of None \<Rightarrow> None
     | Some (x, r) \<Rightarrow> map_option (\<lambda>(v, rest). (x @ v, rest)) (read_chars r))"
  by (subst read_chars.simps) auto

section \<open>Numbers (section 6)\<close>

definition read_fraction :: "string \<Rightarrow> (string \<times> string) option" where
  "read_fraction s =
     (case s of
        c # t \<Rightarrow>
          if c = CHR ''.''
          then (if takeWhile is_digit t = [] then None
                else Some (c # takeWhile is_digit t, dropWhile is_digit t))
          else Some ([], s)
      | [] \<Rightarrow> Some ([], s))"

definition read_exponent :: "string \<Rightarrow> (string \<times> string) option" where
  "read_exponent s =
     (case s of
        c # t \<Rightarrow>
          if c = CHR ''e'' \<or> c = CHR ''E''
          then (let (sg, t') = (case t of d # ds \<Rightarrow> if d = CHR ''+'' \<or> d = CHR ''-'' then ([d], ds) else ([], t)
                                | [] \<Rightarrow> ([], t))
                in if takeWhile is_digit t' = [] then None
                   else Some (c # sg @ takeWhile is_digit t', dropWhile is_digit t'))
          else Some ([], s)
      | [] \<Rightarrow> Some ([], s))"

definition read_unsigned :: "string \<Rightarrow> (string \<times> string) option" where
  "read_unsigned s =
     (case s of
        [] \<Rightarrow> None
      | c # cs \<Rightarrow>
          if \<not> is_digit c then None
          else if c = CHR ''0'' then Some ([c], cs)
          else Some (takeWhile is_digit s, dropWhile is_digit s))"

definition read_number :: "string \<Rightarrow> (string \<times> string) option" where
  "read_number s =
     (let (m, t) = (if s \<noteq> [] \<and> hd s = CHR ''-'' then ([hd s], tl s) else ([], s))
      in do {
        (i, t) \<leftarrow> read_unsigned t;
        (f, t) \<leftarrow> read_fraction t;
        (e, t) \<leftarrow> read_exponent t;
        Some (m @ i @ f @ e, t)
      })"

section \<open>Values (sections 2 to 5)\<close>

definition is_ws :: "char \<Rightarrow> bool" where
  "is_ws c \<longleftrightarrow> c = CHR '' '' \<or> c = CHR 0x09 \<or> c = CHR 0x0A \<or> c = CHR 0x0D"

definition skip_ws :: "string \<Rightarrow> string" where
  "skip_ws = dropWhile is_ws"

text \<open>The next token has to be this character.\<close>

definition expect :: "char \<Rightarrow> string \<Rightarrow> string option" where
  "expect c s = (case skip_ws s of [] \<Rightarrow> None | d # ds \<Rightarrow> if d = c then Some ds else None)"

text \<open>
  The fuel bounds the nesting and the number of members; one more than twice the length of the
  text is always enough (\<open>read_fuel\<close> below).
\<close>

fun read_value :: "nat \<Rightarrow> string \<Rightarrow> (json \<times> string) option"
  and read_members :: "nat \<Rightarrow> string \<Rightarrow> ((string \<times> json) list \<times> string) option"
  and read_elements :: "nat \<Rightarrow> string \<Rightarrow> (json list \<times> string) option" where
  "read_value 0 s = None"
| "read_value (Suc n) s =
     (case skip_ws s of
        [] \<Rightarrow> None
      | c # cs \<Rightarrow>
          if c = quote then map_option (\<lambda>(v, r). (JsString v, r)) (read_chars cs)
          else if c = CHR ''{'' then
            (case expect (CHR ''}'') cs of
               Some r \<Rightarrow> Some (JsObject [], r)
             | None \<Rightarrow> map_option (\<lambda>(v, r). (JsObject v, r)) (read_members n cs))
          else if c = CHR ''['' then
            (case expect (CHR '']'') cs of
               Some r \<Rightarrow> Some (JsArray [], r)
             | None \<Rightarrow> map_option (\<lambda>(v, r). (JsArray v, r)) (read_elements n cs))
          else if prefix ''true'' (c # cs) then Some (JsBool True, drop 4 (c # cs))
          else if prefix ''false'' (c # cs) then Some (JsBool False, drop 5 (c # cs))
          else if prefix ''null'' (c # cs) then Some (JsNull, drop 4 (c # cs))
          else map_option (\<lambda>(v, r). (JsNumber v, r)) (read_number (c # cs)))"
| "read_members 0 s = None"
| "read_members (Suc n) s =
     do {
       s \<leftarrow> expect quote s;
       (k, s) \<leftarrow> read_chars s;
       s \<leftarrow> expect (CHR '':'') s;
       (v, s) \<leftarrow> read_value n s;
       case expect (CHR '','') s of
         Some r \<Rightarrow> map_option (\<lambda>(kvs, r). ((k, v) # kvs, r)) (read_members n r)
       | None \<Rightarrow> map_option (\<lambda>r. ([(k, v)], r)) (expect (CHR ''}'') s)
     }"
| "read_elements 0 s = None"
| "read_elements (Suc n) s =
     do {
       (v, s) \<leftarrow> read_value n s;
       case expect (CHR '','') s of
         Some r \<Rightarrow> map_option (\<lambda>(vs, r). (v # vs, r)) (read_elements n r)
       | None \<Rightarrow> map_option (\<lambda>r. ([v], r)) (expect (CHR '']'') s)
     }"

definition read_json :: "string \<Rightarrow> json option" where
  "read_json s =
     (case read_value (Suc (2 * length s)) s of
        None \<Rightarrow> None
      | Some (v, r) \<Rightarrow> if skip_ws r = [] then Some v else None)"

section \<open>The fuel is enough\<close>

lemma length_skip_ws: "length (skip_ws s) \<le> length s"
  by (simp add: skip_ws_def length_dropWhile_le)

lemma skip_ws_Cons_shorter: "skip_ws s = c # cs \<Longrightarrow> length cs < length s"
  using length_skip_ws [of s] by simp

lemma expect_shorter: "expect c s = Some r \<Longrightarrow> length r < length s"
  by (auto simp: expect_def split: list.splits if_splits dest: skip_ws_Cons_shorter)

lemma read_unsigned_shorter: "read_unsigned s = Some (x, r) \<Longrightarrow> length r < length s"
  by (auto simp: read_unsigned_def length_dropWhile_le le_imp_less_Suc split: list.splits if_splits)

lemma read_fraction_shorter: "read_fraction s = Some (x, r) \<Longrightarrow> length r \<le> length s"
  by (auto simp: read_fraction_def intro: le_SucI length_dropWhile_le split: list.splits if_splits)

lemma read_exponent_shorter: "read_exponent s = Some (x, r) \<Longrightarrow> length r \<le> length s"
  by (auto simp: read_exponent_def intro: le_SucI length_dropWhile_le split: list.splits if_splits)

lemma read_number_shorter: "read_number s = Some (x, r) \<Longrightarrow> length r < length s"
  by (cases s) (fastforce simp: read_number_def Let_def split: bind_splits if_splits
    dest!: read_unsigned_shorter read_fraction_shorter read_exponent_shorter)+

declare read_value.simps [simp del] read_members.simps [simp del] read_elements.simps [simp del]

lemma read_zero [simp]: "read_value 0 s = None" "read_members 0 s = None" "read_elements 0 s = None"
  by (simp_all add: read_value.simps read_members.simps read_elements.simps)

lemma read_value_cases:
  assumes "read_value (Suc n) s = Some (v, r)"
  obtains c cs where "skip_ws s = c # cs"
    and "(\<exists>x. read_chars cs = Some (x, r)) \<or> expect (CHR ''}'') cs = Some r \<or> (\<exists>x. read_members n cs = Some (x, r))
      \<or> expect (CHR '']'') cs = Some r \<or> (\<exists>x. read_elements n cs = Some (x, r))
      \<or> r = drop 4 (c # cs) \<or> r = drop 5 (c # cs) \<or> (\<exists>x. read_number (c # cs) = Some (x, r))"
  using assms by (fastforce simp: read_value.simps(2) split: list.splits if_splits option.splits)

lemma read_members_cases:
  assumes "read_members (Suc n) s = Some (kvs, r)"
  obtains s1 k s2 s3 v s4 where "expect quote s = Some s1" and "read_chars s1 = Some (k, s2)"
    and "expect (CHR '':'') s2 = Some s3" and "read_value n s3 = Some (v, s4)"
    and "(\<exists>s5 x. expect (CHR '','') s4 = Some s5 \<and> read_members n s5 = Some (x, r)) \<or> expect (CHR ''}'') s4 = Some r"
  using assms by (fastforce simp: read_members.simps(2) split: bind_splits option.splits)

lemma read_elements_cases:
  assumes "read_elements (Suc n) s = Some (vs, r)"
  obtains v s4 where "read_value n s = Some (v, s4)"
    and "(\<exists>s5 x. expect (CHR '','') s4 = Some s5 \<and> read_elements n s5 = Some (x, r)) \<or> expect (CHR '']'') s4 = Some r"
  using assms by (fastforce simp: read_elements.simps(2) split: bind_splits option.splits)

lemma read_shorter:
  "(\<forall>s v r. read_value n s = Some (v, r) \<longrightarrow> length r < length s)
   \<and> (\<forall>s kvs r. read_members n s = Some (kvs, r) \<longrightarrow> length r < length s)
   \<and> (\<forall>s vs r. read_elements n s = Some (vs, r) \<longrightarrow> length r < length s)"
proof (induction n)
  case (Suc n)
  have v: "length r < length s" if "read_value (Suc n) s = Some (v, r)" for s v r
  proof -
    from that obtain c cs where s: "skip_ws s = c # cs"
      and cs: "(\<exists>x. read_chars cs = Some (x, r)) \<or> expect (CHR ''}'') cs = Some r \<or> (\<exists>x. read_members n cs = Some (x, r))
      \<or> expect (CHR '']'') cs = Some r \<or> (\<exists>x. read_elements n cs = Some (x, r))
      \<or> r = drop 4 (c # cs) \<or> r = drop 5 (c # cs) \<or> (\<exists>x. read_number (c # cs) = Some (x, r))"
      by (rule read_value_cases)
    have "length r < length (c # cs)"
      using cs Suc.IH by (auto dest: read_chars_shorter expect_shorter read_number_shorter less_trans intro: less_SucI)
    with length_skip_ws [of s] s show ?thesis by simp
  qed
  have m: "length r < length s" if "read_members (Suc n) s = Some (kvs, r)" for s kvs r
    using that by (rule read_members_cases)
      (use Suc.IH in \<open>fastforce dest!: expect_shorter read_chars_shorter\<close>)
  have e: "length r < length s" if "read_elements (Suc n) s = Some (vs, r)" for s vs r
    using that by (rule read_elements_cases) (use Suc.IH in \<open>fastforce dest!: expect_shorter\<close>)
  from v m e show ?case by blast
qed simp

lemmas read_value_shorter = read_shorter [THEN conjunct1, rule_format]

lemma read_cong:
  assumes "\<And>t. length t < length s \<Longrightarrow> read_value m t = read_value n t
     \<and> read_members m t = read_members n t \<and> read_elements m t = read_elements n t"
  shows "read_value (Suc m) s = read_value (Suc n) s"
    and "read_members (Suc m) s = read_members (Suc n) s"
    and "read_value m s = read_value n s \<Longrightarrow> read_elements (Suc m) s = read_elements (Suc n) s"
proof -
  note short = expect_shorter read_chars_shorter read_value_shorter
  show "read_value (Suc m) s = read_value (Suc n) s"
    using skip_ws_Cons_shorter [of s] assms by (auto simp: read_value.simps(2) split: list.split option.split)
  show "read_members (Suc m) s = read_members (Suc n) s"
    unfolding read_members.simps(2)
    by (intro Option.bind_cong refl) (auto dest!: short simp: assms intro!: Option.bind_cong split: option.split)
  show "read_elements (Suc m) s = read_elements (Suc n) s" if "read_value m s = read_value n s"
    unfolding read_elements.simps(2) that
    by (intro Option.bind_cong refl) (auto dest!: short simp: assms split: option.split)
qed

lemma read_fuel_Suc:
  "(\<forall>s. 2 * length s < n \<longrightarrow> read_value (Suc n) s = read_value n s \<and> read_members (Suc n) s = read_members n s)
   \<and> (\<forall>s. 2 * length s + 1 < n \<longrightarrow> read_elements (Suc n) s = read_elements n s)"
proof (induction n)
  case (Suc n)
  have less: "read_value (Suc n) t = read_value n t \<and> read_members (Suc n) t = read_members n t
     \<and> read_elements (Suc n) t = read_elements n t" if "length t < length s" "2 * length s < Suc n" for s t :: string
    using Suc.IH that by auto
  have "read_value (Suc (Suc n)) s = read_value (Suc n) s \<and> read_members (Suc (Suc n)) s = read_members (Suc n) s"
    if "2 * length s < Suc n" for s
    using read_cong(1,2) [of s "Suc n" n] less that by blast
  moreover have "read_elements (Suc (Suc n)) s = read_elements (Suc n) s" if "2 * length s + 1 < Suc n" for s
    using read_cong(3) [of s "Suc n" n] less [of _ s] Suc.IH that by simp
  ultimately show ?case by blast
qed simp

text \<open>More fuel than that changes nothing, so the reader never fails for want of fuel.\<close>

lemma read_fuel_add: "2 * length s < n \<Longrightarrow> read_value (n + k) s = read_value n s"
proof (induction k)
  case (Suc k)
  then show ?case using read_fuel_Suc [of "n + k"] by simp
qed simp

lemma read_fuel: "2 * length s < n \<Longrightarrow> read_value n s = read_value (Suc (2 * length s)) s"
  using read_fuel_add [of s "Suc (2 * length s)" "n - Suc (2 * length s)"] by simp

lemma read_members_fuel:
  assumes "2 * length s < n"
  shows "read_members n s = read_members (Suc (2 * length s)) s"
proof -
  have "read_members (Suc (2 * length s) + k) s = read_members (Suc (2 * length s)) s" for k
  proof (induction k)
    case (Suc k)
    then show ?case using read_fuel_Suc [of "Suc (2 * length s) + k"] by simp
  qed simp
  from this [of "n - Suc (2 * length s)"] assms show ?thesis by simp
qed

section \<open>What stands between two quotes\<close>

text \<open>The value of a string literal with this text between its quotes, if it is a string literal.\<close>

definition string_value :: "string \<Rightarrow> string option" where
  "string_value s = (case read_chars (s @ [quote]) of Some (v, []) \<Rightarrow> Some v | _ \<Rightarrow> None)"

definition clean :: "string \<Rightarrow> bool" where
  "clean s \<longleftrightarrow> (\<forall>c \<in> set s. c \<noteq> quote \<and> c \<noteq> backslash \<and> \<not> is_control c)"

lemma is_control_chars [simp]:
  "\<not> is_control quote" "\<not> is_control backslash" "is_control (CHR 0x0A)" "is_control (CHR 0x0D)" "is_control (CHR 0x09)"
  by (simp_all add: is_control_def)

lemma hex_val_quote [simp]: "hex_val quote = None"
  by (simp add: hex_val_def Let_def)

lemma read_hex4_quote:
  "quote \<notin> set s \<Longrightarrow> read_hex4 (s @ quote # t) = map_option (\<lambda>(u, r). (u, r @ quote # t)) (read_hex4 s)"
proof -
  consider "s = []" | a where "s = [a]" | a b where "s = [a, b]" | a b c where "s = [a, b, c]"
    | a b c d r where "s = a # b # c # d # r"
    by (metis list.exhaust)
  then show ?thesis by cases (auto simp: read_hex4_def split: bind_splits list.split)
qed

lemma read_hex4_set: "read_hex4 s = Some (u, r) \<Longrightarrow> set r \<subseteq> set s"
  by (auto simp: read_hex4_def split: list.splits bind_splits)

lemma read_unicode_quote:
  assumes "quote \<notin> set s"
  shows "read_unicode (s @ quote # t) = map_option (\<lambda>(u, r). (u, r @ quote # t)) (read_unicode s)"
proof (cases "read_hex4 s")
  case None
  then show ?thesis by (simp add: read_unicode_def read_hex4_quote [OF assms])
next
  case (Some ur)
  obtain u r where ur: "ur = (u, r)" by (cases ur)
  have q: "quote \<notin> set r" using read_hex4_set [of s u r] Some ur assms by auto
  consider "r = []" | b where "r = [b]" | b c r' where "r = b # c # r'" by (metis list.exhaust)
  then show ?thesis
  proof cases
    case 3
    with q have "quote \<notin> set r'" by simp
    with 3 Some ur show ?thesis
      by (auto simp: read_unicode_def read_hex4_quote [OF assms] read_hex4_quote split: bind_splits)
  qed (use Some ur in \<open>auto simp: read_unicode_def read_hex4_quote [OF assms] split: list.split\<close>)
qed

lemma read_unicode_set: "read_unicode s = Some (x, r) \<Longrightarrow> set r \<subseteq> set s"
  by (fastforce simp: read_unicode_def split: list.splits bind_splits if_splits dest!: read_hex4_set)

lemma read_unit_set: "read_unit s = Some (x, r) \<Longrightarrow> set r \<subseteq> set s"
  by (fastforce simp: read_unit_def split: list.splits if_splits dest!: read_unicode_set)

lemma read_unit_quote:
  assumes "s \<noteq> []" and "quote \<notin> set s"
  shows "read_unit (s @ quote # t) =
     (if s = [backslash] then Some ([quote], t) else map_option (\<lambda>(x, r). (x, r @ quote # t)) (read_unit s))"
proof -
  obtain c cs where s: "s = c # cs" using assms(1) by (cases s) auto
  show ?thesis
  proof (cases "c = backslash \<and> cs \<noteq> []")
    case True
    then obtain d ds where "cs = d # ds" by (cases cs) auto
    with True s assms(2) show ?thesis
      by (auto simp: read_unit_def read_unicode_quote option.map_comp comp_def)
  next
    case False
    with s assms(2) show ?thesis by (auto simp: read_unit_def simple_escape_def)
  qed
qed

lemma read_chars_bsquote:
  "read_chars (backslash # quote # t) = map_option (\<lambda>(v, r). (quote # v, r)) (read_chars t)"
  by (subst read_chars_unit) (simp_all add: read_unit_def simple_escape_def)

text \<open>
  A valid inside is read as its value. An invalid one is either refused, or it swallows the closing
  quote; then the literal ends at the next quote, here the opening one of the key that follows.
\<close>

lemma read_chars_quoted:
  assumes "quote \<notin> set s"
  shows "(\<forall>v rest. string_value s = Some v \<longrightarrow> read_chars (s @ quote # rest) = Some (v, rest))
     \<and> (string_value s = None \<longrightarrow> (\<forall>rest. read_chars (s @ quote # CHR '','' # quote # rest) = None
          \<or> (\<exists>v. read_chars (s @ quote # CHR '','' # quote # rest) = Some (v, rest))))"
  using assms
proof (induction s rule: length_induct)
  case (1 s)
  show ?case
  proof (cases "s = []")
    case True
    then show ?thesis by (simp add: string_value_def)
  next
    case ne: False
    then have hd: "s @ quote # t = [] \<or> hd (s @ quote # t) \<noteq> quote" for t
      using "1.prems" by (cases s) auto
    note unit = read_chars_unit [OF hd] read_unit_quote [OF ne "1.prems"]
    show ?thesis
    proof (cases "s = [backslash]")
      case True
      have "read_chars (CHR '','' # quote # r) = Some ('','', r)" for r
        by (subst read_chars_unit) (simp_all add: read_unit_def is_control_def)
      with True show ?thesis by (simp add: string_value_def read_chars_bsquote)
    next
      case nb: False
      show ?thesis
      proof (cases "read_unit s")
        case None
        with nb show ?thesis by (simp add: string_value_def unit)
      next
        case (Some xr)
        obtain x r where xr: "xr = (x, r)" by (cases xr)
        have r: "length r < length s" "quote \<notin> set r"
          using read_unit_shorter [of s x r] read_unit_set [of s x r] Some xr "1.prems" by auto
        have rd: "read_chars (s @ quote # t) = map_option (\<lambda>(v, rest). (x @ v, rest)) (read_chars (r @ quote # t))" for t
          using nb Some xr by (simp add: unit)
        have v: "string_value s = map_option (\<lambda>v. x @ v) (string_value r)"
          using rd [of "[]"] by (auto simp: string_value_def split: option.split list.split)
        from "1.IH" r have "(\<forall>v rest. string_value r = Some v \<longrightarrow> read_chars (r @ quote # rest) = Some (v, rest))
           \<and> (string_value r = None \<longrightarrow> (\<forall>rest. read_chars (r @ quote # CHR '','' # quote # rest) = None
              \<or> (\<exists>v. read_chars (r @ quote # CHR '','' # quote # rest) = Some (v, rest))))" by blast
        then show ?thesis unfolding v rd by auto
      qed
    qed
  qed
qed

lemma read_chars_valid: "quote \<notin> set s \<Longrightarrow> string_value s = Some v \<Longrightarrow> read_chars (s @ quote # rest) = Some (v, rest)"
  using read_chars_quoted [of s] by blast

lemma read_chars_invalid:
  assumes "quote \<notin> set s" and "string_value s = None"
  shows "read_chars (s @ quote # CHR '','' # quote # rest) = None
    \<or> (\<exists>v. read_chars (s @ quote # CHR '','' # quote # rest) = Some (v, rest))"
  using read_chars_quoted [OF assms(1)] assms(2) by blast

lemma read_chars_plain:
  "c \<noteq> quote \<Longrightarrow> c \<noteq> backslash \<Longrightarrow> \<not> is_control c \<Longrightarrow>
   read_chars (c # s) = map_option (\<lambda>(v, rest). (c # v, rest)) (read_chars s)"
  by (subst read_chars_unit) (simp_all add: read_unit_def)

lemma read_chars_clean: "clean s \<Longrightarrow> read_chars (s @ t) = map_option (\<lambda>(v, rest). (s @ v, rest)) (read_chars t)"
  by (induction s) (auto simp: clean_def read_chars_plain option.map_comp comp_def case_prod_unfold option.map_ident)

lemma string_value_clean: "clean s \<Longrightarrow> string_value s = Some s"
  by (simp add: string_value_def read_chars_clean)

text \<open>A text that ends in one backslash is not the inside of a string.\<close>

lemma string_value_backslash: "clean s \<Longrightarrow> string_value (s @ [backslash]) = None"
proof -
  assume "clean s"
  moreover have "read_chars [backslash, quote] = None"
    by (subst read_chars_unit) (simp_all add: read_unit_def simple_escape_def)
  ultimately show ?thesis by (simp add: string_value_def read_chars_clean)
qed

text \<open>The SQL service's escaper makes every text valid that has no control character but the three it knows.\<close>

definition escapable :: "string \<Rightarrow> bool" where
  "escapable s \<longleftrightarrow> (\<forall>c \<in> set s. is_control c \<longrightarrow> c = CHR 0x0A \<or> c = CHR 0x0D \<or> c = CHR 0x09)"

lemma read_chars_escape:
  "read_chars (json_escape s @ quote # rest) = (if escapable s then Some (s, rest) else None)"
proof (induction s)
  case Nil
  then show ?case by (simp add: escapable_def)
next
  case (Cons c s)
  have esc: "read_chars (backslash # d # t) = map_option (\<lambda>(v, r). (e # v, r)) (read_chars t)"
    if "simple_escape d = Some e" "d \<noteq> CHR ''u''" for d e t
    using that by (subst read_chars_unit) (simp_all add: read_unit_def)
  show ?case
  proof (cases "c = quote \<or> c = backslash \<or> c = CHR 0x0A \<or> c = CHR 0x0D \<or> c = CHR 0x09")
    case True
    then show ?thesis
      using Cons by (auto simp: esc simple_escape_def escapable_def)
  next
    case False
    show ?thesis
    proof (cases "is_control c")
      case True
      with False have "read_chars (c # t) = None" for t
        by (subst read_chars_unit) (simp_all add: read_unit_def)
      with False True show ?thesis by (auto simp: escapable_def)
    next
      case nc: False
      with False Cons show ?thesis by (auto simp: read_chars_plain escapable_def)
    qed
  qed
qed

section \<open>Numbers\<close>

definition is_number :: "string \<Rightarrow> bool" where
  "is_number s \<longleftrightarrow> read_number s = Some (s, [])"

definition number_end :: "char \<Rightarrow> bool" where
  "number_end c \<longleftrightarrow> \<not> is_digit c \<and> c \<notin> set ''.eE+-''"

lemma takeWhile_stop: "\<not> P c \<Longrightarrow> takeWhile P (s @ c # t) = takeWhile P s"
  by (induction s) auto

lemma dropWhile_stop: "\<not> P c \<Longrightarrow> dropWhile P (s @ c # t) = dropWhile P s @ c # t"
  by (induction s) auto

lemma read_number_end:
  assumes "number_end c"
  shows "read_number (s @ c # t) = map_option (\<lambda>(x, r). (x, r @ c # t)) (read_number s)"
proof -
  note stop = takeWhile_stop [of is_digit] dropWhile_stop [of is_digit]
  have c: "\<not> is_digit c" "c \<noteq> CHR ''.''" "c \<noteq> CHR ''e''" "c \<noteq> CHR ''E''" "c \<noteq> CHR ''+''" "c \<noteq> CHR ''-''"
    using assms by (simp_all add: number_end_def)
  have u: "read_unsigned (s @ c # t) = map_option (\<lambda>(x, r). (x, r @ c # t)) (read_unsigned s)" for s
    using c by (cases s) (simp_all add: read_unsigned_def stop)
  have u0: "read_unsigned (c # t) = None" "read_unsigned [] = None" and
    uc: "read_unsigned (a # as @ c # t) = map_option (\<lambda>(x, r). (x, r @ c # t)) (read_unsigned (a # as))" for a as
    using u [of "[]"] u [of "a # as"] by (simp_all add: read_unsigned_def)
  have f: "read_fraction (s @ c # t) = map_option (\<lambda>(x, r). (x, r @ c # t)) (read_fraction s)" for s
    using c by (cases s) (simp_all add: read_fraction_def stop)
  have e: "read_exponent (s @ c # t) = map_option (\<lambda>(x, r). (x, r @ c # t)) (read_exponent s)" for s
  proof (cases s)
    case (Cons d ds)
    then show ?thesis using c by (cases ds) (auto simp: read_exponent_def stop)
  qed (use c in \<open>simp add: read_exponent_def\<close>)
  show ?thesis
    using c by (cases s) (auto simp: read_number_def u u0 uc f e bind_map_option map_option_bind comp_def case_prod_unfold
        Let_def intro!: Option.bind_cong)
qed

lemma read_number_split: "read_number s = Some (x, r) \<Longrightarrow> s = x @ r"
proof -
  have u: "read_unsigned s = Some (x, r) \<Longrightarrow> s = x @ r" for s x r
    by (auto simp: read_unsigned_def split: list.splits if_splits)
  have f: "read_fraction s = Some (x, r) \<Longrightarrow> s = x @ r" for s x r
    by (auto simp: read_fraction_def split: list.splits if_splits)
  have e: "read_exponent s = Some (x, r) \<Longrightarrow> s = x @ r" for s x r
    by (auto simp: read_exponent_def split: list.splits if_splits)
  show "read_number s = Some (x, r) \<Longrightarrow> s = x @ r"
    by (cases s) (auto simp: read_number_def Let_def split: bind_splits if_splits dest!: u f e)
qed

text \<open>A text of digits, points and signs that is not a number leaves one of its characters behind.\<close>

lemma not_number_leaves:
  assumes "\<forall>c \<in> set s. is_numeric c" and "\<not> is_number s" and "read_number s = Some (x, r)"
  shows "\<exists>d ds. r = d # ds \<and> is_numeric d"
proof (cases r)
  case Nil
  with read_number_split [OF assms(3)] assms(2,3) show ?thesis by (simp add: is_number_def)
next
  case (Cons d ds)
  with read_number_split [OF assms(3)] assms(1) show ?thesis by simp
qed

end
