(* ===== verification/Json_Responses.thy ===== *)
theory Json_Responses
  imports Json_Text Trade_Service Sql_Service Position_Service
begin

text \<open>
  What a client with a standard JSON parser (\<open>read_json\<close>) gets from the responses of the order, SQL and
  position services: the exact condition under which a response is JSON at all, and its value then.
\<close>

section \<open>Flat objects\<close>

definition val_json :: "jval \<Rightarrow> json option" where
  "val_json v =
     (case v of
        JStr s \<Rightarrow> map_option JsString (string_value s)
      | JRaw s \<Rightarrow> if is_number s then Some (JsNumber s) else None)"

fun fields_json :: "(string \<times> jval) list \<Rightarrow> (string \<times> json) list option" where
  "fields_json [] = Some []"
| "fields_json ((k, v) # fs) =
     do {
       j \<leftarrow> val_json v;
       js \<leftarrow> fields_json fs;
       Some ((k, j) # js)
     }"

definition key_text :: "string \<Rightarrow> bool" where
  "key_text k \<longleftrightarrow> clean k \<and> k \<noteq> [] \<and> \<not> is_ws (hd k) \<and> \<not> field_stop (hd k)"

fun printed :: "string \<times> jval \<Rightarrow> bool" where
  "printed (k, JStr s) \<longleftrightarrow> key_text k \<and> quote \<notin> set s"
| "printed (k, JRaw s) \<longleftrightarrow> key_text k \<and> s \<noteq> [] \<and> (\<forall>c \<in> set s. is_numeric c)"

lemma expect_Cons: "\<not> is_ws d \<Longrightarrow> expect c (d # s) = (if d = c then Some s else None)"
  by (simp add: expect_def skip_ws_def)

lemma skip_ws_Cons [simp]: "\<not> is_ws d \<Longrightarrow> skip_ws (d # s) = d # s"
  by (simp add: skip_ws_def)

lemma numeric_token:
  "is_numeric d \<Longrightarrow> \<not> is_ws d \<and> d \<noteq> quote \<and> d \<noteq> CHR ''{'' \<and> d \<noteq> CHR ''['' \<and> d \<noteq> CHR '','' \<and> d \<noteq> CHR ''}''
     \<and> d \<noteq> CHR ''t'' \<and> d \<noteq> CHR ''f'' \<and> d \<noteq> CHR ''n''"
  by (auto simp: is_numeric_def is_digit_def is_ws_def)

lemma read_value_string: "read_value (Suc n) (quote # s) = map_option (\<lambda>(v, r). (JsString v, r)) (read_chars s)"
  by (simp add: read_value.simps(2) is_ws_def)

lemma read_value_number:
  assumes "s \<noteq> []" and "\<forall>d \<in> set s. is_numeric d" and "number_end c"
  shows "read_value (Suc n) (s @ c # t) = map_option (\<lambda>(v, r). (JsNumber v, r @ c # t)) (read_number s)"
proof -
  obtain d ds where s: "s = d # ds" using assms(1) by (cases s) auto
  with assms(2) have "is_numeric d" by simp
  from numeric_token [OF this] read_number_end [OF assms(3), of s t] s show ?thesis
    by (auto simp: read_value.simps(2) option.map_comp comp_def case_prod_unfold)
qed

lemma read_value_object:
  "expect (CHR ''}'') s = None \<Longrightarrow>
   read_value (Suc n) (CHR ''{'' # s) = map_option (\<lambda>(v, r). (JsObject v, r)) (read_members n s)"
  by (simp add: read_value.simps(2) is_ws_def)

lemma number_end_stop: "field_stop c \<Longrightarrow> number_end c"
  by (auto simp: number_end_def field_stop_def is_digit_def)

text \<open>The value of one field, when it is valid, and when it is not and another field follows.\<close>

lemma read_value_valid:
  assumes "printed (k, v)" and "val_json v = Some j" and "field_stop c"
  shows "read_value (Suc n) (render_val v @ c # t) = Some (j, c # t)"
proof (cases v)
  case (JStr s)
  with assms(1,2) show ?thesis
    by (auto simp: val_json_def read_value_string read_chars_valid)
next
  case (JRaw s)
  with assms(2) have "read_number s = Some (s, [])" "j = JsNumber s"
    by (auto simp: val_json_def is_number_def split: if_splits)
  with JRaw assms(1) show ?thesis by (simp add: read_value_number number_end_stop [OF assms(3)])
qed

lemma read_value_invalid:
  assumes "printed (k, v)" and "val_json v = None" and "key_text k'"
  shows "read_value (Suc n) (render_val v @ CHR '','' # quote # k' @ t) = None
     \<or> (\<exists>x d ds. read_value (Suc n) (render_val v @ CHR '','' # quote # k' @ t) = Some (x, d # ds)
          \<and> \<not> is_ws d \<and> \<not> field_stop d)"
proof (cases v)
  case (JStr s)
  with assms(1,2) have "quote \<notin> set s" "string_value s = None" by (auto simp: val_json_def)
  from read_chars_invalid [OF this, of "k' @ t"] assms(3) JStr show ?thesis
    by (cases k') (auto simp: read_value_string key_text_def)
next
  case (JRaw s)
  with assms have s: "s \<noteq> []" "\<forall>c \<in> set s. is_numeric c" "\<not> is_number s" "number_end (CHR '','')"
    by (auto simp: val_json_def number_end_def is_digit_def split: if_splits)
  show ?thesis
  proof (cases "read_number s")
    case None
    with JRaw s show ?thesis by (simp add: read_value_number)
  next
    case (Some xr)
    obtain x r where "xr = (x, r)" by (cases xr)
    with Some not_number_leaves [OF s(2,3)] obtain d ds where r: "read_number s = Some (x, d # ds)" "is_numeric d"
      by blast
    with numeric_token [OF r(2)] JRaw s show ?thesis by (simp add: read_value_number field_stop_def)
  qed
qed

lemma expect_quote: "expect quote (quote # s) = Some s"
  by (simp add: expect_Cons is_ws_def)

lemma read_members_field:
  assumes "key_text k"
  shows "read_members (Suc n) (render_field (k, v) @ t) =
     do {
       (j, s) \<leftarrow> read_value n (render_val v @ t);
       case expect (CHR '','') s of
         Some r \<Rightarrow> map_option (\<lambda>(kvs, r). ((k, j) # kvs, r)) (read_members n r)
       | None \<Rightarrow> map_option (\<lambda>r. ([(k, j)], r)) (expect (CHR ''}'') s)
     }"
proof -
  have "read_chars (k @ quote # s) = Some (k, s)" for s
    using assms by (simp add: read_chars_clean key_text_def)
  moreover have "expect (CHR '':'') (CHR '':'' # s) = Some s" for s by (simp add: expect_Cons is_ws_def)
  ultimately show ?thesis by (simp add: read_members.simps(2) expect_quote)
qed

lemma read_members_printed:
  assumes "\<forall>g \<in> set (f # fs). printed g" and "val_json (snd (last (f # fs))) \<noteq> None" and "length (f # fs) < n"
  shows "read_members n (render_field f @ render_tail fs) = map_option (\<lambda>kvs. (kvs, [])) (fields_json (f # fs))"
  using assms
proof (induction fs arbitrary: f n)
  case Nil
  obtain k v where f: "f = (k, v)" by (cases f)
  obtain m where n: "n = Suc (Suc m)" using Nil.prems(3) by (auto simp: less_Suc_eq_le elim: less_natE intro: that dest!: less_imp_Suc_add)
  obtain j where j: "val_json v = Some j" using Nil.prems(2) f by auto
  have k: "key_text k" using Nil.prems(1) f by (cases v) auto
  have "read_value (Suc m) (render_val v @ CHR ''}'' # []) = Some (j, CHR ''}'' # [])"
    using Nil.prems(1) f j by (intro read_value_valid [of k]) (simp_all add: field_stop_def)
  then show ?case by (simp add: f n read_members_field [OF k] j expect_Cons is_ws_def del: render_field.simps)
next
  case (Cons g fs)
  obtain k v where f: "f = (k, v)" by (cases f)
  obtain k' v' where g: "g = (k', v')" by (cases g)
  obtain m where n: "n = Suc (Suc m)" using Cons.prems(3) by (metis Suc_less_eq2 length_Cons less_Suc_eq_0_disj not_less_eq Suc_lessE)
  have k: "key_text k" "key_text k'" using Cons.prems(1) f g by (cases v; cases v'; auto)+
  have tail: "render_tail (g # fs) = CHR '','' # quote # k' @ (quote # CHR '':'' # render_val v' @ render_tail fs)"
    by (simp add: g)
  show ?case
  proof (cases "val_json v")
    case None
    have "printed (k, v)" using Cons.prems(1) f by simp
    from read_value_invalid [OF this None k(2), of m "quote # CHR '':'' # render_val v' @ render_tail fs"]
    show ?thesis
      unfolding f n read_members_field [OF k(1)] tail
      by (elim disjE exE conjE) (simp_all add: None expect_Cons field_stop_def)
  next
    case (Some j)
    have "read_value (Suc m) (render_val v @ CHR '','' # (render_field g @ render_tail fs)) = Some (j, CHR '','' # (render_field g @ render_tail fs))"
      using Cons.prems(1) f Some by (intro read_value_valid [of k]) (simp_all add: field_stop_def)
    moreover have "read_members (Suc m) (render_field g @ render_tail fs) = map_option (\<lambda>kvs. (kvs, [])) (fields_json (g # fs))"
      using Cons.prems n by (intro Cons.IH) auto
    moreover have "fields_json ((k, v) # gs) = map_option (\<lambda>js. (k, j) # js) (fields_json gs)" for gs
      using Some by (cases "fields_json gs") simp_all
    ultimately show ?thesis
      unfolding f n read_members_field [OF k(1)]
      by (simp add: expect_Cons is_ws_def option.map_comp comp_def del: render_field.simps fields_json.simps)
  qed
qed

lemma length_render_tail: "length fs < length (render_tail fs)"
  by (induction fs) simp_all

lemma read_json_printed:
  assumes "\<forall>g \<in> set (f # fs). printed g" and "val_json (snd (last (f # fs))) \<noteq> None"
  shows "read_json (render_obj (f # fs)) = map_option JsObject (fields_json (f # fs))"
proof -
  let ?s = "render_obj (f # fs)"
  obtain k v where f: "f = (k, v)" by (cases f)
  have "expect (CHR ''}'') (render_field f @ render_tail fs) = None"
    by (simp add: f expect_Cons is_ws_def)
  moreover have "length (f # fs) < 2 * length ?s" using length_render_tail [of fs] by (simp add: f)
  ultimately have "read_value (Suc (2 * length ?s)) ?s =
      map_option (\<lambda>kvs. (JsObject kvs, [])) (fields_json (f # fs))"
    using read_members_printed [OF assms, of "2 * length ?s"]
    by (simp add: read_value.simps(2) is_ws_def option.map_comp comp_def)
  then show ?thesis by (simp add: read_json_def skip_ws_def split: option.split)
qed

section \<open>Order acknowledgements\<close>

lemma key_texts:
  "key_text ''order_id''" "key_text ''symbol''" "key_text ''side''" "key_text ''account''" "key_text ''qty''"
  "key_text ''price''" "key_text ''status''"
  by (simp_all add: key_text_def clean_def is_control_def is_ws_def field_stop_def)

lemma clean_order_id: "clean (order_id_str n)"
proof -
  have "c \<noteq> quote \<and> c \<noteq> backslash \<and> \<not> is_control c" if "is_digit c" for c
    using that by (auto simp: is_digit_def is_control_def)
  then have "clean (nat_str k)" for k using nat_str_digits [of k] by (auto simp: clean_def)
  then show ?thesis by (simp add: order_id_str_def clean_def is_control_def)
qed

lemma ack_json:
  assumes "clean side"
  shows "read_json (fst (build_order_ack g req side)) =
    do {
      symbol \<leftarrow> string_value (or_default ''UNKNOWN'' (extract_string req ''symbol''));
      account \<leftarrow> string_value (or_default ''N/A'' (extract_string req ''account''));
      if is_number (or_default ''0'' (extract_number req ''qty''))
         \<and> is_number (or_default ''0'' (extract_number req ''price''))
      then Some (JsObject
        [(''order_id'', JsString (order_id_str g)), (''symbol'', JsString symbol), (''side'', JsString side),
         (''account'', JsString account), (''qty'', JsNumber (or_default ''0'' (extract_number req ''qty''))),
         (''price'', JsNumber (or_default ''0'' (extract_number req ''price''))), (''status'', JsString ''FILLED'')])
      else None
    }"
proof -
  let ?sy = "or_default ''UNKNOWN'' (extract_string req ''symbol'')"
  let ?ac = "or_default ''N/A'' (extract_string req ''account'')"
  let ?q = "or_default ''0'' (extract_number req ''qty'')"
  let ?p = "or_default ''0'' (extract_number req ''price'')"
  have noq: "quote \<notin> set ?sy" "quote \<notin> set ?ac" "quote \<notin> set side" "quote \<notin> set (order_id_str g)"
    using assms by (auto simp: or_default_noquote extract_string_noquote clean_def)
  have ne: "?q \<noteq> []" "?p \<noteq> []" by (simp_all add: or_default_def)
  have filled: "string_value ''FILLED'' = Some ''FILLED''"
    by (rule string_value_clean) (simp add: clean_def is_control_def)
  have "read_json (render_obj (ack_fields (order_id_str g) ?sy side ?ac ?q ?p)) =
      map_option JsObject (fields_json (ack_fields (order_id_str g) ?sy side ?ac ?q ?p))"
    unfolding ack_fields_def
    by (rule read_json_printed)
      (use noq ne or_default_numeric in \<open>auto simp: key_texts val_json_def filled\<close>)
  then show ?thesis
    unfolding build_order_ack_obj fst_conv
    by (auto simp: ack_fields_def val_json_def filled string_value_clean [OF assms] string_value_clean [OF clean_order_id]
        map_option_bind bind_map_option comp_def intro!: Option.bind_cong split: option.split)
qed

text \<open>A symbol or an account that ends in a backslash swallows the quote behind it.\<close>

lemma ack_broken:
  assumes "clean side" and "clean s"
    and "extract_string req ''symbol'' = s @ [backslash] \<or> extract_string req ''account'' = s @ [backslash]"
  shows "read_json (fst (build_order_ack g req side)) = None"
proof -
  have "string_value (or_default d (s @ [backslash])) = None" for d
    using string_value_backslash [OF assms(2)] by (simp add: or_default_def)
  with assms(3) show ?thesis by (auto simp: ack_json [OF assms(1)] split: bind_splits)
qed

section \<open>SQL responses\<close>

definition sql_row :: "string \<Rightarrow> string \<Rightarrow> string \<Rightarrow> json" where
  "sql_row symbol price volume =
     JsObject [(''symbol'', JsString symbol), (''price'', JsNumber price), (''volume'', JsNumber volume)]"

definition sql_rows :: json where
  "sql_rows = JsArray [sql_row ''AAPL'' ''182.50'' ''52000000'', sql_row ''MSFT'' ''310.10'' ''28000000'',
     sql_row ''GOOGL'' ''140.75'' ''18000000'']"

lemma sql_json:
  assumes "extract_string req ''sql'' = sql" and "sql \<noteq> []"
  shows "read_json (handle_sql_query req) =
     (if escapable sql
      then Some (JsObject [(''rows'', sql_rows), (''affected'', JsNumber ''0''), (''query'', JsString sql)])
      else None)"
proof -
  let ?s = "handle_sql_query req"
  have s: "?s = sql_rows_json @ json_escape sql @ quote # ''}''" using assms by (simp add: handle_sql_query_def)
  have "20 \<le> 2 * length ?s" by (simp add: s length_sql_rows_json)
  then obtain m where m: "2 * length ?s = 20 + m" using le_Suc_ex by blast
  have "read_value (Suc (20 + m)) ?s =
     (if escapable sql
      then Some (JsObject [(''rows'', sql_rows), (''affected'', JsNumber ''0''), (''query'', JsString sql)], [])
      else None)"
    unfolding s sql_rows_json_def
    by (simp add: numeral_eq_Suc read_value.simps(2) read_members.simps(2) read_elements.simps(2) expect_Cons is_ws_def
        read_chars_plain is_control_def read_chars_escape sql_rows_def sql_row_def
        read_number_def read_unsigned_def read_fraction_def read_exponent_def is_digit_def)
  then show ?thesis by (simp add: read_json_def m skip_ws_def)
qed

section \<open>Position responses\<close>

definition position_row :: "string \<Rightarrow> string \<Rightarrow> string \<Rightarrow> string \<Rightarrow> string \<Rightarrow> json" where
  "position_row symbol qty avg_cost current pnl =
     JsObject [(''symbol'', JsString symbol), (''qty'', JsNumber qty), (''avg_cost'', JsNumber avg_cost),
       (''current'', JsNumber current), (''pnl'', JsNumber pnl)]"

definition position_rows :: json where
  "position_rows = JsArray [position_row ''AAPL'' ''500'' ''178.30'' ''182.50'' ''2100.00'',
     position_row ''MSFT'' ''200'' ''305.10'' ''310.10'' ''1000.00'',
     position_row ''GOOGL'' ''50'' ''138.20'' ''140.75'' ''127.50'']"

lemmas reader_simps = read_value.simps(2) read_members.simps(2) read_elements.simps(2) expect_Cons is_ws_def
  read_chars_plain is_control_def read_number_def read_unsigned_def read_fraction_def read_exponent_def is_digit_def

lemma position_members:
  "read_members (Suc (20 + m)) positions_json =
     Some ([(''positions'', position_rows), (''cash'', JsNumber ''12345.67'')], [])"
  by (simp add: positions_json_def numeral_eq_Suc reader_simps position_rows_def position_row_def)

lemma position_json:
  "read_json (handle_get_position req) =
     map_option (\<lambda>account. JsObject [(''account'', JsString account), (''positions'', position_rows),
         (''cash'', JsNumber ''12345.67'')])
       (string_value (or_default ''UNKNOWN'' (extract_string req ''account'')))"
proof -
  let ?s = "handle_get_position req"
  let ?a = "or_default ''UNKNOWN'' (extract_string req ''account'')"
  have q: "quote \<notin> set ?a" by (intro or_default_noquote extract_string_noquote) simp
  have s: "?s = CHR ''{'' # render_field (''account'', JStr ?a) @ CHR '','' # positions_json"
    by (simp add: handle_get_position_def or_default_def Let_def)
  have "22 \<le> 2 * length ?s" by (simp add: s positions_json_def)
  then obtain m where "2 * length ?s = 22 + m" using le_Suc_ex by blast
  then have m: "2 * length ?s = Suc (Suc (20 + m))" by simp
  obtain t where t: \<open>positions_json = quote # CHR ''p'' # t\<close> by (simp add: positions_json_def)
  have "expect (CHR ''}'') (render_field (''account'', JStr ?a) @ CHR '','' # positions_json) = None"
    by (simp add: expect_Cons is_ws_def)
  then have "read_value (Suc (2 * length ?s)) ?s =
      map_option (\<lambda>(v, r). (JsObject v, r))
        (read_members (Suc (Suc (20 + m))) (render_field (''account'', JStr ?a) @ CHR '','' # positions_json))"
    unfolding m unfolding s by (rule read_value_object)
  then have head: "read_value (Suc (2 * length ?s)) ?s =
      map_option (\<lambda>(v, r). (JsObject v, r))
        (do {
           (j, s) \<leftarrow> map_option (\<lambda>(v, r). (JsString v, r)) (read_chars (?a @ quote # CHR '','' # positions_json));
           case expect (CHR '','') s of
             Some r \<Rightarrow> map_option (\<lambda>(kvs, r). ((''account'', j) # kvs, r)) (read_members (Suc (20 + m)) r)
           | None \<Rightarrow> map_option (\<lambda>r. ([(''account'', j)], r)) (expect (CHR ''}'') s)
         })"
    by (simp only: read_members_field [OF key_texts(4)] render_val.simps append_Cons append_assoc append_Nil read_value_string)
  show ?thesis
  proof (cases "string_value ?a")
    case None
    from read_chars_invalid [OF q None, of "CHR ''p'' # t"] show ?thesis
      unfolding read_json_def head None by (elim disjE exE) (simp_all add: t expect_Cons is_ws_def)
  next
    case (Some v)
    show ?thesis
      unfolding read_json_def head read_chars_valid [OF q Some] Some
      by (simp add: expect_Cons is_ws_def position_members [simplified] skip_ws_def)
  qed
qed

section \<open>Properties\<close>

text \<open>C22: What a strict JSON parser makes of an order acknowledgement, for buys and sells and whatever the
  request was: it is JSON exactly when the symbol and the account extracted from the request are valid
  insides of string literals and the quantity and the price are JSON numbers (or defaults stand in),
  and then it is the object of the seven fields with those values, the number drawn and the side. It
  is refused in every other case: the handler escapes nothing.\<close>

theorem order_ack_is_json:
  "list_all (\<lambda>(handle, side).
      read_json (fst (handle g req)) =
        do {
          symbol \<leftarrow> string_value (or_default ''UNKNOWN'' (extract_string req ''symbol''));
          account \<leftarrow> string_value (or_default ''N/A'' (extract_string req ''account''));
          if is_number (or_default ''0'' (extract_number req ''qty''))
             \<and> is_number (or_default ''0'' (extract_number req ''price''))
          then Some (JsObject
            [(''order_id'', JsString (''ORD-'' @ nat_str (unat g))), (''symbol'', JsString symbol),
             (''side'', JsString side), (''account'', JsString account),
             (''qty'', JsNumber (or_default ''0'' (extract_number req ''qty''))),
             (''price'', JsNumber (or_default ''0'' (extract_number req ''price''))),
             (''status'', JsString ''FILLED'')])
          else None
        })
     [(handle_buy_order, ''BUY''), (handle_sell_order, ''SELL'')]"
proof -
  have "clean ''BUY''" "clean ''SELL''" by (simp_all add: clean_def is_control_def)
  then show ?thesis
    by (simp add: handle_buy_order_def handle_sell_order_def ack_json [unfolded order_id_str_def])
qed

text \<open>The text of an acknowledgement's field can be chosen so that no parser accepts it.\<close>

theorem order_ack_broken:
  assumes "clean s"
    and "extract_string req ''symbol'' = s @ [backslash] \<or> extract_string req ''account'' = s @ [backslash]"
  shows "read_json (fst (handle_buy_order g req)) = None \<and> read_json (fst (handle_sell_order g req)) = None"
proof -
  have "clean ''BUY''" "clean ''SELL''" by (simp_all add: clean_def is_control_def)
  then show ?thesis
    using ack_broken [OF _ assms] by (simp add: handle_buy_order_def handle_sell_order_def)
qed

theorem order_ack_broken_witness:
  "read_json (fst (handle_buy_order 1 (render_obj [(''symbol'', JStr (''A'' @ [backslash]))]))) = None
   \<and> read_json (fst (handle_sell_order 1 (render_obj [(''symbol'', JStr (''A'' @ [backslash]))]))) = None"
  by (rule order_ack_broken [of "''A''"], simp add: clean_def is_control_def, subst extract_string_obj)
    (simp_all add: good_key_def field_stop_def)

text \<open>C36: What a strict JSON parser makes of the response to a SQL request with a query: if the only
  control characters of the query are line feeds, carriage returns and tabs, it reads the three fixed
  rows, the count 0 and, as the text of the field \<open>query\<close>, exactly the query the handler extracted;
  with any other control character in the query the response is not JSON at all.\<close>

theorem sql_response_is_json:
  assumes "extract_string req ''sql'' = sql" and "sql \<noteq> []"
  shows "read_json (handle_sql_query req) =
     (if escapable sql
      then Some (JsObject [(''rows'', sql_rows), (''affected'', JsNumber ''0''), (''query'', JsString sql)])
      else None)"
  by (rule sql_json [OF assms])

theorem sql_response_is_json_witness:
  "read_json (handle_sql_query (render_obj [(''sql'', JStr [CHR ''a'', CHR 0x0A, backslash])])) =
     Some (JsObject [(''rows'', sql_rows), (''affected'', JsNumber ''0''), (''query'', JsString [CHR ''a'', CHR 0x0A, backslash])])
   \<and> read_json (handle_sql_query (render_obj [(''sql'', JStr [CHR ''a'', CHR 0x01])])) = None"
proof -
  have e: "extract_string (render_obj [(''sql'', JStr s)]) ''sql'' = s" if "quote \<notin> set s" for s
    using that by (rule extract_sql_request)
  have "escapable [CHR ''a'', CHR 0x0A, backslash]" "\<not> escapable [CHR ''a'', CHR 0x01]"
    by (simp_all add: escapable_def is_control_def)
  with sql_response_is_json [OF e [of "[CHR ''a'', CHR 0x0A, backslash]"]] sql_response_is_json [OF e [of "[CHR ''a'', CHR 0x01]"]]
  show ?thesis by simp
qed

text \<open>A position response is JSON exactly when the account it echoes is a valid inside of a literal.\<close>

theorem position_response_is_json:
  "read_json (handle_get_position req) =
     map_option (\<lambda>account. JsObject [(''account'', JsString account), (''positions'', position_rows),
         (''cash'', JsNumber ''12345.67'')])
       (string_value (or_default ''UNKNOWN'' (extract_string req ''account'')))"
  by (rule position_json)

end
