(* ===== verification/Load_Requests.thy ===== *)
theory Load_Requests
  imports Protocol Json_Fields Binary64
begin

text \<open>
  The request generator of \<^verbatim>\<open>load_generator/src/client_session.cpp\<close>: the 64-bit linear congruential
  generator, the scenario weights and \<open>next_request\<close>. The weights are \<open>int\<close>s from the command
  line; a sum of them that leaves the range of \<open>int\<close> is undefined in C++ and gives \<open>None\<close> here.
\<close>

section \<open>Scenario and random numbers\<close>

record scenario =
  weight_sql :: int
  weight_buy :: int
  weight_sell :: int
  weight_position :: int
  weight_price_history :: int

definition default_scenario :: scenario where
  "default_scenario =
     \<lparr>weight_sql = 20, weight_buy = 25, weight_sell = 25, weight_position = 20, weight_price_history = 10\<rparr>"

definition initial_rng :: "u32 \<Rightarrow> u64" where
  "initial_rng client_id = ucast client_id * 2654435761 + 1"

definition next_rand :: "u64 \<Rightarrow> u64" where
  "next_rand rng_state = rng_state * 6364136223846793005 + 1442695040888963407"

definition symbols :: "string list" where
  "symbols = [''AAPL'', ''MSFT'', ''GOOGL'', ''AMZN'', ''TSLA'']"

section \<open>Payloads\<close>

definition sql_payload :: "string \<Rightarrow> string" where
  \<open>sql_payload symb = ''{"sql":"SELECT symbol, price FROM quotes WHERE symbol='' @ [CHR 0x27] @ symb @
     [CHR 0x27] @ ''"}''\<close>

definition order_price :: "u64 \<Rightarrow> double" where
  "order_price r = rnd64 (100 + rnd64 (rnd64 (of_nat (unat (r mod 20000))) / 100))"

text \<open>The body of the two order branches, which are the same but for the message type.\<close>

definition order_payload :: "string \<Rightarrow> u64 \<Rightarrow> string \<times> u64" where
  \<open>order_payload symb rng =
     (let rng = next_rand rng;
          qty = 10 + int (unat (rng mod 491));
          rng = next_rand rng;
          price = order_price rng
      in (''{"symbol":"'' @ symb @ ''","qty":'' @ int_str qty @
          '',"price":'' @ fmt_g6 price @ '',"account":"ACC-001"}'', rng))\<close>

definition position_payload :: string where
  \<open>position_payload = ''{"account":"ACC-001"}''\<close>

definition history_payload :: "string \<Rightarrow> int \<Rightarrow> string" where
  \<open>history_payload symb days = ''{"symbol":"'' @ symb @ ''","days":'' @ int_str days @ ''}''\<close>

section \<open>The generator\<close>

definition int_range :: "int \<Rightarrow> bool" where
  "int_range x \<longleftrightarrow> - INT_MAX - 1 \<le> x \<and> x \<le> INT_MAX"

definition next_request :: "scenario \<Rightarrow> u64 \<Rightarrow> (message \<times> u64) option" where
  "next_request sc rng =
     (let t2 = weight_sql sc + weight_buy sc;
          t3 = t2 + weight_sell sc;
          t4 = t3 + weight_position sc;
          total = t4 + weight_price_history sc
      in if \<not> (int_range t2 \<and> int_range t3 \<and> int_range t4 \<and> int_range total) then None
         else Some
           (let total = (if total \<le> 0 then 1 else total);
                rng = next_rand rng;
                pick = uint rng mod total;
                rng = next_rand rng;
                symb = symbols ! unat (rng mod 5);
                threshold = weight_sql sc
            in if pick < threshold then (make_message (mt_code kSqlQuery) (sql_payload symb) 0, rng)
               else
                 (let threshold = threshold + weight_buy sc
                  in if pick < threshold then
                       (let (p, rng) = order_payload symb rng in (make_message (mt_code kBuyOrder) p 0, rng))
                     else
                       (let threshold = threshold + weight_sell sc
                        in if pick < threshold then
                             (let (p, rng) = order_payload symb rng
                              in (make_message (mt_code kSellOrder) p 0, rng))
                           else
                             (let threshold = threshold + weight_position sc
                              in if pick < threshold then
                                   (make_message (mt_code kGetPosition) position_payload 0, rng)
                                 else
                                   (let rng = next_rand rng;
                                        days = 7 + int (unat (rng mod 24))
                                    in (make_message (mt_code kGetPriceHistory)
                                          (history_payload symb days) 0, rng)))))))"

text \<open>Which branch is taken, and with which payload.\<close>

datatype request_kind = SqlReq | BuyReq | SellReq | PositionReq | HistoryReq

definition pick_of :: "scenario \<Rightarrow> u64 \<Rightarrow> int" where
  "pick_of sc rng =
     (let total = weight_sql sc + weight_buy sc + weight_sell sc + weight_position sc + weight_price_history sc
      in uint (next_rand rng) mod (if total \<le> 0 then 1 else total))"

definition kind_of :: "scenario \<Rightarrow> int \<Rightarrow> request_kind" where
  "kind_of sc pick =
     (if pick < weight_sql sc then SqlReq
      else if pick < weight_sql sc + weight_buy sc then BuyReq
      else if pick < weight_sql sc + weight_buy sc + weight_sell sc then SellReq
      else if pick < weight_sql sc + weight_buy sc + weight_sell sc + weight_position sc then PositionReq
      else HistoryReq)"

definition symbol_of :: "u64 \<Rightarrow> string" where
  "symbol_of rng = symbols ! unat (next_rand (next_rand rng) mod 5)"

definition weights_ok :: "scenario \<Rightarrow> bool" where
  "weights_ok sc \<longleftrightarrow>
     int_range (weight_sql sc + weight_buy sc)
     \<and> int_range (weight_sql sc + weight_buy sc + weight_sell sc)
     \<and> int_range (weight_sql sc + weight_buy sc + weight_sell sc + weight_position sc)
     \<and> int_range (weight_sql sc + weight_buy sc + weight_sell sc + weight_position sc + weight_price_history sc)"

definition request_of :: "request_kind \<Rightarrow> string \<Rightarrow> u64 \<Rightarrow> message \<times> u64" where
  "request_of k symb rng =
     (case k of
        SqlReq \<Rightarrow> (make_message (mt_code kSqlQuery) (sql_payload symb) 0, rng)
      | BuyReq \<Rightarrow>
          (make_message (mt_code kBuyOrder) (fst (order_payload symb rng)) 0, snd (order_payload symb rng))
      | SellReq \<Rightarrow>
          (make_message (mt_code kSellOrder) (fst (order_payload symb rng)) 0, snd (order_payload symb rng))
      | PositionReq \<Rightarrow> (make_message (mt_code kGetPosition) position_payload 0, rng)
      | HistoryReq \<Rightarrow>
          (make_message (mt_code kGetPriceHistory)
             (history_payload symb (7 + int (unat (next_rand rng mod 24)))) 0, next_rand rng))"

lemma next_request_eq:
  "next_request sc rng =
     (if weights_ok sc
      then Some (request_of (kind_of sc (pick_of sc rng)) (symbol_of rng) (next_rand (next_rand rng)))
      else None)"
  by (simp add: next_request_def weights_ok_def kind_of_def pick_of_def symbol_of_def request_of_def
      case_prod_unfold Let_def)

section \<open>The payloads are flat objects\<close>

lemma symbol_of_in: "symbol_of rng \<in> set symbols"
proof -
  have "unat (x mod 5 :: u64) < 5" for x
    by (simp add: unat_mod_distrib)
  moreover have "length symbols = 5" by (simp add: symbols_def)
  ultimately show ?thesis
    unfolding symbol_of_def by (metis nth_mem)
qed

lemma symbols_plain: "symb \<in> set symbols \<Longrightarrow> quote \<notin> set symb \<and> symb \<noteq> [] \<and> length symb \<le> 5"
  by (auto simp: symbols_def)

lemma order_price_range: "100 \<le> order_price r \<and> order_price r \<le> 300"
proof -
  define k where "k = unat (r mod 20000)"
  have k: "k < 20000" by (simp add: k_def unat_mod_distrib)
  have a: "rnd64 (of_nat k) = of_nat k"
    using k by (intro dbl.rnd_nat) simp
  have lo: "0 \<le> rnd64 (of_nat k / 100)"
    by (intro dbl.rnd_nonneg) simp
  have hi: "rnd64 (of_nat k / 100) \<le> of_nat 200"
    using k by (intro dbl.rnd_le dbl.rep_nat) (simp_all add: divide_le_eq)
  have "of_nat 100 \<le> order_price r"
    unfolding order_price_def k_def [symmetric] a using lo by (intro dbl.rnd_ge dbl.rep_nat) simp_all
  moreover have "order_price r \<le> of_nat 300"
    unfolding order_price_def k_def [symmetric] a using hi by (intro dbl.rnd_le dbl.rep_nat) simp_all
  ultimately show ?thesis by simp
qed

lemma order_payload_obj:
  "fst (order_payload symb rng) =
     render_obj [(''symbol'', JStr symb), (''qty'', JRaw (nat_str (10 + unat (next_rand rng mod 491)))),
       (''price'', JRaw (fmt_g6 (order_price (next_rand (next_rand rng))))), (''account'', JStr ''ACC-001'')]"
proof -
  have "int_str (10 + uint x) = nat_str (10 + unat x)" for x :: u64
  proof -
    have "\<not> 10 + uint x < 0" using uint_ge_0 [of x] by linarith
    then show ?thesis by (simp add: int_str_def nat_add_distrib flip: unat_eq_nat_uint)
  qed
  then show ?thesis
    by (simp add: order_payload_def Let_def)
qed

lemma sql_payload_obj:
  \<open>sql_payload symb = render_obj [(''sql'', JStr (''SELECT symbol, price FROM quotes WHERE symbol='' @ [CHR 0x27] @
     symb @ [CHR 0x27]))]\<close>
  by (simp add: sql_payload_def)

lemma position_payload_obj: "position_payload = render_obj [(''account'', JStr ''ACC-001'')]"
  by (simp add: position_payload_def)

lemma history_payload_obj:
  "history_payload symb (7 + int d) = render_obj [(''symbol'', JStr symb), (''days'', JRaw (nat_str (7 + d)))]"
  by (simp add: history_payload_def int_str_def nat_add_distrib)

text \<open>Every value the generator writes is plain, so the extractors of the server read it.\<close>

lemma fmt_price_numeric: "\<forall>c \<in> set (fmt_g6 (order_price r)). is_numeric c"
proof -
  have "1 \<le> order_price r" and "order_price r < 10 ^ 5"
    using order_price_range [of r] by simp_all
  then show ?thesis
    using fmt_g6_chars by (auto simp: is_numeric_def)
qed

lemma numeric_plain: "\<forall>c \<in> set s. is_numeric c \<Longrightarrow> plain_val (JRaw s)"
  by (auto simp: is_numeric_def field_stop_def is_digit_def)

lemma nat_str_numeric: "\<forall>c \<in> set (nat_str n). is_numeric c"
  using nat_str_digits [of n] by (auto simp: is_numeric_def)

lemma order_fields_plain:
  "quote \<notin> set symb \<Longrightarrow>
   \<forall>f \<in> set [(''symbol'', JStr symb), (''qty'', JRaw (nat_str q)), (''price'', JRaw (fmt_g6 (order_price r))),
       (''account'', JStr ''ACC-001'')]. plain f"
  using numeric_plain [OF nat_str_numeric [of q]] numeric_plain [OF fmt_price_numeric [of r]]
  by (simp add: good_key_def field_stop_def)

section \<open>The random states of different clients\<close>

text \<open>Both multipliers are odd, hence invertible modulo \<open>2 ^ 64\<close>.\<close>

lemma odd_multiplier_inj:
  fixes a b x y :: u64
  assumes "a * b = 1" and "x * a = y * a"
  shows "x = y"
proof -
  have "x * a * b = y * a * b" by (simp only: assms(2))
  then show ?thesis by (simp only: mult.assoc assms(1) mult_1_right)
qed

lemma next_rand_inj: "next_rand x = next_rand y \<Longrightarrow> x = y"
proof -
  assume "next_rand x = next_rand y"
  then have "x * 6364136223846793005 = y * 6364136223846793005"
    unfolding next_rand_def by (simp only: add_right_cancel)
  moreover have "(6364136223846793005 :: u64) * 13877824140714322085 = 1"
    by simp
  ultimately show ?thesis by (rule odd_multiplier_inj [rotated])
qed

lemma initial_rng_inj: "initial_rng c = initial_rng d \<Longrightarrow> c = d"
proof -
  assume "initial_rng c = initial_rng d"
  then have "(ucast c :: u64) * 2654435761 = ucast d * 2654435761"
    unfolding initial_rng_def by (simp only: add_right_cancel)
  moreover have "(2654435761 :: u64) * 14962265741255716689 = 1"
    by simp
  ultimately have "(ucast c :: u64) = ucast d" by (rule odd_multiplier_inj [rotated])
  then have b: "bit (ucast c :: u64) n = bit (ucast d :: u64) n" for n by simp
  show ?thesis
  proof (rule bit_word_eqI)
    fix n
    assume "n < LENGTH(32)"
    with b [of n] show "bit c n = bit d n" by (simp add: bit_ucast_iff)
  qed
qed

lemma next_rand_funpow_inj: "(next_rand ^^ n) x = (next_rand ^^ n) y \<Longrightarrow> x = y"
  by (induction n) (auto dest: next_rand_inj)

section \<open>How often each kind is drawn\<close>

text \<open>One step of the generator permutes its states.\<close>

lemma bij_next_rand: "bij next_rand"
proof -
  have "inj next_rand" by (rule injI) (rule next_rand_inj)
  then show ?thesis by (simp add: bij_betw_def finite_UNIV_inj_surj)
qed

lemma card_draws: "card {rng. P (uint (next_rand rng))} = card {k. 0 \<le> k \<and> k < 2 ^ 64 \<and> P k}"
proof -
  have "bij_betw next_rand {rng. P (uint (next_rand rng))} {x. P (uint x)}"
    using bij_next_rand by (auto simp: bij_betw_def inj_on_def surj_def image_iff)
  then have "card {rng. P (uint (next_rand rng))} = card {x :: u64. P (uint x)}"
    by (rule bij_betw_same_card)
  also have "bij_betw uint {x :: u64. P (uint x)} {k. 0 \<le> k \<and> k < 2 ^ 64 \<and> P k}"
  proof (rule bij_betw_byWitness [where f' = word_of_int])
    show "word_of_int ` {k. 0 \<le> k \<and> k < 2 ^ 64 \<and> P k} \<subseteq> {x :: u64. P (uint x)}"
      by (auto simp: uint_word_of_int)
    show "uint ` {x :: u64. P (uint x)} \<subseteq> {k. 0 \<le> k \<and> k < 2 ^ 64 \<and> P k}"
      using uint_lt2p [where ?'a = 64] by (auto simp del: uint_lt2p)
  qed (auto simp: uint_word_of_int)
  then have "card {x :: u64. P (uint x)} = card {k. 0 \<le> k \<and> k < 2 ^ 64 \<and> P k}"
    by (rule bij_betw_same_card)
  finally show ?thesis .
qed

text \<open>A residue is taken by one number in each full period and by at most one in the last, cut one.\<close>

lemma card_residue:
  assumes "0 \<le> r" and "r < t" and "0 \<le> n"
  shows "n div t \<le> int (card {k. 0 \<le> k \<and> k < n \<and> k mod t = r})
     \<and> int (card {k. 0 \<le> k \<and> k < n \<and> k mod t = r}) \<le> n div t + 1"
proof -
  let ?A = "{k. 0 \<le> k \<and> k < n \<and> k mod t = r}"
  have t: "0 < t" using assms by simp
  have lo: "(\<lambda>q. q * t + r) ` {0..<n div t} \<subseteq> ?A"
  proof clarsimp
    fix q assume q: "0 \<le> q" "q < n div t"
    then have "(q + 1) * t \<le> (n div t) * t" using t by (intro mult_right_mono) simp_all
    also have "\<dots> \<le> n" using t div_mult_mod_eq [of n t] pos_mod_sign [of t n] by linarith
    finally have "q * t + r < n" using assms by (simp add: algebra_simps)
    with q assms t show "0 \<le> q * t + r \<and> q * t + r < n \<and> r mod t = r" by simp
  qed
  have hi: "?A \<subseteq> (\<lambda>q. q * t + r) ` {0..<n div t + 1}"
  proof
    fix k assume k: "k \<in> ?A"
    then have "k = k div t * t + r" using div_mult_mod_eq [of k t] by simp
    moreover have "k div t \<in> {0..<n div t + 1}"
      using k t zdiv_mono1 [of k n t] by (auto simp: pos_imp_zdiv_nonneg_iff)
    ultimately show "k \<in> (\<lambda>q. q * t + r) ` {0..<n div t + 1}" by blast
  qed
  have inj: "inj_on (\<lambda>q. q * t + r) B" for B using t by (auto simp: inj_on_def)
  have fin: "finite ?A" by (rule finite_subset [OF hi]) simp
  have nn: "0 \<le> n div t" using assms t by (simp add: pos_imp_zdiv_nonneg_iff)
  from card_mono [OF fin lo] card_mono [OF _ hi] nn
  have "nat (n div t) \<le> card ?A \<and> card ?A \<le> nat (n div t + 1)"
    by (simp add: card_image inj)
  with nn show ?thesis by linarith
qed

lemma card_range:
  assumes "0 \<le> a" and "a \<le> b" and "b \<le> t" and "0 \<le> n"
  shows "(b - a) * (n div t) \<le> int (card {k. 0 \<le> k \<and> k < n \<and> a \<le> k mod t \<and> k mod t < b})
     \<and> int (card {k. 0 \<le> k \<and> k < n \<and> a \<le> k mod t \<and> k mod t < b}) \<le> (b - a) * (n div t + 1)"
proof -
  let ?R = "\<lambda>r. {k. 0 \<le> k \<and> k < n \<and> k mod t = r}"
  have fin: "finite (?R r)" for r by (rule finite_subset [of _ "{0..<n}"]) auto
  have "{k. 0 \<le> k \<and> k < n \<and> a \<le> k mod t \<and> k mod t < b} = (\<Union>r \<in> {a..<b}. ?R r)" by auto
  moreover have "card (\<Union>r \<in> {a..<b}. ?R r) = (\<Sum>r \<in> {a..<b}. card (?R r))"
    using fin by (intro card_UN_disjoint) auto
  ultimately have "int (card {k. 0 \<le> k \<and> k < n \<and> a \<le> k mod t \<and> k mod t < b}) = (\<Sum>r \<in> {a..<b}. int (card (?R r)))"
    by simp
  moreover have "(\<Sum>r \<in> {a..<b}. n div t) \<le> (\<Sum>r \<in> {a..<b}. int (card (?R r)))"
    using card_residue [of _ t n] assms by (intro sum_mono) auto
  moreover have "(\<Sum>r \<in> {a..<b}. int (card (?R r))) \<le> (\<Sum>r \<in> {a..<b}. n div t + 1)"
    using card_residue [of _ t n] assms by (intro sum_mono) auto
  ultimately show ?thesis using assms by simp
qed

lemma request_type:
  assumes "weights_ok sc"
  shows "message_type (header (fst (the (next_request sc rng)))) =
     (case kind_of sc (pick_of sc rng) of SqlReq \<Rightarrow> 1 | BuyReq \<Rightarrow> 2 | SellReq \<Rightarrow> 3 | PositionReq \<Rightarrow> 4 | HistoryReq \<Rightarrow> 5)"
  using assms by (simp add: next_request_eq request_of_def split: request_kind.split)

section \<open>Properties\<close>

text \<open>C27: The mix of requests follows the weights. For weights that are not negative and have a positive
  sum in the range of \<open>int\<close>, every state of the generator gives a request, and of its \<open>2 ^ 64\<close> states
  the number that give a request of one kind is that kind's weight times \<open>2 ^ 64\<close> divided by the sum,
  up to the rounding of the division: for weight \<open>w\<close> between \<open>w * q\<close> and \<open>w * (q + 1)\<close>, where \<open>q\<close> is the
  quotient of \<open>2 ^ 64\<close> and the sum.\<close>

theorem request_mix:
  assumes "list_all (\<lambda>w. 0 \<le> w) [weight_sql sc, weight_buy sc, weight_sell sc, weight_position sc, weight_price_history sc]"
    and "tot = weight_sql sc + weight_buy sc + weight_sell sc + weight_position sc + weight_price_history sc"
    and "0 < tot" and "tot \<le> INT_MAX"
  shows "(\<forall>rng. next_request sc rng \<noteq> None)
     \<and> list_all (\<lambda>(t, w).
         let c = int (card {rng. message_type (header (fst (the (next_request sc rng)))) = mt_code t})
         in w * (2 ^ 64 div tot) \<le> c \<and> c \<le> w * (2 ^ 64 div tot + 1))
       [(kSqlQuery, weight_sql sc), (kBuyOrder, weight_buy sc), (kSellOrder, weight_sell sc),
        (kGetPosition, weight_position sc), (kGetPriceHistory, weight_price_history sc)]"
proof -
  have ok: "weights_ok sc" using assms by (auto simp: weights_ok_def int_range_def INT_MAX_def)
  let ?t2 = "weight_sql sc + weight_buy sc"
  let ?t3 = "?t2 + weight_sell sc"
  let ?t4 = "?t3 + weight_position sc"
  have pk: "pick_of sc rng = uint (next_rand rng) mod tot" for rng
    using assms(2,3) by (simp add: pick_of_def Let_def)
  have rng: "0 \<le> k mod tot \<and> k mod tot < tot" for k using assms(3) by simp
  have count: "(b - a) * (2 ^ 64 div tot) \<le> int (card {rng. a \<le> pick_of sc rng \<and> pick_of sc rng < b})
      \<and> int (card {rng. a \<le> pick_of sc rng \<and> pick_of sc rng < b}) \<le> (b - a) * (2 ^ 64 div tot + 1)"
    if "0 \<le> a" "a \<le> b" "b \<le> tot" for a b
    using card_range [OF that, of "2 ^ 64"] card_draws [of "\<lambda>k. a \<le> k mod tot \<and> k mod tot < b"] by (simp add: pk)
  have kind: "{rng. message_type (header (fst (the (next_request sc rng)))) = 1} = {rng. 0 \<le> pick_of sc rng \<and> pick_of sc rng < weight_sql sc}"
    "{rng. message_type (header (fst (the (next_request sc rng)))) = 2} = {rng. weight_sql sc \<le> pick_of sc rng \<and> pick_of sc rng < ?t2}"
    "{rng. message_type (header (fst (the (next_request sc rng)))) = 3} = {rng. ?t2 \<le> pick_of sc rng \<and> pick_of sc rng < ?t3}"
    "{rng. message_type (header (fst (the (next_request sc rng)))) = 4} = {rng. ?t3 \<le> pick_of sc rng \<and> pick_of sc rng < ?t4}"
    "{rng. message_type (header (fst (the (next_request sc rng)))) = 5} = {rng. ?t4 \<le> pick_of sc rng \<and> pick_of sc rng < tot}"
    using assms(1) rng unfolding request_type [OF ok] kind_of_def pk by auto
  note w = assms(1) [simplified]
  have all: "next_request sc rng \<noteq> None" for rng using ok by (simp add: next_request_eq)
  note c = count [of 0 "weight_sql sc"] count [of "weight_sql sc" ?t2] count [of ?t2 ?t3] count [of ?t3 ?t4] count [of ?t4 tot]
  show ?thesis
    using w c assms(2) all by (simp add: kind Let_def)
qed

theorem request_mix_witness:
  "(\<forall>rng. next_request default_scenario rng \<noteq> None)
   \<and> 20 * (2 ^ 64 div 100) \<le> int (card {rng. message_type (header (fst (the (next_request default_scenario rng)))) = 1})
   \<and> int (card {rng. message_type (header (fst (the (next_request default_scenario rng)))) = 1}) \<le> 20 * (2 ^ 64 div 100 + 1)"
  using request_mix [of default_scenario 100] by (simp add: default_scenario_def INT_MAX_def)

text \<open>A kind of request with weight zero is never generated, when no weight is negative and at least
  one is positive.\<close>

theorem zero_weight_never_sent:
  assumes "0 \<le> weight_sql sc" "0 \<le> weight_buy sc" "0 \<le> weight_sell sc" "0 \<le> weight_position sc"
    "0 \<le> weight_price_history sc"
    and "0 < weight_sql sc + weight_buy sc + weight_sell sc + weight_position sc + weight_price_history sc"
    and "next_request sc rng = Some (m, rng')"
  shows "(weight_sql sc = 0 \<longrightarrow> message_type (header m) \<noteq> mt_code kSqlQuery)
    \<and> (weight_buy sc = 0 \<longrightarrow> message_type (header m) \<noteq> mt_code kBuyOrder)
    \<and> (weight_sell sc = 0 \<longrightarrow> message_type (header m) \<noteq> mt_code kSellOrder)
    \<and> (weight_position sc = 0 \<longrightarrow> message_type (header m) \<noteq> mt_code kGetPosition)
    \<and> (weight_price_history sc = 0 \<longrightarrow> message_type (header m) \<noteq> mt_code kGetPriceHistory)"
proof -
  let ?total = "weight_sql sc + weight_buy sc + weight_sell sc + weight_position sc + weight_price_history sc"
  let ?k = "kind_of sc (pick_of sc rng)"
  have p: "0 \<le> pick_of sc rng" "pick_of sc rng < ?total"
    using assms(6) by (simp_all add: pick_of_def Let_def)
  have m: "m = fst (request_of ?k (symbol_of rng) (next_rand (next_rand rng)))"
    using assms(7) by (auto simp: next_request_eq split: if_splits dest: arg_cong [where f = fst])
  have t: "message_type (header m) =
      (case ?k of SqlReq \<Rightarrow> 1 | BuyReq \<Rightarrow> 2 | SellReq \<Rightarrow> 3 | PositionReq \<Rightarrow> 4 | HistoryReq \<Rightarrow> 5)"
    unfolding m by (simp add: request_of_def split: request_kind.split)
  show ?thesis
    using p assms(1-5) unfolding t by (auto simp: kind_of_def)
qed

theorem zero_weight_never_sent_witness:
  "case next_request \<lparr>weight_sql = 0, weight_buy = 0, weight_sell = 3, weight_position = 0,
       weight_price_history = 0\<rparr> (initial_rng 5) of
     Some (m, rng) \<Rightarrow> message_type (header m) \<noteq> mt_code kGetPriceHistory
   | None \<Rightarrow> False"
proof -
  let ?sc = "\<lparr>weight_sql = 0, weight_buy = 0, weight_sell = 3, weight_position = 0, weight_price_history = 0\<rparr>"
  have "weights_ok ?sc" by code_simp
  then obtain m rng where "next_request ?sc (initial_rng 5) = Some (m, rng)"
    by (cases "next_request ?sc (initial_rng 5)") (auto simp: next_request_eq)
  with zero_weight_never_sent [of ?sc "initial_rng 5" m rng] show ?thesis
    by simp
qed

text \<open>Two clients with different ids never are in the same random state after the same number of
  draws, so they do not send the same sequence of requests in step.\<close>

theorem client_streams_differ:
  assumes "c \<noteq> d"
  shows "(next_rand ^^ n) (initial_rng c) \<noteq> (next_rand ^^ n) (initial_rng d)"
  using assms next_rand_funpow_inj initial_rng_inj by blast

theorem client_streams_differ_witness:
  "(next_rand ^^ 1000) (initial_rng 0) \<noteq> (next_rand ^^ 1000) (initial_rng 4294967295)"
  by (rule client_streams_differ) simp

text \<open>What the generator sends as an order is what the server reads in it: the extractors of the
  trade service find the generated symbol, account, quantity (10 to 500) and price text.\<close>

theorem generated_order_understood:
  assumes "symb \<in> set symbols"
  shows "let p = fst (order_payload symb rng); q = 10 + unat (next_rand rng mod 491) in
     extract_string p ''symbol'' = symb \<and> extract_string p ''account'' = ''ACC-001''
     \<and> extract_number p ''qty'' = nat_str q \<and> q \<le> 500
     \<and> extract_number p ''price'' = fmt_g6 (order_price (next_rand (next_rand rng)))"
proof -
  define q where "q = 10 + unat (next_rand rng mod 491)"
  let ?r = "next_rand (next_rand rng)"
  have q: "q \<le> 500"
  proof -
    have "unat (next_rand rng mod 491) < 491" by (simp add: unat_mod_distrib)
    then show ?thesis by (simp add: q_def)
  qed
  have pl: "\<forall>f \<in> set [(''symbol'', JStr symb), (''qty'', JRaw (nat_str q)),
      (''price'', JRaw (fmt_g6 (order_price ?r))), (''account'', JStr ''ACC-001'')]. plain f"
    using symbols_plain [OF assms] by (intro order_fields_plain) simp
  have k: "good_key ''symbol''" "good_key ''account''" "good_key ''qty''" "good_key ''price''"
    by (simp_all add: good_key_def field_stop_def)
  show ?thesis
    unfolding Let_def order_payload_obj q_def [symmetric]
    using q extract_string_obj [OF k(1) pl] extract_string_obj [OF k(2) pl]
      extract_number_obj [OF k(3) pl _ nat_str_numeric] extract_number_obj [OF k(4) pl _ fmt_price_numeric]
    by simp
qed

theorem generated_order_understood_witness:
  "let p = fst (order_payload ''TSLA'' 7); q = 10 + unat (next_rand 7 mod 491) in
     extract_string p ''symbol'' = ''TSLA'' \<and> extract_string p ''account'' = ''ACC-001''
     \<and> extract_number p ''qty'' = nat_str q \<and> q \<le> 500
     \<and> extract_number p ''price'' = fmt_g6 (order_price (next_rand (next_rand 7)))"
  using generated_order_understood [of "''TSLA''" 7] by (simp add: symbols_def)

end
