(* ===== verification/Metrics.thy ===== *)
theory Metrics
  imports Binary64 "HOL-Library.Multiset"
begin

text \<open>
  \<^verbatim>\<open>load_generator/src/metrics_collector.cpp\<close>: success and error counters, the latency samples, and
  the statistics over them in double precision. \<open>std::sort\<close> on integers is \<open>sort\<close>: any correct sort
  gives the same list. The percentile index is a rounded product truncated to an integer; that it
  stays inside the vector rests on the laws of rounding proved in \<open>Binary64\<close>.
\<close>

section \<open>State and operations\<close>

record metrics =
  successes_ctr :: u64
  errors_ctr :: u64
  samples_us :: "int list"

definition new_metrics :: metrics where
  "new_metrics = \<lparr>successes_ctr = 0, errors_ctr = 0, samples_us = []\<rparr>"

definition record_success :: "int \<Rightarrow> metrics \<Rightarrow> metrics" where
  "record_success latency_us m =
     m\<lparr>successes_ctr := successes_ctr m + 1, samples_us := samples_us m @ [latency_us]\<rparr>"

definition record_error :: "metrics \<Rightarrow> metrics" where
  "record_error m = m\<lparr>errors_ctr := errors_ctr m + 1\<rparr>"

definition successes :: "metrics \<Rightarrow> u64" where
  "successes m = successes_ctr m"

definition errors :: "metrics \<Rightarrow> u64" where
  "errors m = errors_ctr m"

record stats =
  st_count :: u64
  st_errors :: u64
  rps :: double
  mean_us :: double
  p50_us :: double
  p90_us :: double
  p99_us :: double
  min_us :: double
  max_us :: double

definition percentile_index :: "double \<Rightarrow> nat \<Rightarrow> nat" where
  "percentile_index p sz = nat \<lfloor>rnd64 (p * rnd64 (of_nat (sz - 1)))\<rfloor>"

definition percentile :: "int list \<Rightarrow> double \<Rightarrow> double" where
  "percentile srtd p =
     (if srtd = [] then 0 else rnd64 (of_int (srtd ! percentile_index p (length srtd))))"

definition compute :: "double \<Rightarrow> metrics \<Rightarrow> stats" where
  "compute elapsed_seconds m =
     (let s = \<lparr>st_count = successes_ctr m, st_errors = errors_ctr m,
               rps = (if elapsed_seconds > 0
                      then rnd64 (rnd64 (of_nat (unat (successes_ctr m))) / elapsed_seconds) else 0),
               mean_us = 0, p50_us = 0, p90_us = 0, p99_us = 0, min_us = 0, max_us = 0\<rparr>;
          srtd = samples_us m
      in if srtd = [] then s
         else
           (let srtd = sort srtd;
                total = foldl (\<lambda>acc v. rnd64 (acc + rnd64 (of_int v))) 0 srtd
            in s\<lparr>min_us := rnd64 (of_int (hd srtd)), max_us := rnd64 (of_int (last srtd)),
                 mean_us := rnd64 (total / rnd64 (of_nat (length srtd))),
                 p50_us := percentile srtd (rnd64 (50 / 100)),
                 p90_us := percentile srtd (rnd64 (90 / 100)),
                 p99_us := percentile srtd (rnd64 (99 / 100))\<rparr>))"

section \<open>The percentile index\<close>

lemma percentile_index_exact:
  assumes "sz \<le> 2 ^ 53"
  shows "percentile_index p sz = nat \<lfloor>rnd64 (p * of_nat (sz - 1))\<rfloor>"
proof -
  have "sz - 1 \<le> 2 ^ 53" using assms by simp
  then show ?thesis
    unfolding percentile_index_def by (simp only: dbl.rnd_nat)
qed

lemma percentile_index_less:
  assumes "p \<le> 1" and "0 < sz" and "sz \<le> 2 ^ 53"
  shows "percentile_index p sz < sz"
proof -
  have "nat \<lfloor>rnd64 (p * of_nat (sz - 1))\<rfloor> \<le> sz - 1"
    using assms(3) by (intro dbl.rank_le [OF assms(1)]) simp
  then have "percentile_index p sz \<le> sz - 1"
    unfolding percentile_index_exact [OF assms(3)] .
  then show ?thesis using assms(2) by linarith
qed

lemma percentile_index_mono: "p \<le> q \<Longrightarrow> sz \<le> 2 ^ 53 \<Longrightarrow> percentile_index p sz \<le> percentile_index q sz"
  unfolding percentile_index_exact by (rule dbl.rank_mono)

lemma percentile_mono:
  assumes "xs \<noteq> []" and "length xs \<le> 2 ^ 53" and "p \<le> q" and "q \<le> 1"
  shows "percentile (sort xs) p \<le> percentile (sort xs) q"
proof -
  have "percentile_index q (length xs) < length xs"
    using assms by (intro percentile_index_less) simp_all
  moreover have "percentile_index p (length xs) \<le> percentile_index q (length xs)"
    using assms by (intro percentile_index_mono)
  ultimately have "sort xs ! percentile_index p (length xs) \<le> sort xs ! percentile_index q (length xs)"
    by (intro sorted_nth_mono) simp_all
  then show ?thesis
    using assms(1) by (auto simp: percentile_def intro: rnd64_mono dest: arg_cong [where f = length])
qed

lemma percentile_bounds:
  assumes "xs \<noteq> []" and "length xs \<le> 2 ^ 53" and "p \<le> 1"
  shows "rnd64 (of_int (hd (sort xs))) \<le> percentile (sort xs) p"
    and "percentile (sort xs) p \<le> rnd64 (of_int (last (sort xs)))"
proof -
  let ?i = "percentile_index p (length xs)"
  have i: "?i < length xs"
    using assms by (intro percentile_index_less) simp_all
  have ne: "sort xs \<noteq> []"
    using assms(1) by (metis length_0_conv length_sort)
  have "sort xs ! 0 \<le> sort xs ! ?i" and "sort xs ! ?i \<le> sort xs ! (length xs - 1)"
    using i by (intro sorted_nth_mono; simp)+
  then show "rnd64 (of_int (hd (sort xs))) \<le> percentile (sort xs) p"
    and "percentile (sort xs) p \<le> rnd64 (of_int (last (sort xs)))"
    using ne by (simp_all add: percentile_def hd_conv_nth last_conv_nth rnd64_mono)
qed

text \<open>The three ranks as doubles.\<close>

lemma rank_doubles: "rnd64 (1 / 2) \<le> rnd64 (9 / 10)" "rnd64 (9 / 10) \<le> rnd64 (99 / 100)"
  "rnd64 (99 / 100) \<le> 1"
proof -
  show "rnd64 (1 / 2) \<le> rnd64 (9 / 10)" "rnd64 (9 / 10) \<le> rnd64 (99 / 100)"
    by (intro rnd64_mono; simp)+
  show "rnd64 (99 / 100) \<le> 1"
    using dbl.rnd_le [OF dbl.rep_nat [of 1], of "99 / 100"] by simp
qed

lemma hd_sort: "xs \<noteq> [] \<Longrightarrow> hd (sort xs) = Min (set xs)"
proof -
  assume ne: "xs \<noteq> []"
  then have "sort xs \<noteq> []" by (metis length_0_conv length_sort)
  then have "hd (sort xs) \<in> set xs" and "\<forall>y \<in> set xs. hd (sort xs) \<le> y"
    using sorted_nth_mono [of "sort xs" 0]
    by (metis hd_in_set set_sort, metis hd_conv_nth in_set_conv_nth le0 set_sort sorted_sort)
  then show ?thesis by (intro Min_eqI [symmetric]) auto
qed

lemma last_sort: "xs \<noteq> [] \<Longrightarrow> last (sort xs) = Max (set xs)"
proof -
  assume ne: "xs \<noteq> []"
  then have s: "sort xs \<noteq> []" by (metis length_0_conv length_sort)
  then have "last (sort xs) \<in> set xs"
    by (metis last_in_set set_sort)
  moreover have "y \<le> last (sort xs)" if "y \<in> set xs" for y
  proof -
    from that obtain i where "i < length (sort xs)" "sort xs ! i = y"
      by (metis in_set_conv_nth set_sort)
    then show ?thesis
      using s sorted_nth_mono [of "sort xs" i "length (sort xs) - 1"] by (simp add: last_conv_nth)
  qed
  ultimately show ?thesis by (intro Max_eqI [symmetric]) auto
qed

section \<open>Recording\<close>

datatype recorded = Success int | Failure

fun record_all :: "recorded list \<Rightarrow> metrics \<Rightarrow> metrics" where
  "record_all [] m = m"
| "record_all (Success us # es) m = record_all es (record_success us m)"
| "record_all (Failure # es) m = record_all es (record_error m)"

fun latencies :: "recorded list \<Rightarrow> int list" where
  "latencies [] = []"
| "latencies (Success us # es) = us # latencies es"
| "latencies (Failure # es) = latencies es"

lemma record_all_eq:
  "successes_ctr (record_all es m) = successes_ctr m + of_nat (length (latencies es))
   \<and> errors_ctr (record_all es m) = errors_ctr m + of_nat (length es - length (latencies es))
   \<and> samples_us (record_all es m) = samples_us m @ latencies es"
proof -
  have le: "length (latencies es) \<le> length es" for es
    by (induction es rule: latencies.induct) auto
  show ?thesis
  proof (induction es m rule: record_all.induct)
    case (3 es m)
    then show ?case
      using le [of es] by (simp add: record_error_def Suc_diff_le algebra_simps)
  qed (simp_all add: record_success_def algebra_simps)
qed

section \<open>Properties\<close>

text \<open>C28: With at least one sample (and at most \<open>2 ^ 53\<close>), the statistics are ordered: the minimum, the
  50th, 90th and 99th percentile and the maximum never decrease, the first is the smallest and the
  last the largest sample, and every percentile reads inside the sorted vector.\<close>

theorem percentiles_ordered:
  assumes "samples_us m \<noteq> []" and "length (samples_us m) \<le> 2 ^ 53"
  shows "let s = compute t m; n = length (samples_us m) in
     min_us s = rnd64 (of_int (Min (set (samples_us m)))) \<and> min_us s \<le> p50_us s
     \<and> p50_us s \<le> p90_us s \<and> p90_us s \<le> p99_us s \<and> p99_us s \<le> max_us s
     \<and> max_us s = rnd64 (of_int (Max (set (samples_us m))))
     \<and> percentile_index (rnd64 (50 / 100)) n < n \<and> percentile_index (rnd64 (90 / 100)) n < n
     \<and> percentile_index (rnd64 (99 / 100)) n < n"
proof -
  note le = rank_doubles order_trans [OF rank_doubles(2,3)]
  have half: "rnd64 (1 / 2) \<le> 1"
    using le(1) le(4) by (rule order_trans)
  have n: "0 < length (samples_us m)" using assms(1) by simp
  show ?thesis
    using assms le half percentile_bounds [OF assms] percentile_mono [OF assms]
      percentile_index_less [OF _ n assms(2)]
    by (simp add: compute_def hd_sort last_sort Let_def)
qed

theorem percentiles_ordered_witness:
  "let m = record_all [Success 30, Failure, Success 10, Success 20] new_metrics;
       s = compute 2 m; n = length (samples_us m) in
     min_us s = rnd64 (of_int (Min (set (samples_us m)))) \<and> min_us s \<le> p50_us s
     \<and> p50_us s \<le> p90_us s \<and> p90_us s \<le> p99_us s \<and> p99_us s \<le> max_us s
     \<and> max_us s = rnd64 (of_int (Max (set (samples_us m))))
     \<and> percentile_index (rnd64 (50 / 100)) n < n \<and> percentile_index (rnd64 (90 / 100)) n < n
     \<and> percentile_index (rnd64 (99 / 100)) n < n"
  using percentiles_ordered [of "record_all [Success 30, Failure, Success 10, Success 20] new_metrics" 2]
  unfolding Let_def by (simp add: record_success_def record_error_def new_metrics_def)

text \<open>C31: The statistics do not depend on the order in which the threads recorded their samples: two
  collectors with the same counters and the same samples in any order compute the same statistics.\<close>

theorem compute_order_independent:
  assumes "mset (samples_us m) = mset (samples_us m')"
    and "successes_ctr m = successes_ctr m'" and "errors_ctr m = errors_ctr m'"
  shows "compute t m = compute t m'"
proof -
  have "sort (samples_us m) = sort (samples_us m')"
    by (rule properties_for_sort) (simp_all add: assms(1))
  moreover have "samples_us m = [] \<longleftrightarrow> samples_us m' = []"
    using assms(1) by (metis mset_zero_iff)
  ultimately show ?thesis
    using assms(2,3) by (simp add: compute_def Let_def)
qed

theorem compute_order_independent_witness:
  "compute 3 (record_all [Success 7, Success 4, Failure] new_metrics) =
   compute 3 (record_all [Failure, Success 4, Success 7] new_metrics)"
  by (rule compute_order_independent)
    (simp_all add: record_success_def record_error_def new_metrics_def)

text \<open>After any sequence of recorded successes and errors on a new collector, the counters are the
  numbers of successes and of errors (modulo \<open>2 ^ 64\<close>) and the samples are the latencies in order.\<close>

theorem recording_counts:
  "successes (record_all es new_metrics) = of_nat (length (latencies es))
   \<and> errors (record_all es new_metrics) = of_nat (length es - length (latencies es))
   \<and> samples_us (record_all es new_metrics) = latencies es"
  using record_all_eq [of es new_metrics] by (simp add: new_metrics_def successes_def errors_def)

end
