(* ===== verification/Client_Session.thy ===== *)
theory Client_Session
  imports Load_Requests Metrics Async_IO
begin

text \<open>
  \<^verbatim>\<open>load_generator/src/client_session.cpp\<close>: the connect / send / read header / read body loop of one
  simulated client. The shared parts it touches are the metrics collector, the stop flag and the
  clock; the step relation lets the environment choose what the flag load and the clock return.
\<close>

section \<open>State\<close>

datatype client_op = Resolving | Connecting | Writing bytes | ReadingHeader | ReadingBody nat

record client =
  cl_header_buf :: bytes
  cl_body_buf :: bytes
  cl_write_buf :: bytes
  resp_header :: message_header
  request_start :: int
  rng_state :: u64
  cl_socket_open :: bool
  pending_ops :: "client_op list"
  done_calls :: nat
  aborted :: bool

definition make_client :: "u32 \<Rightarrow> client" where
  "make_client client_id =
     \<lparr>cl_header_buf = replicate kHeaderSize 0, cl_body_buf = [], cl_write_buf = [],
      resp_header = default_header, request_start = 0, rng_state = initial_rng client_id,
      cl_socket_open = True, pending_ops = [], done_calls = 0, aborted = False\<rparr>"

text \<open>
  What a handler sees of the world: the stop flag, the clock when a response is complete and when
  the next request starts, and whether setting \<open>TCP_NODELAY\<close> throws. An exception that leaves a
  handler, and undefined behaviour in \<open>next_request\<close>, end the client's activity: \<open>aborted\<close>.
\<close>

record client_env =
  env_stop :: bool
  t_done :: int
  t_start :: int
  nodelay_throws :: bool

section \<open>Operations\<close>

definition add_op :: "client_op \<Rightarrow> client \<Rightarrow> client" where
  "add_op op c = c\<lparr>pending_ops := pending_ops c @ [op]\<rparr>"

definition do_connect :: "client \<Rightarrow> client" where
  "do_connect c = add_op Resolving c"

definition start_client :: "client \<Rightarrow> client" where
  "start_client c = do_connect c"

definition finish :: "client \<Rightarrow> client" where
  "finish c = c\<lparr>cl_socket_open := False, done_calls := Suc (done_calls c)\<rparr>"

definition fail :: "metrics \<times> client \<Rightarrow> metrics \<times> client" where
  "fail mc = (record_error (fst mc), finish (snd mc))"

definition do_send_request :: "endianness \<Rightarrow> scenario \<Rightarrow> client_env \<Rightarrow> client \<Rightarrow> client" where
  "do_send_request E sc env c =
     (if env_stop env then finish c
      else
        (case next_request sc (rng_state c) of
           None \<Rightarrow> c\<lparr>aborted := True\<rparr>
         | Some (req, rng) \<Rightarrow>
             (let buf = encode_header E (header req) @ bytes_of_string (payload req)
              in add_op (Writing buf)
                   (c\<lparr>rng_state := rng, cl_write_buf := buf, request_start := t_start env\<rparr>))))"

definition on_resolved :: "bool \<Rightarrow> metrics \<times> client \<Rightarrow> metrics \<times> client" where
  "on_resolved ec mc = (if ec then fail mc else (fst mc, add_op Connecting (snd mc)))"

definition on_connected ::
  "endianness \<Rightarrow> scenario \<Rightarrow> client_env \<Rightarrow> bool \<Rightarrow> metrics \<times> client \<Rightarrow> metrics \<times> client" where
  "on_connected E sc env ec mc =
     (if ec then fail mc
      else if nodelay_throws env then (fst mc, (snd mc)\<lparr>aborted := True\<rparr>)
      else (fst mc, do_send_request E sc env (snd mc)))"

definition on_written :: "bool \<Rightarrow> metrics \<times> client \<Rightarrow> metrics \<times> client" where
  "on_written ec mc = (if ec then fail mc else (fst mc, add_op ReadingHeader (snd mc)))"

text \<open>A complete response: record the latency and send the next request.\<close>

definition response_complete ::
  "endianness \<Rightarrow> scenario \<Rightarrow> client_env \<Rightarrow> metrics \<times> client \<Rightarrow> metrics \<times> client" where
  "response_complete E sc env mc =
     (record_success (t_done env - request_start (snd mc)) (fst mc), do_send_request E sc env (snd mc))"

definition on_response_header ::
  "endianness \<Rightarrow> scenario \<Rightarrow> client_env \<Rightarrow> io_result \<Rightarrow> metrics \<times> client \<Rightarrow> metrics \<times> client" where
  "on_response_header E sc env r mc =
     (case r of
        IoErr \<Rightarrow> fail mc
      | IoOk bs \<Rightarrow>
          (let mc = (fst mc, (snd mc)\<lparr>cl_header_buf := bs\<rparr>)
           in case decode_header E (cl_header_buf (snd mc)) of
                Inl what \<Rightarrow> fail mc
              | Inr h \<Rightarrow>
                  (let c = (snd mc)\<lparr>resp_header := h\<rparr>
                   in if payload_length (resp_header c) = 0 then response_complete E sc env (fst mc, c)
                      else
                        (let c = c\<lparr>cl_body_buf := resize_bytes (unat (payload_length (resp_header c)))
                                                    (cl_body_buf c)\<rparr>
                         in (fst mc, add_op (ReadingBody (length (cl_body_buf c))) c)))))"

definition on_response_body ::
  "endianness \<Rightarrow> scenario \<Rightarrow> client_env \<Rightarrow> io_result \<Rightarrow> metrics \<times> client \<Rightarrow> metrics \<times> client" where
  "on_response_body E sc env r mc =
     (case r of
        IoErr \<Rightarrow> fail mc
      | IoOk bs \<Rightarrow> response_complete E sc env (fst mc, (snd mc)\<lparr>cl_body_buf := bs\<rparr>))"

lemmas client_ops = on_resolved_def on_connected_def on_written_def on_response_header_def
  on_response_body_def response_complete_def do_send_request_def fail_def finish_def add_op_def
  record_success_def record_error_def

section \<open>One client under every schedule\<close>

inductive client_step ::
  "endianness \<Rightarrow> scenario \<Rightarrow> metrics \<times> client \<Rightarrow> client_env \<Rightarrow> metrics \<times> client \<Rightarrow> bool"
  for E :: endianness and sc :: scenario
where
  resolved:
    "pending_ops c = pre @ Resolving # post \<Longrightarrow>
     client_step E sc (m, c) env (on_resolved ec (m, c\<lparr>pending_ops := pre @ post\<rparr>))"
| connected:
    "pending_ops c = pre @ Connecting # post \<Longrightarrow>
     client_step E sc (m, c) env (on_connected E sc env ec (m, c\<lparr>pending_ops := pre @ post\<rparr>))"
| written:
    "pending_ops c = pre @ Writing bs # post \<Longrightarrow>
     client_step E sc (m, c) env (on_written ec (m, c\<lparr>pending_ops := pre @ post\<rparr>))"
| header_arrived:
    "pending_ops c = pre @ ReadingHeader # post \<Longrightarrow> (\<And>bs. r = IoOk bs \<Longrightarrow> length bs = kHeaderSize) \<Longrightarrow>
     client_step E sc (m, c) env (on_response_header E sc env r (m, c\<lparr>pending_ops := pre @ post\<rparr>))"
| body_arrived:
    "pending_ops c = pre @ ReadingBody n # post \<Longrightarrow> (\<And>bs. r = IoOk bs \<Longrightarrow> length bs = n) \<Longrightarrow>
     client_step E sc (m, c) env (on_response_body E sc env r (m, c\<lparr>pending_ops := pre @ post\<rparr>))"

definition client_start :: "u32 \<Rightarrow> metrics \<times> client \<Rightarrow> bool" where
  "client_start client_id mc \<longleftrightarrow> snd mc = start_client (make_client client_id)"

text \<open>
  A client is in exactly one of three situations: one operation is pending, or it has reported that
  it is done (once), or a handler was left by an exception.
\<close>

fun body_bounded :: "client \<Rightarrow> client_op \<Rightarrow> bool" where
  "body_bounded c (ReadingBody n) \<longleftrightarrow>
     n = unat (payload_length (resp_header c)) \<and> n = length (cl_body_buf c) \<and> 0 < n \<and> n \<le> 16777216"
| "body_bounded c _ = True"

definition client_ok :: "client \<Rightarrow> bool" where
  "client_ok c \<longleftrightarrow>
     length (pending_ops c) + done_calls c + (if aborted c then 1 else 0) = 1
     \<and> (cl_socket_open c \<longleftrightarrow> done_calls c = 0)
     \<and> (\<forall>op \<in> set (pending_ops c). body_bounded c op)"

definition client_inv :: "metrics \<times> client \<Rightarrow> bool" where
  "client_inv mc \<longleftrightarrow> client_ok (snd mc)"

lemma client_inv_start: "client_start client_id mc \<Longrightarrow> client_inv mc"
  by (simp add: client_start_def client_inv_def client_ok_def start_client_def do_connect_def
      add_op_def make_client_def)

text \<open>A client whose operation has just been taken off.\<close>

definition client_idle :: "client \<Rightarrow> bool" where
  "client_idle c \<longleftrightarrow> pending_ops c = [] \<and> done_calls c = 0 \<and> \<not> aborted c \<and> cl_socket_open c"

lemma client_pop:
  assumes "client_ok c" and "pending_ops c = pre @ op # post"
  shows "client_idle (c\<lparr>pending_ops := pre @ post\<rparr>)" and "body_bounded c op"
  using assms by (auto simp: client_ok_def client_idle_def split: if_splits)

lemma fail_ok: "client_idle c \<Longrightarrow> client_ok (snd (fail (m, c)))"
  by (simp add: client_idle_def client_ok_def fail_def finish_def)

lemma add_op_ok: "client_idle c \<Longrightarrow> body_bounded c op \<Longrightarrow> client_ok (add_op op c)"
  by (cases op) (simp_all add: client_idle_def client_ok_def add_op_def)

lemma send_ok: "client_idle c \<Longrightarrow> client_ok (do_send_request E sc env c)"
  by (auto simp: do_send_request_def client_idle_def client_ok_def finish_def add_op_def Let_def
      split: option.split prod.split)

lemma response_ok: "client_idle c \<Longrightarrow> client_ok (snd (response_complete E sc env (m, c)))"
  by (simp add: response_complete_def send_ok)

lemma on_response_header_ok:
  assumes "client_idle c"
  shows "client_ok (snd (on_response_header E sc env r (m, c)))"
proof (cases r)
  case IoErr
  with assms show ?thesis by (simp add: on_response_header_def fail_ok)
next
  case (IoOk bs)
  have i: "client_idle (c\<lparr>cl_header_buf := bs\<rparr>)" "client_idle (c\<lparr>cl_header_buf := bs, resp_header := h\<rparr>)"
    "client_idle (c\<lparr>cl_header_buf := bs, resp_header := h, cl_body_buf := b\<rparr>)" for h b
    using assms by (simp_all add: client_idle_def)
  show ?thesis
  proof (cases "decode_header E bs")
    case (Inl e)
    with IoOk show ?thesis by (simp add: on_response_header_def fail_ok [OF i(1)])
  next
    case (Inr h)
    have lim: "unat (payload_length h) \<le> 16777216"
      using decode_header_bound [OF Inr] by (simp add: word_le_nat_alt unat_kMaxPayloadSize)
    have "client_ok (add_op (ReadingBody (unat (payload_length h)))
        (c\<lparr>cl_header_buf := bs, resp_header := h, cl_body_buf := resize_bytes (unat (payload_length h)) b\<rparr>))"
      if "payload_length h \<noteq> 0" for b
      using that lim by (intro add_op_ok i(3)) (simp add: unat_gt_0)
    then show ?thesis
      using IoOk Inr response_ok [OF i(2)] by (auto simp: on_response_header_def Let_def)
  qed
qed

lemma on_response_body_ok: "client_idle c \<Longrightarrow> client_ok (snd (on_response_body E sc env r (m, c)))"
  by (cases r) (auto simp: on_response_body_def fail_ok client_idle_def intro!: response_ok)

lemma client_ok_step:
  assumes "client_ok (snd mc)" and "client_step E sc mc env mc'"
  shows "client_ok (snd mc')"
  using assms(2)
proof cases
  case (resolved c pre post m ec)
  with assms(1) have "client_idle (c\<lparr>pending_ops := pre @ post\<rparr>)" by (simp add: client_pop(1))
  with resolved show ?thesis by (simp add: on_resolved_def fail_ok add_op_ok)
next
  case (connected c pre post m ec)
  with assms(1) have i: "client_idle (c\<lparr>pending_ops := pre @ post\<rparr>)" by (simp add: client_pop(1))
  then have "client_ok (c\<lparr>pending_ops := pre @ post, aborted := True\<rparr>)"
    by (simp add: client_idle_def client_ok_def)
  with i connected show ?thesis by (simp add: on_connected_def fail_ok send_ok)
next
  case (written c pre bs post m ec)
  with assms(1) have "client_idle (c\<lparr>pending_ops := pre @ post\<rparr>)" by (simp add: client_pop(1))
  with written show ?thesis by (simp add: on_written_def fail_ok add_op_ok)
next
  case (header_arrived c pre post r m)
  with assms(1) show ?thesis by (simp add: client_pop(1) on_response_header_ok)
next
  case (body_arrived c pre n post r m)
  with assms(1) show ?thesis by (simp add: client_pop(1) on_response_body_ok)
qed

lemma client_inv_step: "client_inv mc \<Longrightarrow> client_step E sc mc env mc' \<Longrightarrow> client_inv mc'"
  unfolding client_inv_def by (rule client_ok_step)

interpretation client_life: transition_system "client_start client_id" "client_step E sc" client_inv
  for client_id :: u32 and E :: endianness and sc :: scenario
  by unfold_locales (auto intro: client_inv_start client_inv_step)

section \<open>What a step does to the metrics, and progress after the stop flag\<close>

text \<open>Every step either counts nothing, or an error with which the client finishes, or one success.\<close>

definition counted :: "metrics \<Rightarrow> client \<Rightarrow> metrics \<times> client \<Rightarrow> bool" where
  "counted m c mc' \<longleftrightarrow>
     fst mc' = m
     \<or> fst mc' = record_error m \<and> done_calls c = 0 \<and> done_calls (snd mc') = 1
     \<or> (\<exists>us. fst mc' = record_success us m)"

lemma done_calls_send: "done_calls c \<le> done_calls (do_send_request E sc env c)"
  by (simp add: do_send_request_def finish_def add_op_def Let_def split: option.split prod.split)

lemma done_calls_handlers:
  "done_calls c \<le> done_calls (snd (on_resolved ec (m, c)))"
  "done_calls c \<le> done_calls (snd (on_connected E sc env ec (m, c)))"
  "done_calls c \<le> done_calls (snd (on_written ec (m, c)))"
  "done_calls c \<le> done_calls (snd (on_response_header E sc env r (m, c)))"
  "done_calls c \<le> done_calls (snd (on_response_body E sc env r (m, c)))"
  using done_calls_send [of "c\<lparr>cl_header_buf := _, resp_header := _\<rparr>"] done_calls_send [of c]
    done_calls_send [of "c\<lparr>cl_body_buf := _\<rparr>"]
  by (auto simp: on_resolved_def on_connected_def on_written_def on_response_header_def
      on_response_body_def response_complete_def fail_def finish_def add_op_def Let_def
      split: io_result.split sum.split)

lemma client_step_done:
  "client_step E sc (m, c) env (m', c') \<Longrightarrow> done_calls c \<le> done_calls c'"
  by (cases rule: client_step.cases, assumption)
    (auto dest: arg_cong [where f = "\<lambda>p. done_calls (snd p)"] intro: order_trans [OF _ done_calls_handlers(1)]
      simp: done_calls_handlers [where c = "c\<lparr>pending_ops := _\<rparr>", simplified])

lemma counted_handlers:
  assumes "client_idle c"
  shows "counted m c (on_resolved ec (m, c))" "counted m c (on_connected E sc env ec (m, c))"
    "counted m c (on_written ec (m, c))" "counted m c (on_response_header E sc env r (m, c))"
    "counted m c (on_response_body E sc env r (m, c))"
  using assms
  by (auto simp: counted_def client_idle_def on_resolved_def on_connected_def on_written_def
      on_response_header_def on_response_body_def response_complete_def fail_def finish_def Let_def
      split: io_result.split sum.split)

lemma client_step_counted:
  assumes "client_ok c" and "client_step E sc (m, c) env mc'"
  shows "counted m c mc'"
proof -
  have c: "counted m (c\<lparr>pending_ops := x\<rparr>) mc' = counted m c mc'" for x
    by (simp add: counted_def)
  from assms(2) show ?thesis
  proof cases
    case (resolved pre post ec)
    with counted_handlers(1) [OF client_pop(1) [OF assms(1) resolved(2)], of m ec] c show ?thesis by simp
  next
    case (connected pre post ec)
    with counted_handlers(2) [OF client_pop(1) [OF assms(1) connected(2)], of m E sc env ec] c
    show ?thesis by simp
  next
    case (written pre bs post ec)
    with counted_handlers(3) [OF client_pop(1) [OF assms(1) written(2)], of m ec] c show ?thesis by simp
  next
    case (header_arrived pre post r)
    with counted_handlers(4) [OF client_pop(1) [OF assms(1) header_arrived(2)], of m E sc env r] c
    show ?thesis by simp
  next
    case (body_arrived pre n post r)
    with counted_handlers(5) [OF client_pop(1) [OF assms(1) body_arrived(2)], of m E sc env r] c
    show ?thesis by simp
  qed
qed

fun client_op_weight :: "client_op \<Rightarrow> nat" where
  "client_op_weight Resolving = 5"
| "client_op_weight Connecting = 4"
| "client_op_weight (Writing bs) = 3"
| "client_op_weight ReadingHeader = 2"
| "client_op_weight (ReadingBody n) = 1"

definition client_work :: "client \<Rightarrow> nat" where
  "client_work c = sum_list (map client_op_weight (pending_ops c))"

lemma client_step_progress:
  assumes "client_step E sc (m, c) env (m', c')" and "env_stop env"
  shows "client_work c' < client_work c"
  using assms
  by (cases rule: client_step.cases)
    (auto simp: client_ops client_work_def Let_def
      split: if_splits io_result.splits sum.splits)

end
