(* ===== verification/Load_Generator.thy ===== *)
theory Load_Generator
  imports Client_Session
begin

text \<open>
  \<^verbatim>\<open>load_generator/src/main.cpp\<close>: the simulated clients on one I/O context, the stop timer and the
  count of clients in flight. Handlers of different clients run on several threads; the shared
  counters are atomic and the samples are guarded by a mutex, so a run is a sequence of handler
  executions, each of one client.
\<close>

record loadgen =
  lg_metrics :: metrics
  lg_stop :: bool
  lg_in_flight :: u32
  lg_clients :: "client list"

text \<open>The number of I/O threads: as configured, else the hardware's, else one.\<close>

definition loadgen_threads :: "u32 \<Rightarrow> u32 \<Rightarrow> u32" where
  "loadgen_threads num_threads hardware_concurrency =
     (if num_threads = 0
      then (let n = hardware_concurrency in if n = 0 then 1 else n)
      else num_threads)"

text \<open>All clients are created and started before the context runs.\<close>

definition launch :: "u32 \<Rightarrow> loadgen" where
  "launch num_clients =
     \<lparr>lg_metrics = new_metrics, lg_stop = False, lg_in_flight = num_clients,
      lg_clients = map (\<lambda>i. start_client (make_client (of_nat i))) [0..<unat num_clients]\<rparr>"

definition on_timer :: "loadgen \<Rightarrow> loadgen" where
  "on_timer g = g\<lparr>lg_stop := True\<rparr>"

text \<open>The callback given to every client.\<close>

definition on_client_done :: "loadgen \<Rightarrow> loadgen" where
  "on_client_done g = g\<lparr>lg_in_flight := lg_in_flight g - 1\<rparr>"

text \<open>
  A step of client \<open>i\<close>: its handler runs on the shared metrics, and its done callback as often as it
  called it. A relaxed load of the stop flag returns true only once the timer has set it.
\<close>

inductive loadgen_step :: "endianness \<Rightarrow> scenario \<Rightarrow> loadgen \<Rightarrow> nat option \<Rightarrow> loadgen \<Rightarrow> bool"
  for E :: endianness and sc :: scenario
where
  client_runs:
    "i < length (lg_clients g) \<Longrightarrow> (env_stop env \<Longrightarrow> lg_stop g) \<Longrightarrow>
     client_step E sc (lg_metrics g, lg_clients g ! i) env (m', c') \<Longrightarrow>
     loadgen_step E sc g (Some i)
       ((on_client_done ^^ (done_calls c' - done_calls (lg_clients g ! i)))
          (g\<lparr>lg_metrics := m', lg_clients := (lg_clients g)[i := c']\<rparr>))"
| timer_fires:
    "loadgen_step E sc g None (on_timer g)"

definition loadgen_start :: "u32 \<Rightarrow> loadgen \<Rightarrow> bool" where
  "loadgen_start num_clients g \<longleftrightarrow> g = launch num_clients"

definition unfinished :: "loadgen \<Rightarrow> nat" where
  "unfinished g = length (filter (\<lambda>c. done_calls c = 0) (lg_clients g))"

text \<open>
  The number in flight is the number of clients that have not reported; the success counter is the
  number of samples; there are at most as many errors as clients that have reported.
\<close>

definition loadgen_inv :: "u32 \<Rightarrow> loadgen \<Rightarrow> bool" where
  "loadgen_inv num_clients g \<longleftrightarrow>
     length (lg_clients g) = unat num_clients
     \<and> (\<forall>c \<in> set (lg_clients g). client_ok c)
     \<and> unat (lg_in_flight g) = unfinished g
     \<and> successes_ctr (lg_metrics g) = of_nat (length (samples_us (lg_metrics g)))
     \<and> unat (errors_ctr (lg_metrics g)) + unfinished g \<le> unat num_clients"

lemma on_client_done_funpow:
  "(on_client_done ^^ n) g = g\<lparr>lg_in_flight := lg_in_flight g - of_nat n\<rparr>"
  by (induction n) (simp_all add: on_client_done_def algebra_simps)

lemma loadgen_inv_start: "loadgen_start num_clients g \<Longrightarrow> loadgen_inv num_clients g"
  by (auto simp: loadgen_start_def loadgen_inv_def launch_def unfinished_def new_metrics_def
      client_ok_def start_client_def do_connect_def add_op_def make_client_def)

lemma done_calls_le: "client_ok c \<Longrightarrow> done_calls c \<le> 1"
  by (simp add: client_ok_def split: if_splits)

lemma client_runs_inv:
  assumes inv: "loadgen_inv n g" and i: "i < length (lg_clients g)"
    and step: "client_step E sc (lg_metrics g, lg_clients g ! i) env (m', c')"
  shows "loadgen_inv n
     ((on_client_done ^^ (done_calls c' - done_calls (lg_clients g ! i)))
        (g\<lparr>lg_metrics := m', lg_clients := (lg_clients g)[i := c']\<rparr>))" (is "loadgen_inv n ?g'")
proof -
  let ?c = "lg_clients g ! i"
  let ?d = "done_calls c' - done_calls ?c"
  have ok: "client_ok ?c" using inv i by (simp add: loadgen_inv_def)
  have ok': "client_ok c'" using client_ok_step [OF _ step] ok by simp
  have mono: "done_calls ?c \<le> done_calls c'" by (rule client_step_done [OF step])
  have d: "?d = (if done_calls ?c = 0 \<and> done_calls c' \<noteq> 0 then 1 else 0)"
    using mono done_calls_le [OF ok] done_calls_le [OF ok'] by auto
  let ?P = "\<lambda>c. done_calls c = 0"
  let ?cs = "(lg_clients g)[i := c']"
  have len: "length (filter ?P ?cs) + ?d = unfinished g"
    using length_filter_update [OF i, of ?P c'] mono unfolding d unfinished_def by (auto split: if_splits)
  have fl: "unat (lg_in_flight g) = unfinished g" using inv by (simp add: loadgen_inv_def)
  have le: "of_nat ?d \<le> lg_in_flight g"
    using fl len unfolding d by (auto simp: word_le_nat_alt split: if_splits)
  have un: "unat (lg_in_flight g - of_nat ?d) = length (filter ?P ?cs)"
    using unat_sub [OF le] fl len unfolding d by (auto split: if_splits)
  have all: "\<forall>c \<in> set ?cs. client_ok c"
    using inv ok' set_update_subset_insert [of "lg_clients g" i c'] by (auto simp: loadgen_inv_def)
  have err: "unat (errors_ctr (lg_metrics g)) + unfinished g \<le> unat n"
    and suc: "successes_ctr (lg_metrics g) = of_nat (length (samples_us (lg_metrics g)))"
    using inv by (simp_all add: loadgen_inv_def)
  have nb: "unat n < 2 ^ 32"
    using unsigned_less [of n, where ?'a = nat] by simp
  have inc: "unat (x + 1) \<le> Suc (unat x)" for x :: u64
    using unatSuc [of x] by (cases "1 + x = 0") (simp_all add: add.commute)
  have met: "successes_ctr m' = of_nat (length (samples_us m'))
      \<and> unat (errors_ctr m') + length (filter ?P ?cs) \<le> unat n"
    using client_step_counted [OF ok step] len err suc inc [of "errors_ctr (lg_metrics g)"] unfolding d
    by (auto simp: counted_def record_error_def record_success_def split: if_splits)
  have g': "?g' = g\<lparr>lg_metrics := m', lg_clients := ?cs, lg_in_flight := lg_in_flight g - of_nat ?d\<rparr>"
    by (simp add: on_client_done_funpow)
  show ?thesis
    using inv un all met unfolding g' by (simp add: loadgen_inv_def unfinished_def)
qed

lemma loadgen_inv_step:
  assumes "loadgen_inv n g" and "loadgen_step E sc g e g'"
  shows "loadgen_inv n g'"
  using assms(2)
proof cases
  case (client_runs i env m' c')
  with assms(1) show ?thesis by (simp add: client_runs_inv)
next
  case timer_fires
  with assms(1) show ?thesis by (simp add: loadgen_inv_def on_timer_def unfinished_def)
qed

interpretation loadgen_life: transition_system "loadgen_start n" "loadgen_step E sc" "loadgen_inv n"
  for n :: u32 and E :: endianness and sc :: scenario
  by unfold_locales (auto intro: loadgen_inv_start loadgen_inv_step)

section \<open>The run ends\<close>

text \<open>
  The work left is bounded once every load of the flag returns true: every handler execution lowers
  it.
\<close>

definition work_left :: "loadgen \<Rightarrow> nat" where
  "work_left g = sum_list (map client_work (lg_clients g))"

lemma sum_list_update_less:
  fixes f :: "'a \<Rightarrow> nat"
  assumes "i < length xs" and "f y < f (xs ! i)"
  shows "sum_list (map f (xs[i := y])) < sum_list (map f xs)"
  using assms
proof (induction xs arbitrary: i)
  case Nil
  then show ?case by simp
next
  case (Cons x xs)
  then show ?case by (cases i) auto
qed

inductive drained_steps :: "endianness \<Rightarrow> scenario \<Rightarrow> nat \<Rightarrow> loadgen \<Rightarrow> loadgen \<Rightarrow> bool"
  for E :: endianness and sc :: scenario
where
  drained_none: "drained_steps E sc 0 g g"
| drained_more:
    "drained_steps E sc k g h \<Longrightarrow> i < length (lg_clients h) \<Longrightarrow> env_stop env \<Longrightarrow> lg_stop h \<Longrightarrow>
     client_step E sc (lg_metrics h, lg_clients h ! i) env (m', c') \<Longrightarrow>
     drained_steps E sc (Suc k) g
       ((on_client_done ^^ (done_calls c' - done_calls (lg_clients h ! i)))
          (h\<lparr>lg_metrics := m', lg_clients := (lg_clients h)[i := c']\<rparr>))"

lemma drained_work: "drained_steps E sc k g h \<Longrightarrow> work_left h + k \<le> work_left g"
proof (induction rule: drained_steps.induct)
  case (drained_none g)
  then show ?case by simp
next
  case (drained_more k g h i env m' c')
  have "client_work c' < client_work (lg_clients h ! i)"
    by (rule client_step_progress [OF drained_more.hyps(5) drained_more.hyps(3)])
  then have "sum_list (map client_work ((lg_clients h)[i := c'])) < sum_list (map client_work (lg_clients h))"
    by (rule sum_list_update_less [OF drained_more.hyps(2)])
  with drained_more.IH show ?case
    by (simp add: on_client_done_funpow work_left_def)
qed

lemma client_op_weight_le: "client_op_weight op \<le> 5"
  by (cases op) simp_all

lemma client_work_le: "client_ok c \<Longrightarrow> client_work c \<le> 5"
proof -
  assume ok: "client_ok c"
  then consider "pending_ops c = []" | op where "pending_ops c = [op]"
    by (cases "pending_ops c") (auto simp: client_ok_def split: if_splits)
  then show ?thesis
    by cases (simp_all add: client_work_def client_op_weight_le)
qed

lemma work_left_le: "\<forall>c \<in> set (lg_clients g). client_ok c \<Longrightarrow> work_left g \<le> 5 * length (lg_clients g)"
proof -
  have "\<forall>c \<in> set cs. client_ok c \<Longrightarrow> sum_list (map client_work cs) \<le> 5 * length cs" for cs
    by (induction cs) (auto dest: client_work_le)
  then show "\<forall>c \<in> set (lg_clients g). client_ok c \<Longrightarrow> work_left g \<le> 5 * length (lg_clients g)"
    by (simp add: work_left_def)
qed

section \<open>Properties\<close>

text \<open>C13: However the handlers of the clients interleave, the in-flight counter is the number of clients
  that have not finished, every success has its sample, and there are at most as many errors as
  clients that have finished: each error ends its client.\<close>

theorem loadgen_accounting:
  assumes "reach (loadgen_start n) (loadgen_step E sc) g"
  shows "unat (lg_in_flight g) = unfinished g
     \<and> successes_ctr (lg_metrics g) = of_nat (length (samples_us (lg_metrics g)))
     \<and> unat (errors_ctr (lg_metrics g)) + unfinished g \<le> unat n"
  using loadgen_life.reach_inv [OF assms] by (simp add: loadgen_inv_def)

theorem loadgen_accounting_witness:
  "let g = on_timer (launch 3)
   in unat (lg_in_flight g) = unfinished g
     \<and> successes_ctr (lg_metrics g) = of_nat (length (samples_us (lg_metrics g)))
     \<and> unat (errors_ctr (lg_metrics g)) + unfinished g \<le> unat (3 :: u32)"
proof -
  have r0: "reach (loadgen_start 3) (loadgen_step BigEndian default_scenario) (launch 3)"
    by (rule reach_start) (simp add: loadgen_start_def)
  have "loadgen_step BigEndian default_scenario (launch 3) None (on_timer (launch 3))"
    by (rule timer_fires)
  from loadgen_accounting [OF reach_step [OF r0, OF this]] show ?thesis
    unfolding Let_def .
qed

text \<open>C15: A client reports that it is done at most once and then has no operation left and its socket
  closed; a client that has not reported has exactly one operation pending, unless an exception left
  one of its handlers, in which case it never reports.\<close>

theorem client_finishes_once:
  assumes "reach (client_start k) (client_step E sc) (m, c)"
  shows "done_calls c \<le> 1
     \<and> (done_calls c = 1 \<longrightarrow> pending_ops c = [] \<and> \<not> cl_socket_open c)
     \<and> (done_calls c = 0 \<longrightarrow> length (pending_ops c) = (if aborted c then 0 else 1))"
  using client_life.reach_inv [OF assms]
  by (auto simp: client_inv_def client_ok_def split: if_splits)

theorem client_finishes_once_witness:
  "let c = snd (on_resolved True (new_metrics, (start_client (make_client 4))\<lparr>pending_ops := [] @ []\<rparr>))
   in done_calls c = 1 \<and> pending_ops c = [] \<and> \<not> cl_socket_open c"
proof -
  let ?c = "start_client (make_client 4)"
  let ?env = "\<lparr>env_stop = False, t_done = 0, t_start = 0, nodelay_throws = False\<rparr>"
  let ?mc = "on_resolved True (new_metrics, ?c\<lparr>pending_ops := [] @ []\<rparr>)"
  have r0: "reach (client_start 4) (client_step BigEndian default_scenario) (new_metrics, ?c)"
    by (rule reach_start) (simp add: client_start_def)
  have "client_step BigEndian default_scenario (new_metrics, ?c) ?env ?mc"
    by (rule resolved) (simp add: start_client_def do_connect_def add_op_def make_client_def)
  from reach_step [OF r0, OF this]
  have "reach (client_start 4) (client_step BigEndian default_scenario) (fst ?mc, snd ?mc)"
    by simp
  from client_finishes_once [OF this] show ?thesis
    by (simp add: client_ops start_client_def do_connect_def make_client_def)
qed

text \<open>C14: The load generator ends: once the stop flag is seen, at most five handler executions per client
  remain, whatever they return; and when no client has an operation left and no handler threw, the
  in-flight counter is 0.\<close>

theorem loadgen_drains:
  assumes "reach (loadgen_start n) (loadgen_step E sc) g"
  shows "(drained_steps E sc k g h \<longrightarrow> k \<le> 5 * unat n)
     \<and> ((\<forall>c \<in> set (lg_clients g). pending_ops c = [] \<and> \<not> aborted c) \<longrightarrow> lg_in_flight g = 0)"
proof (intro conjI impI)
  have inv: "loadgen_inv n g" by (rule loadgen_life.reach_inv [OF assms])
  then have ok: "\<forall>c \<in> set (lg_clients g). client_ok c" by (simp add: loadgen_inv_def)
  show "k \<le> 5 * unat n" if "drained_steps E sc k g h"
    using drained_work [OF that] work_left_le [OF ok] inv by (simp add: loadgen_inv_def)
  show "lg_in_flight g = 0" if q: "\<forall>c \<in> set (lg_clients g). pending_ops c = [] \<and> \<not> aborted c"
  proof -
    have "done_calls c = 1" if "c \<in> set (lg_clients g)" for c
      using ok q that by (auto simp: client_ok_def)
    then have "unfinished g = 0" by (simp add: unfinished_def filter_empty_conv)
    then show ?thesis using inv by (simp add: loadgen_inv_def unat_eq_0)
  qed
qed

theorem loadgen_drains_witness:
  "lg_in_flight (launch 0) = 0
   \<and> (\<nexists>h. drained_steps BigEndian default_scenario 16 (on_timer (launch 3)) h)"
proof
  have r: "reach (loadgen_start n) (loadgen_step BigEndian default_scenario) (launch n)" for n
    by (rule reach_start) (simp add: loadgen_start_def)
  show "lg_in_flight (launch 0) = 0"
    using loadgen_drains [OF r [of 0]] by (simp add: launch_def)
  have "loadgen_step BigEndian default_scenario (launch 3) None (on_timer (launch 3))"
    by (rule timer_fires)
  from loadgen_drains [OF reach_step [OF r [of 3], OF this], of 16]
  show "\<nexists>h. drained_steps BigEndian default_scenario 16 (on_timer (launch 3)) h"
    by auto
qed

end
