(* ===== verification/Session_Link.thy ===== *)
theory Session_Link
  imports Session Server_Services
begin

text \<open>
  A connection whose peer is a session of the server, as a blocking client sees it: what the session
  has written for the bytes sent so far, and how much of it the client has read. What the session
  writes is what \<open>run_session\<close> gives for the bytes sent, which is the responses to the frames among
  them. The last part bounds the answers of the server, for both clients of the repository.
\<close>

section \<open>The connection\<close>

record loop =
  lp_sent :: bytes
  lp_read :: nat

definition session_output :: "endianness \<Rightarrow> 'w dispatch_fun \<Rightarrow> 'w \<Rightarrow> bytes \<Rightarrow> bytes" where
  "session_output E disp w inp = snd (snd (run_session E disp w (start (make_session 1)) inp))"

definition loop_arrived :: "endianness \<Rightarrow> 'w dispatch_fun \<Rightarrow> 'w \<Rightarrow> loop \<Rightarrow> bytes" where
  "loop_arrived E disp w k = drop (lp_read k) (session_output E disp w (lp_sent k))"

lemma loop_arrived_read:
  "loop_arrived E disp w (k\<lparr>lp_read := lp_read k + n\<rparr>) = drop n (loop_arrived E disp w k)"
  by (simp add: loop_arrived_def add.commute)

section \<open>Frames\<close>

definition frame_of :: "u16 \<Rightarrow> string \<Rightarrow> message_header \<times> bytes" where
  "frame_of ty pl = (header (make_message ty pl 0), bytes_of_string pl)"

definition frames_bytes :: "endianness \<Rightarrow> (message_header \<times> bytes) list \<Rightarrow> bytes" where
  "frames_bytes E fs = concat (map (\<lambda>(h, p). encode_header E h @ p) fs)"

definition good_frames :: "(message_header \<times> bytes) list \<Rightarrow> bool" where
  "good_frames fs \<longleftrightarrow> (\<forall>(h, p) \<in> set fs. wire_ok h \<and> length p = wire_len h)"

lemma session_output_frames:
  assumes "good_frames fs"
  shows "session_output E disp w (frames_bytes E fs) = concat (map (message_bytes E) (fst (serve disp w fs)))"
proof -
  have aw: "awaiting_header (start (make_session 1))"
    by (simp add: awaiting_header_def start_def do_read_header_def make_session_def)
  have "fst (split_frames (decode_header E) wire_len (frames_bytes E fs)) = fs"
    using wire.split_frames_enc [of fs E "[]"] assms by (simp add: good_frames_def frames_bytes_def)
  with run_session_refines [OF aw, of E disp w "frames_bytes E fs"] show ?thesis
    by (auto simp: session_output_def)
qed

lemma serve_append:
  "serve disp w (fs @ gs) =
     (fst (serve disp w fs) @ fst (serve disp (snd (serve disp w fs)) gs),
      snd (serve disp (snd (serve disp w fs)) gs))"
  by (induction fs arbitrary: w) (auto simp: case_prod_unfold Let_def)

text \<open>Between two exchanges everything the session wrote has been read.\<close>

definition in_sync :: "endianness \<Rightarrow> 'w dispatch_fun \<Rightarrow> 'w \<Rightarrow> (message_header \<times> bytes) list \<Rightarrow> loop \<Rightarrow> bool" where
  "in_sync E disp w fs k \<longleftrightarrow>
     good_frames fs \<and> lp_sent k = frames_bytes E fs
     \<and> lp_read k = length (session_output E disp w (lp_sent k))"

text \<open>One more request adds exactly its response.\<close>

lemma session_output_snoc:
  assumes good: "good_frames fs" and pl: "length pl \<le> 16777216"
    and a: "answer P (snd (serve (dispatch (server_router P)) w0 fs)) t pl = Some (s, w')"
  shows "session_output E (dispatch (server_router P)) w0 (frames_bytes E (fs @ [frame_of t pl])) =
      session_output E (dispatch (server_router P)) w0 (frames_bytes E fs)
      @ message_bytes E (make_message (t OR 0x8000) s 0)"
    and "snd (serve (dispatch (server_router P)) w0 (fs @ [frame_of t pl])) = w'"
    and "good_frames (fs @ [frame_of t pl])"
proof -
  show g: "good_frames (fs @ [frame_of t pl])"
    using good make_message_ok [OF pl, of t 0] by (auto simp: good_frames_def frame_of_def)
  let ?m = "\<lparr>header = header (make_message t pl 0), payload = pl\<rparr>"
  have d: "dispatch (server_router P) (snd (serve (dispatch (server_router P)) w0 fs)) ?m =
      (make_message (t OR 0x8000) s 0, w')"
    using a by (simp add: server_dispatch_answer)
  show "session_output E (dispatch (server_router P)) w0 (frames_bytes E (fs @ [frame_of t pl])) =
      session_output E (dispatch (server_router P)) w0 (frames_bytes E fs)
      @ message_bytes E (make_message (t OR 0x8000) s 0)"
    unfolding session_output_frames [OF g] session_output_frames [OF good]
    using d by (simp add: serve_append frame_of_def case_prod_unfold Let_def)
  show "snd (serve (dispatch (server_router P)) w0 (fs @ [frame_of t pl])) = w'"
    using d by (simp add: serve_append frame_of_def case_prod_unfold Let_def)
qed

section \<open>Requests that are answered\<close>

text \<open>A clock after 1971 and a maths library with a bounded sine and cosine keep every answer small.\<close>

definition world_ok :: "world \<Rightarrow> bool" where
  "world_ok w \<longleftrightarrow> 31536000 \<le> wall_clock w \<and> wall_clock w < 10 ^ 15"

lemma world_ok_count [simp]: "world_ok (w\<lparr>g_order_counter := g\<rparr>) = world_ok w"
  by (simp add: world_ok_def)

lemma length_sql_response: "length (handle_sql_query req) \<le> 2 * length req + 400"
  using length_json_escape [of "extract_string req ''sql''"] length_extract_string [of req "''sql''"]
  by (simp add: handle_sql_query_def sql_rows_json_def missing_sql_json_def Let_def)

lemma length_position_response: "length (handle_get_position req) \<le> length req + 400"
  using length_extract_string [of req "''account''"]
  by (simp add: handle_get_position_def positions_json_def Let_def)

lemma length_answer:
  assumes "answer P w t req = Some (s, w')" and "libm_bounded (plat_libm P)" and "world_ok w"
    and "length (shown_symbol req) \<le> 80"
  shows "length s \<le> 4 * length req + 45000"
  using assms(1) length_sql_response [of req] length_position_response [of req]
    length_build_order_ack [of "g_order_counter w" req "''BUY''"]
    length_build_order_ack [of "g_order_counter w" req "''SELL''"]
    history_response_size [OF assms(2,4), of "wall_clock w" "plat_char_signed P"] assms(3)
  by (auto simp: answer_def world_ok_def split: if_splits)

end
