(* ===== verification/Load_Link.thy ===== *)
theory Load_Link
  imports Load_Generator Session_Link
begin

text \<open>
  A client of the load generator connected to a session of the server, both built from the same
  protocol header on hosts of the same byte order. Bytes travel in pieces in both directions, the
  handlers of both ends complete in any order, and other sessions change the state of the server
  in between. The invariant of the connection says at which stage of an exchange both ends are.
\<close>

section \<open>Every generated request is answered\<close>

lemma order_payload_length: "symb \<in> set symbols \<Longrightarrow> length (fst (order_payload symb rng)) \<le> 76"
proof -
  assume s: "symb \<in> set symbols"
  let ?r = "next_rand (next_rand rng)"
  have "length (fmt_g6 (order_price ?r)) \<le> 7"
    using order_price_range [of ?r] by (intro length_fmt_g6) simp_all
  moreover have "unat (next_rand rng mod 491) < 491" by (simp add: unat_mod_distrib)
  then have "length (nat_str (10 + unat (next_rand rng mod 491))) \<le> 3"
    by (intro length_nat_str) simp_all
  ultimately show ?thesis
    using symbols_plain [OF s] by (simp add: order_payload_obj)
qed

lemma history_payload_days:
  assumes "symb \<in> set symbols" and "d < 24"
  shows "requested_days (history_payload symb (7 + int d)) = Some (int (7 + d))"
    and "length (history_payload symb (7 + int d)) \<le> 60"
proof -
  have p: "\<forall>f \<in> set [(''symbol'', JStr symb), (''days'', JRaw (nat_str (7 + d)))]. plain f"
    using symbols_plain [OF assms(1)] numeric_plain [OF nat_str_numeric [of "7 + d"]]
    by (simp add: good_key_def field_stop_def)
  have k: "good_key ''days''" by (simp add: good_key_def field_stop_def)
  have "extract_int (history_payload symb (7 + int d)) ''days'' 30 = Some (int (7 + d))"
    unfolding history_payload_obj using assms(2) by (intro extract_int_obj [OF k p]) (simp_all add: INT_MAX_def)
  then show "requested_days (history_payload symb (7 + int d)) = Some (int (7 + d))"
    using assms(2) by (simp add: requested_days_def)
  have "length (nat_str (7 + d)) \<le> 2" using assms(2) by (intro length_nat_str) simp_all
  then show "length (history_payload symb (7 + int d)) \<le> 60"
    unfolding history_payload_obj using symbols_plain [OF assms(1)] by simp
qed

text \<open>The request that is sent, as a type and a payload, and that the server has an answer that fits.\<close>

definition answerable :: "platform \<Rightarrow> u16 \<Rightarrow> string \<Rightarrow> bool" where
  "answerable P t pl \<longleftrightarrow> length pl \<le> 100
     \<and> (\<forall>w. world_ok w \<longrightarrow> (\<exists>s w'. answer P w t pl = Some (s, w') \<and> length s \<le> 16777216))"

lemma answerableI:
  assumes "libm_bounded (plat_libm P)" and "length pl \<le> 100" and "length (shown_symbol pl) \<le> 80"
    and "t \<in> {1, 2, 3, 4} \<or> t = 5 \<and> requested_days pl \<noteq> None"
  shows "answerable P t pl"
proof -
  have "\<exists>s w'. answer P w t pl = Some (s, w') \<and> length s \<le> 16777216" if w: "world_ok w" for w
  proof -
    have "answer P w t pl \<noteq> None" using assms(4) by (auto simp: answer_None)
    then obtain s w' where a: "answer P w t pl = Some (s, w')" by auto
    from length_answer [OF a assms(1) w assms(3)] assms(2) a show ?thesis by auto
  qed
  with assms(2) show ?thesis by (simp add: answerable_def)
qed

lemma extract_short: "length pl \<le> 76 \<Longrightarrow> length (shown_symbol pl) \<le> 80"
  using length_extract_string [of pl "''symbol''"] by (simp add: shown_symbol_def)

lemma request_answerable:
  assumes L: "libm_bounded (plat_libm P)" and r: "next_request sc rng = Some (m, rng')"
  shows "\<exists>t pl. m = make_message t pl 0 \<and> answerable P t pl"
proof -
  let ?s = "symbol_of rng" and ?r = "next_rand (next_rand rng)"
  note s = symbol_of_in [of rng]
  note sp = symbols_plain [OF s]
  have m: "(m, rng') = request_of (kind_of sc (pick_of sc rng)) ?s ?r"
    using r by (simp add: next_request_eq split: if_splits)
  note op = order_payload_length [OF s, of ?r]
  have sql: "answerable P 1 (sql_payload ?s)"
    using sp by (intro answerableI [OF L] extract_short) (simp_all add: sql_payload_def)
  have buy: "answerable P 2 (fst (order_payload ?s ?r))" and sell: "answerable P 3 (fst (order_payload ?s ?r))"
    using op by (intro answerableI [OF L] extract_short; simp)+
  have pos: "answerable P 4 position_payload"
    by (intro answerableI [OF L] extract_short) (simp_all add: position_payload_def)
  have "unat (next_rand ?r mod 24) < 24" by (simp add: unat_mod_distrib)
  note h = history_payload_days [OF s this]
  have his: "answerable P 5 (history_payload ?s (7 + int (unat (next_rand ?r mod 24))))"
    using h by (intro answerableI [OF L] extract_short) simp_all
  show ?thesis
    using m sql buy sell pos his
    by (cases "kind_of sc (pick_of sc rng)") (auto simp: request_of_def simp del: of_nat_numeral)
qed

lemma link_phase_cases:
  assumes "client_ok c" and "\<not> aborted c"
  shows "pending_ops c = [] \<and> done_calls c = 1 \<or> (\<exists>op. pending_ops c = [op] \<and> done_calls c = 0)"
  using assms by (cases "pending_ops c") (auto simp: client_ok_def split: if_splits)

section \<open>A client and a session on one connection\<close>

text \<open>
  \<open>lk_up\<close> and \<open>lk_down\<close> hold the bytes that have arrived and were not read yet, \<open>lk_up_out\<close> and
  \<open>lk_down_out\<close> what is left to transfer of the write that an end has pending.
\<close>

record link =
  lk_world :: world
  lk_session :: session
  lk_metrics :: metrics
  lk_client :: client
  lk_up :: bytes
  lk_up_out :: bytes
  lk_down :: bytes
  lk_down_out :: bytes

datatype link_event = ClientRuns client_env | SessionRuns | Delivered | OtherSessions

text \<open>
  The completion of the client's operation: connecting succeeds, a write completes when all its bytes
  are transferred, a read when enough bytes have arrived.
\<close>

definition client_output :: "client \<Rightarrow> bytes" where
  "client_output c = (case pending_ops c of [Writing bs] \<Rightarrow> bs | _ \<Rightarrow> [])"

definition client_did :: "metrics \<times> client \<Rightarrow> nat \<Rightarrow> link \<Rightarrow> link" where
  "client_did mc n l =
     l\<lparr>lk_metrics := fst mc, lk_client := snd mc, lk_up_out := client_output (snd mc),
       lk_down := drop n (lk_down l)\<rparr>"

definition client_turn :: "endianness \<Rightarrow> scenario \<Rightarrow> client_env \<Rightarrow> link \<Rightarrow> link option" where
  "client_turn E sc env l =
     (let mc = (lk_metrics l, (lk_client l)\<lparr>pending_ops := []\<rparr>)
      in case pending_ops (lk_client l) of
           [op] \<Rightarrow>
             (case op of
                Resolving \<Rightarrow> Some (client_did (on_resolved False mc) 0 l)
              | Connecting \<Rightarrow>
                  if nodelay_throws env then None else Some (client_did (on_connected E sc env False mc) 0 l)
              | Writing bs \<Rightarrow>
                  if lk_up_out l \<noteq> [] then None else Some (client_did (on_written False mc) 0 l)
              | ReadingHeader \<Rightarrow>
                  if length (lk_down l) < kHeaderSize then None
                  else Some (client_did
                    (on_response_header E sc env (IoOk (take kHeaderSize (lk_down l))) mc) kHeaderSize l)
              | ReadingBody n \<Rightarrow>
                  if length (lk_down l) < n then None
                  else Some (client_did (on_response_body E sc env (IoOk (take n (lk_down l))) mc) n l))
         | _ \<Rightarrow> None)"

text \<open>The completion of the session's operation; a read fails when the client has closed its socket.\<close>

definition session_reads :: "nat \<Rightarrow> link \<Rightarrow> io_result option" where
  "session_reads n l =
     (if n \<le> length (lk_up l) then Some (IoOk (take n (lk_up l)))
      else if \<not> cl_socket_open (lk_client l) \<and> lk_up_out l = [] then Some IoErr
      else None)"

definition session_writes :: "session \<Rightarrow> bytes" where
  "session_writes s = (case outstanding s of [AsyncWrite bs] \<Rightarrow> bs | _ \<Rightarrow> [])"

definition session_did :: "world \<times> session \<Rightarrow> nat \<Rightarrow> link \<Rightarrow> link" where
  "session_did ws n l =
     l\<lparr>lk_world := fst ws, lk_session := snd ws, lk_down_out := session_writes (snd ws),
       lk_up := drop n (lk_up l)\<rparr>"

definition session_turn :: "endianness \<Rightarrow> platform \<Rightarrow> link \<Rightarrow> link option" where
  "session_turn E P l =
     (let disp = dispatch (server_router P); s = (lk_session l)\<lparr>outstanding := []\<rparr>
      in case outstanding (lk_session l) of
           [op] \<Rightarrow>
             (case op of
                AsyncReadHeader \<Rightarrow>
                  map_option (\<lambda>r. session_did (header_read E disp r (lk_world l) s) kHeaderSize l)
                    (session_reads kHeaderSize l)
              | AsyncReadBody n \<Rightarrow>
                  map_option (\<lambda>r. session_did (body_read E disp r (lk_world l) s) n l) (session_reads n l)
              | AsyncWrite bs \<Rightarrow>
                  if lk_down_out l \<noteq> [] then None
                  else Some (session_did (lk_world l, write_done (IoOk bs) s) 0 l))
         | _ \<Rightarrow> None)"

inductive link_step :: "endianness \<Rightarrow> scenario \<Rightarrow> platform \<Rightarrow> link \<Rightarrow> link_event \<Rightarrow> link \<Rightarrow> bool"
  for E :: endianness and sc :: scenario and P :: platform
where
  client_runs: "client_turn E sc env l = Some l' \<Longrightarrow> link_step E sc P l (ClientRuns env) l'"
| session_runs: "session_turn E P l = Some l' \<Longrightarrow> link_step E sc P l SessionRuns l'"
| up_delivered:
    "lk_up_out l = xs @ ys \<Longrightarrow> xs \<noteq> [] \<Longrightarrow>
     link_step E sc P l Delivered (l\<lparr>lk_up := lk_up l @ xs, lk_up_out := ys\<rparr>)"
| down_delivered:
    "lk_down_out l = xs @ ys \<Longrightarrow> xs \<noteq> [] \<Longrightarrow>
     link_step E sc P l Delivered (l\<lparr>lk_down := lk_down l @ xs, lk_down_out := ys\<rparr>)"
| others_run: "world_ok w \<Longrightarrow> link_step E sc P l OtherSessions (l\<lparr>lk_world := w\<rparr>)"

definition link_start :: "u32 \<Rightarrow> link \<Rightarrow> bool" where
  "link_start client_id l \<longleftrightarrow>
     (\<exists>w sid. world_ok w \<and> l =
        \<lparr>lk_world = w, lk_session = start (make_session sid), lk_metrics = new_metrics,
         lk_client = start_client (make_client client_id),
         lk_up = [], lk_up_out = [], lk_down = [], lk_down_out = []\<rparr>)"

text \<open>A turn of an end is a step of that end's own relation.\<close>

lemma client_turn_step:
  assumes "client_turn E sc env l = Some l'"
  shows "client_step E sc (lk_metrics l, lk_client l) env (lk_metrics l', lk_client l')"
proof -
  from assms obtain op where op: "pending_ops (lk_client l) = [] @ op # []"
    by (auto simp: client_turn_def Let_def split: list.splits)
  let ?c = "lk_client l" and ?m = "lk_metrics l"
  show ?thesis
  proof (cases op)
    case Resolving
    with assms op client_step.resolved [of ?c "[]" "[]" E sc ?m env False] show ?thesis
      by (auto simp: client_turn_def client_did_def Let_def)
  next
    case Connecting
    with assms op client_step.connected [of ?c "[]" "[]" E sc ?m env False] show ?thesis
      by (auto simp: client_turn_def client_did_def Let_def split: if_splits)
  next
    case (Writing bs)
    with assms op client_step.written [of ?c "[]" bs "[]" E sc ?m env False] show ?thesis
      by (auto simp: client_turn_def client_did_def Let_def split: if_splits)
  next
    case ReadingHeader
    with assms op client_step.header_arrived [of ?c "[]" "[]" "IoOk (take kHeaderSize (lk_down l))" E sc ?m env]
    show ?thesis by (auto simp: client_turn_def client_did_def Let_def split: if_splits)
  next
    case (ReadingBody n)
    with assms op client_step.body_arrived [of ?c "[]" n "[]" "IoOk (take n (lk_down l))" E sc ?m env]
    show ?thesis by (auto simp: client_turn_def client_did_def Let_def split: if_splits)
  qed
qed

lemma session_turn_step:
  assumes "session_turn E P l = Some l'" and "alive (lk_session l)"
  shows "\<exists>e. e \<noteq> ContextDestroyed
     \<and> session_step E (dispatch (server_router P)) (lk_world l, lk_session l) e (lk_world l', lk_session l')"
proof -
  from assms(1) obtain op where op: "outstanding (lk_session l) = [op]"
    by (auto simp: session_turn_def Let_def split: list.splits)
  show ?thesis
  proof (cases op)
    case AsyncReadHeader
    with assms(1) op obtain r where r: "session_reads kHeaderSize l = Some r"
      and l': "l' = session_did (header_read E (dispatch (server_router P)) r (lk_world l)
        ((lk_session l)\<lparr>outstanding := []\<rparr>)) kHeaderSize l"
      by (auto simp: session_turn_def Let_def)
    have "\<And>bs. r = IoOk bs \<Longrightarrow> length bs = kHeaderSize"
      using r by (auto simp: session_reads_def split: if_splits)
    note did = header_done [OF assms(2), of "[]" "[]" r, OF _ this]
    from did op AsyncReadHeader l' show ?thesis
      by (intro exI [of _ "HeaderDone r"]) (simp add: session_did_def)
  next
    case (AsyncReadBody n)
    with assms(1) op obtain r where r: "session_reads n l = Some r"
      and l': "l' = session_did (body_read E (dispatch (server_router P)) r (lk_world l)
        ((lk_session l)\<lparr>outstanding := []\<rparr>)) n l"
      by (auto simp: session_turn_def Let_def)
    have "\<And>bs. r = IoOk bs \<Longrightarrow> length bs = n"
      using r by (auto simp: session_reads_def split: if_splits)
    note did = body_done [OF assms(2), of "[]" _ "[]" r, OF _ this]
    from did op AsyncReadBody l' show ?thesis
      by (intro exI [of _ "BodyDone r"]) (simp add: session_did_def)
  next
    case (AsyncWrite bs)
    with assms op write_finished [OF assms(2), of "[]" bs "[]" E "dispatch (server_router P)"
        "lk_world l" "IoOk bs"]
    show ?thesis
      by (intro exI [of _ "WriteDone (IoOk bs)"]) (auto simp: session_turn_def session_did_def Let_def split: if_splits)
  qed
qed

section \<open>What is on the way\<close>

text \<open>
  The session has nothing left to transfer but may still have to run the handler of its last write;
  \<open>reply_due\<close> and the following are the stages of one exchange.
\<close>

definition session_quiet :: "link \<Rightarrow> bool" where
  "session_quiet l \<longleftrightarrow>
     \<not> session.closed (lk_session l)
     \<and> ((\<exists>bs. outstanding (lk_session l) = [AsyncWrite bs])
        \<or> outstanding (lk_session l) = [AsyncReadHeader] \<and> lk_down_out l = [])"

definition up_total :: "link \<Rightarrow> bytes" where
  "up_total l = lk_up l @ lk_up_out l"

definition down_total :: "link \<Rightarrow> bytes" where
  "down_total l = lk_down l @ lk_down_out l"

definition request_sent :: "endianness \<Rightarrow> platform \<Rightarrow> link \<Rightarrow> bool" where
  "request_sent E P l \<longleftrightarrow>
     session_quiet l \<and> down_total l = []
     \<and> (\<exists>t pl. answerable P t pl \<and> up_total l = message_bytes E (make_message t pl 0))"

definition body_awaited :: "platform \<Rightarrow> link \<Rightarrow> bool" where
  "body_awaited P l \<longleftrightarrow>
     \<not> session.closed (lk_session l) \<and> down_total l = []
     \<and> (\<exists>t pl. answerable P t pl \<and> pl \<noteq> [] \<and> up_total l = bytes_of_string pl
          \<and> outstanding (lk_session l) = [AsyncReadBody (length pl)]
          \<and> current_header (lk_session l) = header (make_message t pl 0))"

definition reply_due :: "endianness \<Rightarrow> link \<Rightarrow> bool" where
  "reply_due E l \<longleftrightarrow>
     session_quiet l \<and> up_total l = []
     \<and> (\<exists>t s. length s \<le> 16777216 \<and> down_total l = message_bytes E (make_message t s 0))"

definition exchange :: "endianness \<Rightarrow> platform \<Rightarrow> link \<Rightarrow> bool" where
  "exchange E P l \<longleftrightarrow> request_sent E P l \<or> body_awaited P l \<or> reply_due E l"

definition between_exchanges :: "link \<Rightarrow> bool" where
  "between_exchanges l \<longleftrightarrow> session_quiet l \<and> up_total l = [] \<and> down_total l = []"

fun client_phase :: "endianness \<Rightarrow> platform \<Rightarrow> client_op list \<Rightarrow> link \<Rightarrow> bool" where
  "client_phase E P [] l =
     (between_exchanges l
      \<or> session.closed (lk_session l) \<and> outstanding (lk_session l) = [] \<and> up_total l = [] \<and> down_total l = [])"
| "client_phase E P [Resolving] l = between_exchanges l"
| "client_phase E P [Connecting] l = between_exchanges l"
| "client_phase E P [Writing bs] l = exchange E P l"
| "client_phase E P [ReadingHeader] l = (lk_up_out l = [] \<and> exchange E P l)"
| "client_phase E P [ReadingBody n] l =
     (session_quiet l \<and> up_total l = [] \<and> length (down_total l) = n)"
| "client_phase E P ops l = False"

definition link_inv :: "endianness \<Rightarrow> platform \<Rightarrow> link \<Rightarrow> bool" where
  "link_inv E P l \<longleftrightarrow>
     world_ok (lk_world l) \<and> alive (lk_session l)
     \<and> client_ok (lk_client l) \<and> \<not> aborted (lk_client l)
     \<and> errors_ctr (lk_metrics l) = 0
     \<and> successes_ctr (lk_metrics l) = of_nat (length (samples_us (lk_metrics l)))
     \<and> client_phase E P (pending_ops (lk_client l)) l"

lemmas stage_defs = exchange_def request_sent_def body_awaited_def reply_due_def between_exchanges_def

lemma link_inv_start: "link_start client_id l \<Longrightarrow> link_inv E P l"
  using client_inv_start [of client_id "(new_metrics, start_client (make_client client_id))"]
  by (auto simp: link_start_def link_inv_def client_start_def client_inv_def new_metrics_def
      start_client_def do_connect_def add_op_def make_client_def between_exchanges_def session_quiet_def
      up_total_def down_total_def start_def do_read_header_def make_session_def)

text \<open>Whatever keeps the stages and the two totals keeps the phase.\<close>

lemma client_phase_mono:
  assumes "client_phase E P ops l"
    and "session_quiet l \<longrightarrow> session_quiet l'" and "body_awaited P l \<longrightarrow> body_awaited P l'"
    and "session.closed (lk_session l) \<longrightarrow>
      session.closed (lk_session l') \<and> outstanding (lk_session l') = outstanding (lk_session l)"
    and "up_total l' = up_total l" and "down_total l' = down_total l"
    and "lk_up_out l = [] \<longrightarrow> lk_up_out l' = []"
  shows "client_phase E P ops l'"
proof -
  have ex: "exchange E P l \<Longrightarrow> exchange E P l'"
    using assms(2,3,5,6) unfolding exchange_def request_sent_def reply_due_def by metis
  have b: "between_exchanges l \<Longrightarrow> between_exchanges l'"
    using assms(2,5,6) by (simp add: between_exchanges_def)
  show ?thesis
    using assms ex b by (cases "(E, P, ops, l)" rule: client_phase.cases) auto
qed

lemma client_phase_cong:
  assumes "client_phase E P ops l" and "lk_session l' = lk_session l"
    and "up_total l' = up_total l" and "down_total l' = down_total l"
    and "lk_up_out l = [] \<longrightarrow> lk_up_out l' = []" and "lk_down_out l = [] \<longrightarrow> lk_down_out l' = []"
  shows "client_phase E P ops l'"
  using assms(1)
proof (rule client_phase_mono)
  show "session_quiet l \<longrightarrow> session_quiet l'" using assms(2,6) by (auto simp: session_quiet_def)
  show "body_awaited P l \<longrightarrow> body_awaited P l'" using assms(2-4) by (simp add: body_awaited_def)
qed (use assms in simp_all)

section \<open>The session's turn\<close>

lemma dispatch_reply:
  assumes a: "answerable P t pl" and w: "world_ok w" and h: "current_header s = header (make_message t pl 0)"
    and s: "outstanding s = []" "\<not> session.closed s"
  shows "\<exists>r w' s'. dispatch_and_write E (dispatch (server_router P)) w (s\<lparr>body_buf := bytes_of_string pl\<rparr>) = (w', s')
     \<and> world_ok w' \<and> length r \<le> 16777216 \<and> \<not> session.closed s' \<and> alive s' = alive s
     \<and> outstanding s' = [AsyncWrite (message_bytes E (make_message (t OR 0x8000) r 0))]"
proof -
  from a w obtain r w' where an: "answer P w t pl = Some (r, w')" and r: "length r \<le> 16777216"
    by (auto simp: answerable_def)
  have d: "dispatch (server_router P) w \<lparr>header = header (make_message t pl 0), payload = pl\<rparr> =
      (make_message (t OR 0x8000) r 0, w')"
    using an by (simp add: server_dispatch_answer)
  have "world_ok (snd (dispatch (server_router P) w \<lparr>header = header (make_message t pl 0), payload = pl\<rparr>))"
    using w by (simp add: server_dispatch_world)
  then have "world_ok w'" by (simp add: d)
  with d r h s show ?thesis
    by (intro exI [of _ r] exI [of _ w'])
      (simp add: dispatch_and_write_def do_write_def message_bytes_def case_prod_unfold Let_def)
qed

lemma reply_dueI:
  assumes "length r \<le> 16777216" and "\<not> session.closed s'" and "n = length (lk_up l)" and "lk_up_out l = []" and "down_total l = []"
    and "outstanding s' = [AsyncWrite (message_bytes E (make_message t r 0))]"
  shows "reply_due E (session_did (w', s') n l)"
  using assms unfolding reply_due_def session_quiet_def up_total_def down_total_def
  by (intro conjI exI [of _ t] exI [of _ r]) (auto simp: session_did_def session_writes_def)

lemma request_turn:
  assumes q: "request_sent E P l" and o: "outstanding (lk_session l) = [AsyncReadHeader]"
    and w: "world_ok (lk_world l)" and c: "cl_socket_open (lk_client l)" and t: "session_turn E P l = Some l'"
  shows "(body_awaited P l' \<or> reply_due E l') \<and> world_ok (lk_world l') \<and> alive (lk_session l') = alive (lk_session l)"
proof -
  from q obtain t pl where a: "answerable P t pl" and up: "up_total l = message_bytes E (make_message t pl 0)"
    and down: "down_total l = []" and nc: "\<not> session.closed (lk_session l)"
    by (auto simp: request_sent_def session_quiet_def)
  from assms(5) o c have len: "kHeaderSize \<le> length (lk_up l)"
    and l': "l' = session_did (header_read E (dispatch (server_router P)) (IoOk (take kHeaderSize (lk_up l)))
      (lk_world l) ((lk_session l)\<lparr>outstanding := []\<rparr>)) kHeaderSize l"
    by (auto simp: session_turn_def session_reads_def split: if_splits)
  let ?h = "header (make_message t pl 0)"
  have pl: "length pl \<le> 16777216" using a by (simp add: answerable_def)
  have wl: "unat (payload_length ?h) = length pl"
    using make_message_ok(2) [OF pl, of t 0] by (simp add: wire_len_def)
  have "take kHeaderSize (up_total l) = encode_header E ?h"
    unfolding up message_bytes_def by (simp add: wire.enc_width)
  then have tk: "take kHeaderSize (lk_up l) = encode_header E ?h"
    using len by (simp add: up_total_def)
  have "drop kHeaderSize (up_total l) = bytes_of_string pl"
    unfolding up message_bytes_def by (simp add: wire.enc_width)
  then have dr: "drop kHeaderSize (lk_up l) @ lk_up_out l = bytes_of_string pl"
    using len by (simp add: up_total_def)
  have dec: "decode_header E (encode_header E ?h) = Inr ?h"
    by (rule wire.dec_enc [OF make_message_ok(1) [OF pl]])
  show ?thesis
  proof (cases "pl = []")
    case False
    then have "payload_length ?h \<noteq> 0" using wl by (metis length_0_conv unat_0)
    with False w nc down dr a wl show ?thesis
      unfolding l' tk body_awaited_def
      by (auto simp: header_read_def dec do_read_body_def session_did_def session_writes_def
          up_total_def down_total_def Let_def simp del: make_message_sel)
  next
    case True
    define s1 where "s1 = (lk_session l)\<lparr>outstanding := [], header_buf := encode_header E ?h, current_header := ?h\<rparr>"
    have "current_header s1 = header (make_message t pl 0)" "outstanding s1 = []" "\<not> session.closed s1"
      using nc by (simp_all add: s1_def)
    from dispatch_reply [OF a w this, of E] obtain r w' s' where
      d: "dispatch_and_write E (dispatch (server_router P)) (lk_world l) (s1\<lparr>body_buf := bytes_of_string pl\<rparr>) = (w', s')"
      and r: "world_ok w'" "length r \<le> 16777216" "\<not> session.closed s'" "alive s' = alive s1"
        "outstanding s' = [AsyncWrite (message_bytes E (make_message (t OR 0x8000) r 0))]"
      by blast
    have z: "payload_length ?h = 0" using True by simp
    have "header_read E (dispatch (server_router P)) (IoOk (take kHeaderSize (lk_up l)))
      (lk_world l) ((lk_session l)\<lparr>outstanding := []\<rparr>) = (w', s')"
      using d True z unfolding tk by (simp add: header_read_def dec [unfolded True] do_read_body_def s1_def Let_def del: make_message_sel)
    then have l'': "l' = session_did (w', s') kHeaderSize l" by (simp add: l')
    have "lk_up_out l = []" "kHeaderSize = length (lk_up l)" using dr len True by auto
    with reply_dueI [OF r(2,3) _ _ down r(5), of kHeaderSize w'] r(1,4) show ?thesis
      unfolding l'' by (simp add: session_did_def s1_def)
  qed
qed

lemma body_turn:
  assumes q: "body_awaited P l" and w: "world_ok (lk_world l)" and c: "cl_socket_open (lk_client l)"
    and t: "session_turn E P l = Some l'"
  shows "reply_due E l' \<and> world_ok (lk_world l') \<and> alive (lk_session l') = alive (lk_session l)"
proof -
  from q obtain t pl where a: "answerable P t pl" and up: "up_total l = bytes_of_string pl"
    and o: "outstanding (lk_session l) = [AsyncReadBody (length pl)]"
    and h: "current_header (lk_session l) = header (make_message t pl 0)"
    and down: "down_total l = []" and nc: "\<not> session.closed (lk_session l)"
    by (auto simp: body_awaited_def)
  let ?n = "length pl" and ?s = "(lk_session l)\<lparr>outstanding := []\<rparr>"
  from assms(4) o c have len: "?n \<le> length (lk_up l)"
    and l': "l' = session_did (body_read E (dispatch (server_router P)) (IoOk (take ?n (lk_up l))) (lk_world l) ?s) ?n l"
    by (auto simp: session_turn_def session_reads_def split: if_splits)
  have "length (up_total l) = ?n" by (simp add: up)
  then have "?n = length (lk_up l) + length (lk_up_out l)" by (simp add: up_total_def)
  with len have n: "?n = length (lk_up l)" "lk_up_out l = []" by simp_all
  with up have tk: "take ?n (lk_up l) = bytes_of_string pl" by (simp add: up_total_def)
  have "current_header ?s = header (make_message t pl 0)" "outstanding ?s = []" "\<not> session.closed ?s"
    using h nc by simp_all
  from dispatch_reply [OF a w this, of E] obtain r w' s' where
    d: "dispatch_and_write E (dispatch (server_router P)) (lk_world l) (?s\<lparr>body_buf := bytes_of_string pl\<rparr>) = (w', s')"
    and r: "world_ok w'" "length r \<le> 16777216" "\<not> session.closed s'" "alive s' = alive ?s"
      "outstanding s' = [AsyncWrite (message_bytes E (make_message (t OR 0x8000) r 0))]"
    by blast
  have l'': "l' = session_did (w', s') ?n l"
    unfolding l' tk by (simp add: body_read_def d del: session.update_convs)
  have "reply_due E (session_did (w', s') ?n l)"
    using reply_dueI [OF r(2,3) n down r(5)] by simp
  with r(1,4) show ?thesis by (simp add: l'' session_did_def)
qed

text \<open>With nothing arrived only the handler of a finished write can run, or the end of the stream.\<close>

lemma write_turn:
  assumes "outstanding (lk_session l) = [AsyncWrite bs]" and "session_turn E P l = Some l'"
  shows "lk_down_out l = []" and "lk_down_out l' = []" and "lk_world l' = lk_world l"
    and "lk_session l' = (lk_session l)\<lparr>outstanding := [AsyncReadHeader]\<rparr>"
    and "lk_up l' = lk_up l" and "lk_down l' = lk_down l"
  using assms
  by (auto simp: session_turn_def session_did_def write_done_def do_read_header_def session_writes_def Let_def
      split: if_splits)

lemma session_turn_keeps:
  assumes "session_turn E P l = Some l'"
  shows "lk_client l' = lk_client l" and "lk_metrics l' = lk_metrics l" and "lk_up_out l' = lk_up_out l"
  using assms
  by (auto simp: session_turn_def session_did_def Let_def split: list.splits async_op.splits if_splits)

lemma quiet_turn:
  assumes q: "session_quiet l" and up: "up_total l = []" and t: "session_turn E P l = Some l'"
  shows "(session_quiet l' \<or> \<not> cl_socket_open (lk_client l) \<and> session.closed (lk_session l')
        \<and> outstanding (lk_session l') = [] \<and> lk_down_out l' = [])
     \<and> up_total l' = [] \<and> down_total l' = down_total l
     \<and> lk_world l' = lk_world l \<and> alive (lk_session l') = alive (lk_session l)"
  using q [unfolded session_quiet_def]
proof (elim conjE disjE exE)
  fix bs assume nc: "\<not> session.closed (lk_session l)" and o: "outstanding (lk_session l) = [AsyncWrite bs]"
  note wt = write_turn [OF o t]
  show ?thesis
    using nc up wt session_turn_keeps(3) [OF t] by (simp add: session_quiet_def up_total_def down_total_def)
next
  assume nc: "\<not> session.closed (lk_session l)" and o: "outstanding (lk_session l) = [AsyncReadHeader]"
    and d: "lk_down_out l = []"
  have "\<not> kHeaderSize \<le> length (lk_up l)" using up by (simp add: up_total_def kHeaderSize_def)
  then show ?thesis
    using t o nc d up
    by (auto simp: session_turn_def session_reads_def session_did_def header_read_def close_def
        session_writes_def up_total_def down_total_def split: if_splits)
qed

lemma exchange_turn:
  assumes ex: "exchange E P l" and w: "world_ok (lk_world l)" and c: "cl_socket_open (lk_client l)"
    and t: "session_turn E P l = Some l'"
  shows "exchange E P l' \<and> world_ok (lk_world l') \<and> alive (lk_session l') = alive (lk_session l)"
  using ex [unfolded exchange_def]
proof (elim disjE)
  assume r: "request_sent E P l"
  then consider bs where "outstanding (lk_session l) = [AsyncWrite bs]" | "outstanding (lk_session l) = [AsyncReadHeader]"
    by (auto simp: request_sent_def session_quiet_def)
  then show ?thesis
  proof cases
    case 1
    note wt = write_turn [OF 1 t]
    have "request_sent E P l'"
      using r wt session_turn_keeps(3) [OF t]
      by (auto simp: request_sent_def session_quiet_def up_total_def down_total_def)
    with w wt show ?thesis by (simp add: exchange_def)
  next
    case 2
    from request_turn [OF r 2 w c t] show ?thesis by (auto simp: exchange_def)
  qed
next
  assume "body_awaited P l"
  from body_turn [OF this w c t] show ?thesis by (simp add: exchange_def)
next
  assume r: "reply_due E l"
  then have "session_quiet l" "up_total l = []" by (simp_all add: reply_due_def)
  from quiet_turn [OF this t] r w c show ?thesis by (auto simp: exchange_def reply_due_def)
qed

lemma session_turn_inv:
  assumes inv: "link_inv E P l" and t: "session_turn E P l = Some l'"
  shows "link_inv E P l'"
proof -
  note keep = session_turn_keeps [OF t]
  let ?ops = "pending_ops (lk_client l)"
  have w: "world_ok (lk_world l)" and al: "alive (lk_session l)" and ok: "client_ok (lk_client l)"
    and ab: "\<not> aborted (lk_client l)" and ph: "client_phase E P ?ops l"
    using inv by (auto simp: link_inv_def)
  have op: "cl_socket_open (lk_client l)" if "?ops \<noteq> []"
    using ok ab that by (cases ?ops) (auto simp: client_ok_def split: if_splits)
  have "client_phase E P ?ops l' \<and> world_ok (lk_world l') \<and> alive (lk_session l')"
  proof (cases "\<exists>op. ?ops = [op]")
    case False
    then have e: "?ops = []" using ph by (cases "(E, P, ?ops, l)" rule: client_phase.cases) auto
    have "outstanding (lk_session l) \<noteq> []" using t by (auto simp: session_turn_def Let_def)
    then have "between_exchanges l" using ph e by simp
    then have "session_quiet l" "up_total l = []" "down_total l = []" by (simp_all add: between_exchanges_def)
    with quiet_turn [OF this(1,2) t] e w al show ?thesis by (auto simp: between_exchanges_def)
  next
    case True
    then obtain op where o: "?ops = [op]" by blast
    with op have c: "cl_socket_open (lk_client l)" by simp
    show ?thesis
      using ph o w al quiet_turn [OF _ _ t] exchange_turn [OF _ w c t] c keep(3)
      by (cases op) (auto simp: between_exchanges_def)
  qed
  with inv keep show ?thesis by (simp add: link_inv_def)
qed

section \<open>The client's turn\<close>

text \<open>Sending the next request, or finishing when the flag is set.\<close>

lemma send_phase:
  assumes idle: "client_idle c" and L: "libm_bounded (plat_libm P)" and ok: "weights_ok sc"
    and l: "session_quiet l" "lk_up l = []" "down_total l = []"
    and c': "c' = do_send_request E sc env c" and out: "lk_up_out l = client_output c'"
  shows "\<not> aborted c' \<and> client_phase E P (pending_ops c') l"
proof (cases "env_stop env")
  case True
  with idle have p: "pending_ops c' = []" "\<not> aborted c'"
    by (simp_all add: c' do_send_request_def finish_def client_idle_def)
  with l out show ?thesis by (simp add: between_exchanges_def up_total_def client_output_def)
next
  case False
  obtain m r where n: "next_request sc (rng_state c) = Some (m, r)"
    using ok by (simp add: next_request_eq) (metis surj_pair)
  from request_answerable [OF L n] obtain t pl where m: "m = make_message t pl 0" and a: "answerable P t pl"
    by blast
  have p: "pending_ops c' = [Writing (message_bytes E m)]" "\<not> aborted c'"
    using False n idle
    by (simp_all add: c' do_send_request_def add_op_def client_idle_def message_bytes_def Let_def)
  then have "up_total l = message_bytes E (make_message t pl 0)"
    using l out by (simp add: up_total_def client_output_def m)
  with a l have "request_sent E P l" by (auto simp: request_sent_def)
  with p show ?thesis by (simp add: exchange_def)
qed

definition counts_ok :: "metrics \<Rightarrow> bool" where
  "counts_ok m \<longleftrightarrow> errors_ctr m = 0 \<and> successes_ctr m = of_nat (length (samples_us m))"

lemma counts_ok_success: "counts_ok m \<Longrightarrow> counts_ok (record_success us m)"
  by (simp add: counts_ok_def record_success_def)

lemma response_phase:
  assumes idle: "client_idle c" and L: "libm_bounded (plat_libm P)" and ok: "weights_ok sc"
    and l: "session_quiet l" "lk_up l = []" "down_total l = []" and m: "counts_ok m"
    and r: "response_complete E sc env (m, c) = (m', c')" and out: "lk_up_out l = client_output c'"
  shows "counts_ok m' \<and> \<not> aborted c' \<and> client_phase E P (pending_ops c') l"
  using send_phase [OF idle L ok l refl, of E env] r out counts_ok_success [OF m]
  by (auto simp: response_complete_def)

lemma client_did_sel [simp]:
  "lk_world (client_did mc n l) = lk_world l" "lk_session (client_did mc n l) = lk_session l"
  "lk_metrics (client_did mc n l) = fst mc" "lk_client (client_did mc n l) = snd mc"
  "lk_up (client_did mc n l) = lk_up l" "lk_up_out (client_did mc n l) = client_output (snd mc)"
  "lk_down (client_did mc n l) = drop n (lk_down l)" "lk_down_out (client_did mc n l) = lk_down_out l"
  "session_quiet (client_did mc n l) = session_quiet l"
  by (simp_all add: client_did_def session_quiet_def)

text \<open>What an operation of the client leads to: good counts, no abort, and the next phase.\<close>

definition lands :: "endianness \<Rightarrow> platform \<Rightarrow> link \<Rightarrow> bool" where
  "lands E P l \<longleftrightarrow>
     counts_ok (lk_metrics l) \<and> \<not> aborted (lk_client l) \<and> client_phase E P (pending_ops (lk_client l)) l"

lemma quiet_read_all:
  assumes "session_quiet l" and "up_total l = []" and "length (down_total l) = n" and "n \<le> length (lk_down l)"
  shows "down_total (client_did mc n l) = []" and "lk_up l = []"
proof -
  have "length (lk_down l) + length (lk_down_out l) = n" using assms(3) by (simp add: down_total_def)
  then have "length (lk_down_out l) = 0" using assms(4) by linarith
  with assms show "down_total (client_did mc n l) = []" "lk_up l = []"
    by (simp_all add: down_total_def up_total_def)
qed

lemma body_lands:
  assumes idle: "client_idle c" and L: "libm_bounded (plat_libm P)" and ok: "weights_ok sc" and m: "counts_ok m"
    and q: "session_quiet l" "up_total l = []" "length (down_total l) = n" "n \<le> length (lk_down l)"
  shows "lands E P (client_did (on_response_body E sc env (IoOk bs) (m, c)) n l)"
proof -
  let ?c = "c\<lparr>cl_body_buf := bs\<rparr>"
  obtain m' c' where r: "response_complete E sc env (m, ?c) = (m', c')" by fastforce
  have i: "client_idle ?c" using idle by (simp add: client_idle_def)
  let ?l = "client_did (m', c') n l"
  have "session_quiet ?l" "lk_up ?l = []" "down_total ?l = []" "lk_up_out ?l = client_output c'"
    using q quiet_read_all [OF q] by simp_all
  from response_phase [OF i L ok this(1-3) m r this(4)] show ?thesis
    by (simp add: lands_def on_response_body_def r)
qed

lemma header_lands:
  assumes idle: "client_idle c" and L: "libm_bounded (plat_libm P)" and ok: "weights_ok sc" and m: "counts_ok m"
    and ex: "exchange E P l" and up: "lk_up_out l = []" and len: "kHeaderSize \<le> length (lk_down l)"
  shows "lands E P (client_did (on_response_header E sc env (IoOk (take kHeaderSize (lk_down l))) (m, c)) kHeaderSize l)"
proof -
  have "down_total l \<noteq> []" using len by (auto simp: down_total_def kHeaderSize_def)
  with ex have "reply_due E l" by (auto simp: exchange_def request_sent_def body_awaited_def)
  then obtain t s where q: "session_quiet l" "up_total l = []" and s: "length s \<le> 16777216"
    and down: "down_total l = message_bytes E (make_message t s 0)"
    by (auto simp: reply_due_def)
  let ?h = "header (make_message t s 0)"
  have "take kHeaderSize (down_total l) = encode_header E ?h"
    unfolding down message_bytes_def by (simp add: wire.enc_width)
  then have tk: "take kHeaderSize (lk_down l) = encode_header E ?h" using len by (simp add: down_total_def)
  have ldown: "length (down_total l) = kHeaderSize + length s"
    unfolding down by (simp add: length_message_bytes)
  have dec: "decode_header E (encode_header E ?h) = Inr ?h"
    by (rule wire.dec_enc [OF make_message_ok(1) [OF s]])
  have pl: "unat (payload_length ?h) = length s"
    using make_message_ok(2) [OF s, of t 0] by (simp add: wire_len_def)
  define c1 where "c1 = c\<lparr>cl_header_buf := encode_header E ?h, resp_header := ?h\<rparr>"
  have i: "client_idle c1" using idle by (simp add: client_idle_def c1_def)
  show ?thesis
  proof (cases "payload_length ?h = 0")
    case True
    then have n: "length (down_total l) = kHeaderSize" using pl ldown by simp
    obtain m' c' where r: "response_complete E sc env (m, c1) = (m', c')" by fastforce
    let ?l = "client_did (m', c') kHeaderSize l"
    have "session_quiet ?l" "lk_up ?l = []" "down_total ?l = []" "lk_up_out ?l = client_output c'"
      using q quiet_read_all [OF q n len] by simp_all
    from response_phase [OF i L ok this(1-3) m r this(4)] show ?thesis
      using True r unfolding tk
      by (simp add: lands_def on_response_header_def dec c1_def del: make_message_sel)
  next
    case False
    define c2 where "c2 = snd (on_response_header E sc env (IoOk (encode_header E ?h)) (m, c))"
    have r: "on_response_header E sc env (IoOk (encode_header E ?h)) (m, c) = (m, c2)"
      and c2: "pending_ops c2 = [ReadingBody (length s)]" "\<not> aborted c2"
      using False idle
      by (simp_all add: c2_def on_response_header_def dec pl add_op_def client_idle_def Let_def del: make_message_sel)
    show ?thesis
      using c2 m q ldown len up unfolding tk r
      by (simp add: lands_def client_output_def up_total_def down_total_def)
  qed
qed

lemma client_turn_inv:
  assumes L: "libm_bounded (plat_libm P)" and ok: "weights_ok sc"
    and inv: "link_inv E P l" and t: "client_turn E sc env l = Some l'"
  shows "link_inv E P l'"
proof -
  let ?c = "lk_client l" and ?m = "lk_metrics l"
  let ?ci = "?c\<lparr>pending_ops := []\<rparr>"
  have w: "world_ok (lk_world l)" "alive (lk_session l)" and cok: "client_ok ?c" and ab: "\<not> aborted ?c"
    and m: "counts_ok ?m" and ph: "client_phase E P (pending_ops ?c) l"
    using inv by (auto simp: link_inv_def counts_ok_def)
  from t obtain op where o: "pending_ops ?c = [op]"
    by (auto simp: client_turn_def Let_def split: list.splits)
  then have idle: "client_idle ?ci" using client_pop(1) [OF cok, of "[]" op "[]"] by simp
  have kept: "lk_world l' = lk_world l" "lk_session l' = lk_session l"
    using t o by (auto simp: client_turn_def Let_def split: client_op.splits if_splits)
  have cok': "client_ok (lk_client l')"
    using client_ok_step [OF _ client_turn_step [OF t]] cok by simp
  have "lands E P l'"
  proof (cases op)
    case Resolving
    with t o ph m ab show ?thesis
      by (auto simp: client_turn_def on_resolved_def add_op_def lands_def client_output_def
          between_exchanges_def up_total_def down_total_def Let_def)
  next
    case Connecting
    then have b: "session_quiet l" "up_total l = []" "down_total l = []"
      using ph o by (simp_all add: between_exchanges_def)
    from t o Connecting have l': "l' = client_did (?m, do_send_request E sc env ?ci) 0 l"
      by (auto simp: client_turn_def on_connected_def Let_def split: if_splits)
    have "session_quiet l'" "lk_up l' = []" "down_total l' = []"
      "lk_up_out l' = client_output (do_send_request E sc env ?ci)"
      using b by (simp_all add: l' up_total_def down_total_def)
    from send_phase [OF idle L ok this(1-3) refl this(4)] m show ?thesis by (simp add: lands_def l')
  next
    case (Writing bs)
    with t o have l': "lk_up_out l = []" "l' = client_did (on_written False (?m, ?ci)) 0 l"
      by (auto simp: client_turn_def Let_def split: if_splits)
    have "up_total l' = up_total l" "down_total l' = down_total l"
      using l' by (simp_all add: on_written_def add_op_def client_output_def up_total_def down_total_def)
    then have "exchange E P l'"
      using client_phase_cong [of E P "[Writing bs]" l l'] ph o Writing kept l'(1)
      by (simp add: l'(2) on_written_def add_op_def client_output_def)
    with l' m ab show ?thesis by (simp add: lands_def on_written_def add_op_def client_output_def)
  next
    case ReadingHeader
    with t o have "kHeaderSize \<le> length (lk_down l)"
      "l' = client_did (on_response_header E sc env (IoOk (take kHeaderSize (lk_down l))) (?m, ?ci)) kHeaderSize l"
      by (auto simp: client_turn_def Let_def split: if_splits)
    with header_lands [OF idle L ok m _ _ this(1)] ph o ReadingHeader show ?thesis by simp
  next
    case (ReadingBody n)
    with t o have n: "n \<le> length (lk_down l)"
      "l' = client_did (on_response_body E sc env (IoOk (take n (lk_down l))) (?m, ?ci)) n l"
      by (auto simp: client_turn_def Let_def split: if_splits)
    with body_lands [OF idle L ok m _ _ _ n(1)] ph o ReadingBody show ?thesis by simp
  qed
  with w kept cok' show ?thesis by (simp add: link_inv_def lands_def counts_ok_def)
qed

lemma link_inv_step:
  assumes L: "libm_bounded (plat_libm P)" and ok: "weights_ok sc"
    and inv: "link_inv E P l" and step: "link_step E sc P l e l'"
  shows "link_inv E P l'"
  using step
proof cases
  case client_runs
  then show ?thesis using client_turn_inv [OF L ok inv] by simp
next
  case session_runs
  then show ?thesis using session_turn_inv [OF inv] by simp
next
  case (up_delivered xs ys)
  then have "client_phase E P (pending_ops (lk_client l)) l'"
    using inv by (intro client_phase_cong [of E P _ l l']) (auto simp: link_inv_def up_total_def down_total_def)
  with inv up_delivered show ?thesis by (simp add: link_inv_def)
next
  case (down_delivered xs ys)
  then have "client_phase E P (pending_ops (lk_client l)) l'"
    using inv by (intro client_phase_cong [of E P _ l l']) (auto simp: link_inv_def up_total_def down_total_def)
  with inv down_delivered show ?thesis by (simp add: link_inv_def)
next
  case (others_run w)
  then have "client_phase E P (pending_ops (lk_client l)) l'"
    using inv by (intro client_phase_cong [of E P _ l l']) (auto simp: link_inv_def up_total_def down_total_def)
  with inv others_run show ?thesis by (simp add: link_inv_def)
qed

interpretation link_life: transition_system "link_start client_id" "link_step E sc P"
    "\<lambda>l. libm_bounded (plat_libm P) \<longrightarrow> weights_ok sc \<longrightarrow> link_inv E P l"
  for client_id :: u32 and E :: endianness and sc :: scenario and P :: platform
  by unfold_locales (auto intro: link_inv_start link_inv_step)

text \<open>Seen alone, each end runs as its own relation allows, so that its invariant holds here too.\<close>

lemma handlers_alive:
  "alive (snd (header_read E disp r w s)) = alive s" "alive (snd (body_read E disp r w s)) = alive s"
  "alive (write_done r s) = alive s"
  by (simp_all add: session_ops Let_def case_prod_unfold split: io_result.split sum.split)

lemma session_turn_alive: "session_turn E P l = Some l' \<Longrightarrow> alive (lk_session l') = alive (lk_session l)"
  by (auto simp: session_turn_def session_did_def handlers_alive Let_def
      split: list.splits async_op.splits if_splits)

lemma link_session_reach:
  assumes "reach (link_start client_id) (link_step E sc P) l"
  shows "alive (lk_session l) \<and> reach session_start (session_step E (dispatch (server_router P))) (lk_world l, lk_session l)"
  using assms
proof (induction rule: reach.induct)
  case (reach_start l)
  then obtain w sid where l: "lk_world l = w" "lk_session l = start (make_session sid)"
    by (auto simp: link_start_def)
  then show ?case
    by (auto simp: start_def do_read_header_def make_session_def session_start_def intro!: reach.reach_start)
next
  case (reach_step l e l')
  from reach_step.hyps(2) show ?case
  proof cases
    case session_runs
    with reach_step.IH session_turn_step [OF this(2)] session_turn_alive [OF this(2)] show ?thesis
      by (auto intro: reach.reach_step)
  next
    case (client_runs env)
    then have "lk_world l' = lk_world l" "lk_session l' = lk_session l"
      by (auto simp: client_turn_def Let_def split: list.splits client_op.splits if_splits)
    with reach_step.IH show ?thesis by simp
  next
    case (others_run w)
    with reach_step.IH show ?thesis by (auto intro: reach.reach_step other_work)
  qed (use reach_step.IH in simp_all)
qed

end
