(* ===== verification/Load_Loopback.thy ===== *)
theory Load_Loopback
  imports Load_Link
begin

text \<open>
  What the connection of \<open>Load_Link\<close> guarantees: some handler or delivery can always run until both
  ends are at rest, no error is counted, and after the stop flag the connection comes to rest.
\<close>

section \<open>Something can always run\<close>

definition at_rest :: "link \<Rightarrow> bool" where
  "at_rest l \<longleftrightarrow>
     pending_ops (lk_client l) = [] \<and> done_calls (lk_client l) = 1 \<and> \<not> cl_socket_open (lk_client l)
     \<and> session.closed (lk_session l) \<and> outstanding (lk_session l) = []
     \<and> up_total l = [] \<and> down_total l = []"

lemma quiet_ready:
  assumes "session_quiet l" and "lk_down_out l = []"
    and "outstanding (lk_session l) = [AsyncReadHeader] \<longrightarrow> session_reads kHeaderSize l \<noteq> None"
  shows "\<exists>l'. session_turn E P l = Some l'"
  using assms by (auto simp: session_quiet_def session_turn_def Let_def)

lemma link_progress:
  assumes inv: "link_inv E P l" and busy: "\<not> at_rest l" and nd: "\<not> nodelay_throws env"
  shows "\<exists>e l'. e \<in> {ClientRuns env, SessionRuns, Delivered} \<and> link_step E sc P l e l'"
proof -
  let ?c = "lk_client l"
  have ok: "client_ok ?c" "\<not> aborted ?c" and ph: "client_phase E P (pending_ops ?c) l"
    using inv by (auto simp: link_inv_def)
  consider (up) "lk_up_out l \<noteq> []" | (down) "lk_down_out l \<noteq> []" | (none) "lk_up_out l = []" "lk_down_out l = []"
    by blast
  then show ?thesis
  proof cases
    case up
    then show ?thesis using link_step.up_delivered [of l "lk_up_out l" "[]" E sc P] by auto
  next
    case down
    then show ?thesis using link_step.down_delivered [of l "lk_down_out l" "[]" E sc P] by auto
  next
    case none
    then have tot: "up_total l = lk_up l" "down_total l = lk_down l"
      by (simp_all add: up_total_def down_total_def)
    have cl: ?thesis if "client_turn E sc env l \<noteq> None"
      using that link_step.client_runs [of E sc env l _ P] by auto
    have se: ?thesis if "\<exists>l'. session_turn E P l = Some l'"
      using that link_step.session_runs [of E P l _ sc] by auto
    have ex: ?thesis if x: "exchange E P l" and o: "pending_ops ?c = [ReadingHeader]"
      using x [unfolded exchange_def]
    proof (elim disjE)
      assume r: "request_sent E P l"
      then have "kHeaderSize \<le> length (lk_up l)"
        by (auto simp: request_sent_def tot length_message_bytes)
      then have "session_reads kHeaderSize l \<noteq> None" by (simp add: session_reads_def)
      with r none show ?thesis by (intro se quiet_ready) (simp_all add: request_sent_def)
    next
      assume "body_awaited P l"
      then obtain pl where "outstanding (lk_session l) = [AsyncReadBody (length pl)]" "lk_up l = bytes_of_string pl"
        by (auto simp: body_awaited_def tot)
      then show ?thesis by (intro se) (simp add: session_turn_def session_reads_def Let_def)
    next
      assume "reply_due E l"
      then have "kHeaderSize \<le> length (lk_down l)"
        by (auto simp: reply_due_def tot length_message_bytes)
      with o show ?thesis by (intro cl) (simp add: client_turn_def Let_def)
    qed
    from link_phase_cases [OF ok] show ?thesis
    proof (elim disjE exE conjE)
      assume o: "pending_ops ?c = []" and d: "done_calls ?c = 1"
      then have so: "\<not> cl_socket_open ?c" using ok by (simp add: client_ok_def)
      with busy o d ph have "between_exchanges l" by (auto simp: at_rest_def)
      moreover have "session_reads kHeaderSize l \<noteq> None" using so none by (simp add: session_reads_def)
      ultimately show ?thesis using none by (intro se quiet_ready) (simp_all add: between_exchanges_def)
    next
      fix op assume o: "pending_ops ?c = [op]"
      show ?thesis
      proof (cases op)
        case Resolving
        with o show ?thesis by (intro cl) (simp add: client_turn_def Let_def)
      next
        case Connecting
        with o nd show ?thesis by (intro cl) (simp add: client_turn_def Let_def)
      next
        case (Writing bs)
        with o none show ?thesis by (intro cl) (simp add: client_turn_def Let_def)
      next
        case ReadingHeader
        with o ph show ?thesis by (intro ex) simp_all
      next
        case (ReadingBody n)
        with o ph show ?thesis by (intro cl) (simp add: client_turn_def tot Let_def)
      qed
    qed
  qed
qed

section \<open>After the stop flag\<close>

text \<open>
  Every byte on its way to the server may cost a reply of at most 16 MiB, hence the factor.
\<close>

definition link_work :: "link \<Rightarrow> nat" where
  "link_work l =
     client_work (lk_client l) + session_load (lk_session l) + length (lk_up_out l) + length (lk_down_out l)
     + 2 ^ 25 * length (up_total l)"

lemma client_turn_work:
  assumes t: "client_turn E sc env l = Some l'" and s: "env_stop env"
  shows "link_work l' < link_work l"
proof -
  from t obtain op where o: "pending_ops (lk_client l) = [op]"
    by (auto simp: client_turn_def Let_def split: list.splits)
  have "client_work (lk_client l') < client_work (lk_client l)"
    by (rule client_step_progress [OF client_turn_step [OF t] s])
  moreover have "lk_session l' = lk_session l" "lk_up l' = lk_up l" "lk_down_out l' = lk_down_out l"
    using t o by (auto simp: client_turn_def Let_def split: client_op.splits if_splits)
  moreover have "lk_up_out l' = []"
    using t o s
    by (auto simp: client_turn_def client_output_def client_ops Let_def
        split: client_op.splits if_splits sum.splits)
  ultimately show ?thesis by (simp add: link_work_def up_total_def)
qed

lemma link_bounds:
  assumes "link_inv E P l"
  shows "length (lk_down_out l) \<le> 16777224" and "session_load (lk_session l) \<le> 3"
proof -
  let ?ops = "pending_ops (lk_client l)"
  have ph: "client_phase E P ?ops l" and ok: "client_ok (lk_client l)"
    using assms by (auto simp: link_inv_def)
  have n: "n \<le> 16777216" if "?ops = [ReadingBody n]" for n
    using ok that by (simp add: client_ok_def)
  have ex: "length (down_total l) \<le> 16777224" if "exchange E P l"
    using that by (auto simp: stage_defs length_message_bytes kHeaderSize_def)
  have "length (down_total l) \<le> 16777224"
    using ph n ex by (cases "(E, P, ?ops, l)" rule: client_phase.cases) (auto simp: between_exchanges_def)
  then show "length (lk_down_out l) \<le> 16777224" by (simp add: down_total_def)
  have q: "session_load (lk_session l) \<le> 3" if "session_quiet l"
    using that by (auto simp: session_quiet_def session_load_def)
  have "session_load (lk_session l) \<le> 3" if "exchange E P l"
    using that q unfolding stage_defs by (auto simp: session_load_def)
  then show "session_load (lk_session l) \<le> 3"
    using ph q
    by (cases "(E, P, ?ops, l)" rule: client_phase.cases) (auto simp: between_exchanges_def session_load_def)
qed

text \<open>A read either takes bytes off the connection or ends the session.\<close>

lemma session_turn_read:
  assumes t: "session_turn E P l = Some l'"
    and o: "outstanding (lk_session l) = [op]" "op = AsyncReadHeader \<and> n = kHeaderSize \<or> op = AsyncReadBody n"
  shows "n \<le> length (lk_up l) \<and> lk_up l' = drop n (lk_up l)
     \<or> session_load (lk_session l') = 0 \<and> length (lk_up l') \<le> length (lk_up l) \<and> lk_down_out l' = []"
proof -
  let ?disp = "dispatch (server_router P)" and ?s = "(lk_session l)\<lparr>outstanding := []\<rparr>"
  have "\<exists>r ws. session_reads n l = Some r \<and> l' = session_did ws n l
      \<and> (ws = header_read E ?disp r (lk_world l) ?s \<or> ws = body_read E ?disp r (lk_world l) ?s)"
    using o(2)
  proof (elim disjE conjE)
    assume "op = AsyncReadHeader" "n = kHeaderSize"
    with t o show ?thesis by (simp add: session_turn_def del: split_paired_Ex) metis
  next
    assume "op = AsyncReadBody n"
    with t o show ?thesis by (simp add: session_turn_def del: split_paired_Ex) metis
  qed
  then obtain r ws where r: "session_reads n l = Some r" and l': "l' = session_did ws n l"
    and ws: "ws = header_read E ?disp r (lk_world l) ?s \<or> ws = body_read E ?disp r (lk_world l) ?s"
    by blast
  have e: "r = IoErr \<longrightarrow> snd ws = close ?s"
    using ws by (auto simp: header_read_def body_read_def)
  from r e show ?thesis
    by (auto simp: l' session_did_def session_reads_def session_writes_def session_load_def close_def
        split: if_splits)
qed

lemma session_turn_work:
  assumes inv: "link_inv E P l" and t: "session_turn E P l = Some l'"
  shows "link_work l' < link_work l"
proof -
  have pos: "0 < n" if o: "outstanding (lk_session l) = [AsyncReadBody n]" for n
  proof -
    have "\<not> session_quiet l" using o by (simp add: session_quiet_def)
    then have "body_awaited P l"
      using inv o by (cases "(E, P, pending_ops (lk_client l), l)" rule: client_phase.cases)
        (auto simp: link_inv_def exchange_def request_sent_def reply_due_def between_exchanges_def)
    with o show ?thesis by (auto simp: body_awaited_def)
  qed
  note keep = session_turn_keeps [OF t] and b = link_bounds [OF session_turn_inv [OF inv t]]
  from t obtain op where o: "outstanding (lk_session l) = [op]"
    by (auto simp: session_turn_def Let_def split: list.splits)
  have rd: ?thesis if n: "0 < n" "op = AsyncReadHeader \<and> n = kHeaderSize \<or> op = AsyncReadBody n" for n
    using session_turn_read [OF t o n(2)]
  proof (elim disjE conjE)
    assume "n \<le> length (lk_up l)" "lk_up l' = drop n (lk_up l)"
    then have "length (up_total l) = length (up_total l') + n" using keep(3) by (simp add: up_total_def)
    with n(1) have "2 ^ 25 * length (up_total l') + 2 ^ 25 \<le> 2 ^ 25 * length (up_total l)" by simp
    with b keep show ?thesis unfolding link_work_def by simp
  next
    assume "session_load (lk_session l') = 0" "length (lk_up l') \<le> length (lk_up l)" "lk_down_out l' = []"
    moreover have "0 < session_load (lk_session l)" using o n(2) by (auto simp: session_load_def)
    ultimately show ?thesis using keep unfolding link_work_def up_total_def by simp
  qed
  show ?thesis
  proof (cases op)
    case (AsyncWrite bs)
    then show ?thesis
      using write_turn [OF _ t] keep o by (simp add: link_work_def session_load_def up_total_def)
  next
    case AsyncReadHeader
    then show ?thesis using o by (intro rd [of kHeaderSize]) (simp_all add: kHeaderSize_def)
  next
    case (AsyncReadBody n)
    then show ?thesis using o pos by (intro rd [of n]) simp_all
  qed
qed

text \<open>A run in which the client sees the stop flag; the steps of other sessions are not counted.\<close>

fun counts_step :: "link_event \<Rightarrow> bool" where
  "counts_step OtherSessions = False"
| "counts_step e = True"

fun sees_stop :: "link_event \<Rightarrow> bool" where
  "sees_stop (ClientRuns env) = env_stop env"
| "sees_stop e = True"

inductive stopped_run :: "endianness \<Rightarrow> scenario \<Rightarrow> platform \<Rightarrow> nat \<Rightarrow> link \<Rightarrow> link \<Rightarrow> bool"
  for E :: endianness and sc :: scenario and P :: platform
where
  run_none: "stopped_run E sc P 0 l l"
| run_more: "stopped_run E sc P n l l' \<Longrightarrow> link_step E sc P l' e l'' \<Longrightarrow> sees_stop e \<Longrightarrow>
    stopped_run E sc P (if counts_step e then Suc n else n) l l''"

lemma link_step_work:
  assumes "link_inv E P l" and "link_step E sc P l e l'" and "sees_stop e"
  shows "link_work l' + (if counts_step e then 1 else 0) \<le> link_work l"
  using assms(2)
proof cases
  case (client_runs env)
  then show ?thesis using client_turn_work [of E sc env l l'] assms(3) by simp
next
  case session_runs
  then show ?thesis using session_turn_work [OF assms(1)] by (simp add: Suc_le_eq)
next
  case (up_delivered xs ys)
  then show ?thesis by (cases xs) (auto simp: link_work_def up_total_def)
next
  case (down_delivered xs ys)
  then show ?thesis by (cases xs) (auto simp: link_work_def up_total_def)
qed (simp add: link_work_def up_total_def)

lemma stopped_run_work:
  assumes L: "libm_bounded (plat_libm P)" and ok: "weights_ok sc"
    and "stopped_run E sc P n l l'" and "link_inv E P l"
  shows "link_inv E P l' \<and> link_work l' + n \<le> link_work l"
  using assms(3,4)
proof (induction rule: stopped_run.induct)
  case (run_more n l l' e l'')
  then have inv: "link_inv E P l'" and n: "link_work l' + n \<le> link_work l" by auto
  from link_step_work [OF inv run_more.hyps(2,3)] n link_inv_step [OF L ok inv run_more.hyps(2)]
  show ?case by auto
qed simp

text \<open>A concrete platform and start, for the examples.\<close>

definition quiet_platform :: platform where
  "quiet_platform =
     \<lparr>plat_libm = \<lparr>sin_d = (\<lambda>x. 0), cos_d = (\<lambda>x. 1)\<rparr>, plat_char_signed = True, plat_overflow = Inr\<rparr>"

definition first_link :: link where
  "first_link =
     \<lparr>lk_world = initial_world 31536000, lk_session = start (make_session 1), lk_metrics = new_metrics,
      lk_client = start_client (make_client 7),
      lk_up = [], lk_up_out = [], lk_down = [], lk_down_out = []\<rparr>"

definition plain_env :: "bool \<Rightarrow> client_env" where
  "plain_env b = \<lparr>env_stop = b, t_done = 0, t_start = 0, nodelay_throws = False\<rparr>"

lemma first_link_ok:
  "link_start 7 first_link" "weights_ok default_scenario" "libm_bounded (plat_libm quiet_platform)"
  by (auto simp: link_start_def first_link_def world_ok_def initial_world_def weights_ok_def
      default_scenario_def int_range_def INT_MAX_def libm_bounded_def quiet_platform_def)

lemma first_link_reach: "reach (link_start 7) (link_step E sc P) first_link"
  using first_link_ok(1) by (rule reach_start)

lemma first_turn:
  "\<exists>l. client_turn E sc (plain_env b) first_link = Some l \<and> pending_ops (lk_client l) = [Connecting]
     \<and> lk_client l = (lk_client first_link)\<lparr>pending_ops := [Connecting]\<rparr>
     \<and> lk_session l = lk_session first_link \<and> up_total l = [] \<and> down_total l = []"
  by (auto simp: client_turn_def first_link_def start_client_def do_connect_def add_op_def make_client_def
      on_resolved_def client_did_def client_output_def up_total_def down_total_def)

text \<open>A load client that runs against the server, both ends on hosts of the same byte order, never
  counts an error and is never aborted, however the bytes are cut in transit, however the handlers of
  the two ends interleave and whatever other sessions do to the server's state: its success counter is
  the number of latencies it recorded, and until both ends are at rest (the client has reported once
  that it is done, the session has closed, nothing is in transit) some handler or delivery can run.\<close>

theorem load_client_never_fails:
  assumes "reach (link_start client_id) (link_step E sc P) l"
    and "weights_ok sc" and "libm_bounded (plat_libm P)"
  shows "errors_ctr (lk_metrics l) = 0
     \<and> successes_ctr (lk_metrics l) = of_nat (length (samples_us (lk_metrics l)))
     \<and> \<not> aborted (lk_client l) \<and> done_calls (lk_client l) \<le> 1
     \<and> (at_rest l
        \<or> (\<forall>env. nodelay_throws env
             \<or> (\<exists>e l'. e \<in> {ClientRuns env, SessionRuns, Delivered} \<and> link_step E sc P l e l')))"
proof -
  have inv: "link_inv E P l" using link_life.reach_inv [OF assms(1)] assms(2,3) by simp
  then have ok: "client_ok (lk_client l)" "\<not> aborted (lk_client l)" by (simp_all add: link_inv_def)
  show ?thesis
    using inv link_progress [OF inv] link_phase_cases [OF ok] by (auto simp: link_inv_def)
qed

theorem load_client_never_fails_witness:
  "\<exists>l. client_turn LittleEndian default_scenario (plain_env False) first_link = Some l
     \<and> \<not> at_rest l \<and> \<not> aborted (lk_client l)
     \<and> (\<exists>e l'. e \<in> {ClientRuns (plain_env False), SessionRuns, Delivered}
            \<and> link_step LittleEndian default_scenario quiet_platform l e l')"
proof -
  from first_turn obtain l where l: "client_turn LittleEndian default_scenario (plain_env False) first_link = Some l"
    and p: "pending_ops (lk_client l) = [Connecting]" by blast
  have "reach (link_start 7) (link_step LittleEndian default_scenario quiet_platform) l"
    by (rule reach_step [OF first_link_reach client_runs [OF l]])
  from load_client_never_fails [OF this first_link_ok(2,3)]
  have "\<not> aborted (lk_client l)"
    and "at_rest l \<or> (\<forall>env. nodelay_throws env
       \<or> (\<exists>e l'. e \<in> {ClientRuns env, SessionRuns, Delivered}
            \<and> link_step LittleEndian default_scenario quiet_platform l e l'))"
    by blast+
  moreover have "\<not> at_rest l" using p by (simp add: at_rest_def)
  moreover have "\<not> nodelay_throws (plain_env False)" by (simp add: plain_env_def)
  ultimately show ?thesis using l by blast
qed

text \<open>Once the client sees the stop flag, the connection comes to rest: at most \<open>link_work\<close> further
  handlers and deliveries run, and when none can run any more the client has reported that it is done
  and closed its socket, the session has seen the end of the stream, closed and told its owner once,
  no byte is left in transit, and no error was counted.\<close>

theorem connection_comes_to_rest:
  assumes "reach (link_start client_id) (link_step E sc P) l"
    and "weights_ok sc" and "libm_bounded (plat_libm P)"
    and "stopped_run E sc P n l l'"
  shows "n \<le> link_work l \<and> errors_ctr (lk_metrics l') = 0
     \<and> (if at_rest l' then on_close_calls (lk_session l') = 1
        else \<exists>e l''. counts_step e \<and> sees_stop e \<and> link_step E sc P l' e l'')"
proof -
  have inv: "link_inv E P l" using link_life.reach_inv [OF assms(1)] assms(2,3) by simp
  note run = stopped_run_work [OF assms(3,2,4) inv]
  have "reach (link_start client_id) (link_step E sc P) l'"
    using assms(4,1) by (induction rule: stopped_run.induct) (auto intro: reach.reach_step)
  from link_session_reach [OF this] session_life.reach_inv
  have s: "session_inv (lk_world l', lk_session l')" by blast
  let ?env = "\<lparr>env_stop = True, t_done = 0, t_start = 0, nodelay_throws = False\<rparr>"
  show ?thesis
  proof (cases "at_rest l'")
    case True
    then have "session.closed (lk_session l')" by (simp add: at_rest_def)
    with True run s show ?thesis by (simp add: link_inv_def session_inv_def Let_def)
  next
    case False
    from link_progress [OF _ this, of E P ?env sc] run
    obtain e l'' where "e \<in> {ClientRuns ?env, SessionRuns, Delivered}" "link_step E sc P l' e l''" by auto
    then have "counts_step e \<and> sees_stop e \<and> link_step E sc P l' e l''" by auto
    with run False show ?thesis by (auto simp: link_inv_def)
  qed
qed

text \<open>Resolve, connect and see the flag, and the session reads the end of the stream.\<close>

lemma first_link_stops:
  "\<exists>l. stopped_run E sc P 3 first_link l \<and> at_rest l"
proof -
  from first_turn [of E sc True] obtain l1 where t1: "client_turn E sc (plain_env True) first_link = Some l1"
    and c1: "lk_client l1 = (lk_client first_link)\<lparr>pending_ops := [Connecting]\<rparr>"
    and l1: "lk_session l1 = lk_session first_link" "up_total l1 = []" "down_total l1 = []" by blast
  define l2 where "l2 = client_did (lk_metrics l1, finish ((lk_client l1)\<lparr>pending_ops := []\<rparr>)) 0 l1"
  have t2: "client_turn E sc (plain_env True) l1 = Some l2"
    by (simp add: client_turn_def c1 on_connected_def plain_env_def do_send_request_def l2_def)
  define l3 where "l3 = session_did (lk_world l2, close ((lk_session l2)\<lparr>outstanding := []\<rparr>)) kHeaderSize l2"
  have up: "lk_up l2 = []" "lk_up_out l2 = []" "lk_down l2 = []" "lk_down_out l2 = []"
    using l1 by (simp_all add: l2_def c1 finish_def client_output_def up_total_def down_total_def)
  have o: "outstanding (lk_session l2) = [AsyncReadHeader]" "\<not> session.closed (lk_session l2)"
    by (simp_all add: l2_def l1 first_link_def start_def do_read_header_def make_session_def)
  have t3: "session_turn E P l2 = Some l3"
    using up o by (simp add: session_turn_def session_reads_def l3_def header_read_def kHeaderSize_def)
      (simp add: l2_def finish_def)
  have s: "sees_stop (ClientRuns (plain_env True))" "sees_stop SessionRuns"
    by (simp_all add: plain_env_def)
  have "stopped_run E sc P 3 first_link l3"
    using run_more [OF run_more [OF run_more [OF run_none client_runs [OF t1] s(1)] client_runs [OF t2] s(1)]
      session_runs [OF t3] s(2)] by (simp add: numeral_3_eq_3)
  moreover have "at_rest l3"
    using up o
    by (simp add: at_rest_def l3_def session_did_def session_writes_def close_def up_total_def down_total_def)
      (simp add: l2_def finish_def c1 first_link_def start_client_def do_connect_def add_op_def make_client_def)
  ultimately show ?thesis by blast
qed

theorem connection_comes_to_rest_witness:
  "\<exists>l. stopped_run LittleEndian default_scenario quiet_platform 3 first_link l \<and> at_rest l
     \<and> 3 \<le> link_work first_link \<and> on_close_calls (lk_session l) = 1 \<and> errors_ctr (lk_metrics l) = 0"
proof -
  from first_link_stops obtain l where r: "stopped_run LittleEndian default_scenario quiet_platform 3 first_link l"
    and a: "at_rest l" by blast
  from connection_comes_to_rest [OF first_link_reach first_link_ok(2,3) r] r a show ?thesis by auto
qed

end
