(* ===== verification/Load_System.thy ===== *)
theory Load_System
  imports Load_Loopback Server
begin

text \<open>
  The whole load test: all clients of the load generator, the stop timer, the server with its accept
  loop, and one connection per client. It is assembled from the parts: a turn of client \<open>i\<close> is
  \<open>client_turn\<close> on the shared metrics, a turn of its session is \<open>session_turn\<close> on the shared state of
  the server, the acceptor acts as in \<open>accept_action\<close>. The network is reliable: names resolve, a
  connection attempt succeeds and waits in the backlog until the acceptor takes it, accepting does
  not fail, bytes arrive in order and in pieces of any size. A client beyond the server's limit has
  its connection accepted and closed at once; it learns of it at the latest when it reads.
\<close>

section \<open>The state\<close>

record pipe =
  pp_up :: bytes
  pp_up_out :: bytes
  pp_down :: bytes
  pp_down_out :: bytes

text \<open>
  \<open>ls_slot\<close> says of every client whether its connection has been accepted: it has a session, given by
  the position in the list of the server's sessions, or it was turned away. \<open>ls_accepting\<close> is the
  client whose connection the accept handler has in its hands.
\<close>

datatype slot = Waiting | Served nat | TurnedAway

fun session_no :: "slot \<Rightarrow> nat option" where
  "session_no (Served k) = Some k"
| "session_no _ = None"

lemma session_no_Some [simp]: "session_no t = Some k \<longleftrightarrow> t = Served k"
  by (cases t) simp_all

record load_system =
  ls_server :: "world server"
  ls_gen :: loadgen
  ls_pipes :: "pipe list"
  ls_slot :: "slot list"
  ls_accepting :: "nat option"

text \<open>A connection that waits in the backlog looks to its client like one whose session has just started.\<close>

definition session_of :: "load_system \<Rightarrow> nat \<Rightarrow> session" where
  "session_of y i =
     (case session_no (ls_slot y ! i) of
        None \<Rightarrow> start (make_session 0)
      | Some k \<Rightarrow> sessions (ls_server y) ! k)"

definition link_of :: "load_system \<Rightarrow> nat \<Rightarrow> link" where
  "link_of y i =
     (let p = ls_pipes y ! i in
      \<lparr>lk_world = proc (ls_server y), lk_session = session_of y i, lk_metrics = lg_metrics (ls_gen y),
       lk_client = lg_clients (ls_gen y) ! i,
       lk_up = pp_up p, lk_up_out = pp_up_out p, lk_down = pp_down p, lk_down_out = pp_down_out p\<rparr>)"

definition pipe_of :: "link \<Rightarrow> pipe" where
  "pipe_of l = \<lparr>pp_up = lk_up l, pp_up_out = lk_up_out l, pp_down = lk_down l, pp_down_out = lk_down_out l\<rparr>"

definition put_pipe :: "nat \<Rightarrow> link \<Rightarrow> load_system \<Rightarrow> load_system" where
  "put_pipe i l y = y\<lparr>ls_pipes := (ls_pipes y)[i := pipe_of l]\<rparr>"

definition put_gen :: "nat \<Rightarrow> metrics \<times> client \<Rightarrow> load_system \<Rightarrow> load_system" where
  "put_gen i mc y =
     (let g = ls_gen y in
      y\<lparr>ls_gen := (on_client_done ^^ (done_calls (snd mc) - done_calls (lg_clients g ! i)))
          (g\<lparr>lg_metrics := fst mc, lg_clients := (lg_clients g)[i := snd mc]\<rparr>)\<rparr>)"

definition put_client :: "nat \<Rightarrow> link \<Rightarrow> load_system \<Rightarrow> load_system" where
  "put_client i l y = put_pipe i l (put_gen i (lk_metrics l, lk_client l) y)"

definition put_session :: "nat \<Rightarrow> nat \<Rightarrow> link \<Rightarrow> load_system \<Rightarrow> load_system" where
  "put_session i k l y =
     (let v = ls_server y in
      put_pipe i l
        (y\<lparr>ls_server := (on_session_close ^^ (on_close_calls (lk_session l) - on_close_calls (sessions v ! k)))
             (v\<lparr>proc := lk_world l, sessions := (sessions v)[k := lk_session l]\<rparr>)\<rparr>))"

text \<open>The accept handler past its wait; its last action on a connection starts the session or closes it.\<close>

fun handling :: "accept_pc \<Rightarrow> bool" where
  "handling CheckLimit = True"
| "handling CountTotal = True"
| "handling CountActive = True"
| "handling SetNoDelay = True"
| "handling TakeId = True"
| "handling (StartSession sid) = True"
| "handling RejectSocket = True"
| "handling _ = False"

definition acceptor_acts :: "accept_env \<Rightarrow> load_system \<Rightarrow> load_system" where
  "acceptor_acts env y =
     (let v = ls_server y; y' = y\<lparr>ls_server := accept_action env v\<rparr>
      in case (accept_at v, ls_accepting y) of
           (StartSession sid, Some i) \<Rightarrow>
             y'\<lparr>ls_slot := (ls_slot y)[i := Served (length (sessions v))], ls_accepting := None\<rparr>
         | (RejectSocket, Some i) \<Rightarrow> y'\<lparr>ls_slot := (ls_slot y)[i := TurnedAway], ls_accepting := None\<rparr>
         | _ \<Rightarrow> y')"

text \<open>
  The next completion at a client that was turned away: connecting has succeeded, a write may have
  reached the kernel's buffer or fail, a read fails.
\<close>

definition refused_turn ::
  "endianness \<Rightarrow> scenario \<Rightarrow> client_env \<Rightarrow> bool \<Rightarrow> metrics \<times> client \<Rightarrow> (metrics \<times> client) option" where
  "refused_turn E sc env ec mc =
     (let mc' = (fst mc, (snd mc)\<lparr>pending_ops := []\<rparr>)
      in case pending_ops (snd mc) of
           [op] \<Rightarrow>
             (case op of
                Connecting \<Rightarrow> if nodelay_throws env then None else Some (on_connected E sc env False mc')
              | Writing bs \<Rightarrow> Some (on_written ec mc')
              | ReadingHeader \<Rightarrow> Some (on_response_header E sc env IoErr mc')
              | _ \<Rightarrow> None)
         | _ \<Rightarrow> None)"

section \<open>Its steps\<close>

datatype load_event =
    ClientTurn nat client_env
  | RefusedTurn nat client_env
  | SessionTurn nat
  | InTransit nat
  | ConnectionTaken nat
  | AcceptorActs
  | TimerFires

text \<open>
  A relaxed load of the counter of connections returns a value that it has had, so at least the
  current one (as in \<open>server_step\<close>) and at most the number of connections counted so far. Setting
  \<open>TCP_NODELAY\<close> does not throw.
\<close>

inductive load_system_step ::
  "endianness \<Rightarrow> scenario \<Rightarrow> platform \<Rightarrow> load_system \<Rightarrow> load_event \<Rightarrow> load_system \<Rightarrow> bool"
  for E :: endianness and sc :: scenario and P :: platform
where
  client_turns:
    "i < length (lg_clients (ls_gen y)) \<Longrightarrow> (env_stop env \<Longrightarrow> lg_stop (ls_gen y)) \<Longrightarrow>
     ls_slot y ! i \<noteq> TurnedAway \<Longrightarrow> client_turn E sc env (link_of y i) = Some l \<Longrightarrow>
     load_system_step E sc P y (ClientTurn i env) (put_client i l y)"
| refused_turns:
    "i < length (lg_clients (ls_gen y)) \<Longrightarrow> (env_stop env \<Longrightarrow> lg_stop (ls_gen y)) \<Longrightarrow>
     ls_slot y ! i = TurnedAway \<Longrightarrow>
     refused_turn E sc env ec (lg_metrics (ls_gen y), lg_clients (ls_gen y) ! i) = Some mc \<Longrightarrow>
     load_system_step E sc P y (RefusedTurn i env) (put_gen i mc y)"
| session_turns:
    "i < length (ls_slot y) \<Longrightarrow> ls_slot y ! i = Served k \<Longrightarrow> session_turn E P (link_of y i) = Some l \<Longrightarrow>
     load_system_step E sc P y (SessionTurn i) (put_session i k l y)"
| in_transit:
    "i < length (ls_pipes y) \<Longrightarrow> ls_slot y ! i \<noteq> TurnedAway \<Longrightarrow> link_step E sc P (link_of y i) Delivered l \<Longrightarrow>
     load_system_step E sc P y (InTransit i) (put_pipe i l y)"
| connection_taken:
    "accept_at (ls_server y) = AwaitAccept \<Longrightarrow> i < length (ls_slot y) \<Longrightarrow> ls_slot y ! i = Waiting \<Longrightarrow>
     pending_ops (lg_clients (ls_gen y) ! i) \<noteq> [Resolving] \<Longrightarrow>
     active_connections (ls_server y) \<le> seen \<Longrightarrow>
     load_system_step E sc P y (ConnectionTaken i)
       (y\<lparr>ls_server := accept_action (AcceptEnv True False seen False) (ls_server y), ls_accepting := Some i\<rparr>)"
| acceptor_continues:
    "handling (accept_at (ls_server y)) \<or> accept_at (ls_server y) = Rearm \<Longrightarrow>
     active_connections (ls_server y) \<le> seen \<Longrightarrow> seen \<le> total_connections (ls_server y) \<Longrightarrow>
     load_system_step E sc P y AcceptorActs (acceptor_acts (AcceptEnv True False seen False) y)"
| timer_fires:
    "\<not> lg_stop (ls_gen y) \<Longrightarrow>
     load_system_step E sc P y TimerFires (y\<lparr>ls_gen := on_timer (ls_gen y)\<rparr>)"

inductive_cases load_system_stepE: "load_system_step E sc P y e y'"

text \<open>The server listens, the clients have been launched.\<close>

definition load_system_start :: "server_config \<Rightarrow> u32 \<Rightarrow> u32 \<Rightarrow> load_system \<Rightarrow> bool" where
  "load_system_start cfg hw n y \<longleftrightarrow>
     (\<exists>w. world_ok w \<and> y =
        \<lparr>ls_server = do_accept (make_server cfg hw w), ls_gen = launch n,
         ls_pipes = replicate (unat n) \<lparr>pp_up = [], pp_up_out = [], pp_down = [], pp_down_out = []\<rparr>,
         ls_slot = replicate (unat n) Waiting, ls_accepting = None\<rparr>)"

section \<open>What a step leaves of the other connections\<close>

lemma link_of_sel [simp]:
  "lk_world (link_of y i) = proc (ls_server y)" "lk_session (link_of y i) = session_of y i"
  "lk_metrics (link_of y i) = lg_metrics (ls_gen y)" "lk_client (link_of y i) = lg_clients (ls_gen y) ! i"
  by (simp_all add: link_of_def Let_def)

lemma pipe_of_sel [simp]:
  "pp_up (pipe_of l) = lk_up l" "pp_up_out (pipe_of l) = lk_up_out l"
  "pp_down (pipe_of l) = lk_down l" "pp_down_out (pipe_of l) = lk_down_out l"
  by (simp_all add: pipe_of_def)

lemma put_pipe_sel [simp]:
  "ls_server (put_pipe i l y) = ls_server y" "ls_gen (put_pipe i l y) = ls_gen y"
  "ls_slot (put_pipe i l y) = ls_slot y" "ls_accepting (put_pipe i l y) = ls_accepting y"
  "ls_pipes (put_pipe i l y) = (ls_pipes y)[i := pipe_of l]"
  by (simp_all add: put_pipe_def)

lemma put_gen_sel [simp]:
  "ls_server (put_gen i mc y) = ls_server y" "ls_slot (put_gen i mc y) = ls_slot y"
  "ls_accepting (put_gen i mc y) = ls_accepting y" "ls_pipes (put_gen i mc y) = ls_pipes y"
  "lg_metrics (ls_gen (put_gen i mc y)) = fst mc" "lg_stop (ls_gen (put_gen i mc y)) = lg_stop (ls_gen y)"
  "lg_clients (ls_gen (put_gen i mc y)) = (lg_clients (ls_gen y))[i := snd mc]"
  by (simp_all add: put_gen_def on_client_done_funpow Let_def)

lemma put_client_sel [simp]:
  "ls_server (put_client i l y) = ls_server y" "ls_slot (put_client i l y) = ls_slot y"
  "ls_accepting (put_client i l y) = ls_accepting y" "ls_pipes (put_client i l y) = (ls_pipes y)[i := pipe_of l]"
  "ls_gen (put_client i l y) = ls_gen (put_gen i (lk_metrics l, lk_client l) y)"
  by (simp_all add: put_client_def)

lemma put_session_sel [simp]:
  "ls_gen (put_session i k l y) = ls_gen y" "ls_slot (put_session i k l y) = ls_slot y"
  "ls_accepting (put_session i k l y) = ls_accepting y"
  "ls_pipes (put_session i k l y) = (ls_pipes y)[i := pipe_of l]"
  "proc (ls_server (put_session i k l y)) = lk_world l"
  "sessions (ls_server (put_session i k l y)) = (sessions (ls_server y))[k := lk_session l]"
  "accept_at (ls_server (put_session i k l y)) = accept_at (ls_server y)"
  "stopped (ls_server (put_session i k l y)) = stopped (ls_server y)"
  by (simp_all add: put_session_def on_session_close_funpow Let_def)

lemma session_of_put [simp]:
  "session_of (put_pipe i l y) j = session_of y j" "session_of (put_gen i mc y) j = session_of y j"
  "session_of (put_client i l y) j = session_of y j"
  by (simp_all add: session_of_def split: option.split)

lemma link_of_put_pipe:
  assumes "i < length (ls_pipes y)" and "lk_world l = proc (ls_server y)" and "lk_session l = session_of y i"
    and "lk_metrics l = lg_metrics (ls_gen y)" and "lk_client l = lg_clients (ls_gen y) ! i"
  shows "link_of (put_pipe i l y) j = (if j = i then l else link_of y j)"
  using assms by (auto simp: link_of_def session_of_def Let_def intro!: link.equality split: option.split)

lemma link_of_put_client:
  assumes "i < length (ls_pipes y)" and "i < length (lg_clients (ls_gen y))"
    and "lk_world l = proc (ls_server y)" and "lk_session l = session_of y i"
  shows "link_of (put_client i l y) j = (if j = i then l else (link_of y j)\<lparr>lk_metrics := lk_metrics l\<rparr>)"
  using assms by (auto simp: link_of_def session_of_def Let_def intro!: link.equality split: option.split)

lemma link_of_put_session:
  assumes "i < length (ls_pipes y)" and "ls_slot y ! i = Served k" and "k < length (sessions (ls_server y))"
    and "lk_metrics l = lg_metrics (ls_gen y)" and "lk_client l = lg_clients (ls_gen y) ! i"
    and "j \<noteq> i \<longrightarrow> ls_slot y ! j \<noteq> Served k"
  shows "link_of (put_session i k l y) j = (if j = i then l else (link_of y j)\<lparr>lk_world := lk_world l\<rparr>)"
  using assms by (auto simp: link_of_def session_of_def Let_def intro!: link.equality split: option.split)

text \<open>The client's turn leaves the session and the state of the server, a delivery only moves bytes.\<close>

lemma client_turn_keeps:
  assumes "client_turn E sc env l = Some l'"
  shows "lk_world l' = lk_world l" and "lk_session l' = lk_session l"
  using assms by (auto simp: client_turn_def Let_def split: list.splits client_op.splits if_splits)

lemma delivered_keeps:
  assumes "link_step E sc P l Delivered l'"
  shows "lk_world l' = lk_world l" and "lk_session l' = lk_session l" and "lk_metrics l' = lk_metrics l"
    and "lk_client l' = lk_client l"
  using assms by (cases; simp)+

lemma delivered_totals:
  assumes "link_step E sc P l Delivered l'"
  shows "up_total l' = up_total l" and "down_total l' = down_total l"
  using assms by (cases; simp add: up_total_def down_total_def)+

lemma delivered_metrics:
  assumes "link_step E sc P l Delivered l'"
  shows "link_step E sc P (l\<lparr>lk_metrics := m\<rparr>) Delivered (l'\<lparr>lk_metrics := m\<rparr>)"
  using assms
proof cases
  case (up_delivered xs ys)
  with link_step.up_delivered [of "l\<lparr>lk_metrics := m\<rparr>" xs ys E sc P] show ?thesis by (cases l) simp
next
  case (down_delivered xs ys)
  with link_step.down_delivered [of "l\<lparr>lk_metrics := m\<rparr>" xs ys E sc P] show ?thesis by (cases l) simp
qed

lemma session_turn_metrics:
  "session_turn E P l = Some l' \<Longrightarrow> session_turn E P (l\<lparr>lk_metrics := m\<rparr>) = Some (l'\<lparr>lk_metrics := m\<rparr>)"
  by (auto simp: session_turn_def session_did_def session_reads_def Let_def
      split: list.splits async_op.splits if_splits)

text \<open>The invariant of a connection bears with what others do to the shared state.\<close>

lemma link_inv_shared:
  assumes "link_inv E P l" and "world_ok w" and "counts_ok m"
  shows "link_inv E P (l\<lparr>lk_world := w, lk_metrics := m\<rparr>)"
proof -
  have "client_phase E P (pending_ops (lk_client l)) (l\<lparr>lk_world := w, lk_metrics := m\<rparr>)"
    by (rule client_phase_cong [of E P _ l])
      (use assms(1) in \<open>simp_all add: link_inv_def up_total_def down_total_def\<close>)
  with assms show ?thesis by (simp add: link_inv_def counts_ok_def)
qed

lemma link_inv_metrics: "link_inv E P l \<Longrightarrow> counts_ok m \<Longrightarrow> link_inv E P (l\<lparr>lk_metrics := m\<rparr>)"
  using link_inv_shared [of E P l "lk_world l" m] by (simp add: link_inv_def)

lemma link_inv_world: "link_inv E P l \<Longrightarrow> world_ok w \<Longrightarrow> link_inv E P (l\<lparr>lk_world := w\<rparr>)"
  using link_inv_shared [of E P l w "lk_metrics l"] by (simp add: link_inv_def counts_ok_def)

text \<open>What a client's handler does to the counters does not depend on their values.\<close>

definition counter_update :: "(metrics \<Rightarrow> metrics) \<Rightarrow> bool" where
  "counter_update f \<longleftrightarrow> f = id \<or> f = record_error \<or> (\<exists>us. f = record_success us)"

definition same_update :: "(metrics \<times> client \<Rightarrow> metrics \<times> client) \<Rightarrow> client \<Rightarrow> bool" where
  "same_update h c \<longleftrightarrow> (\<exists>f c'. counter_update f \<and> (\<forall>m. h (m, c) = (f m, c')))"

lemma same_updateI: "counter_update f \<Longrightarrow> (\<And>m. h (m, c) = (f m, c')) \<Longrightarrow> same_update h c"
  by (auto simp: same_update_def)

lemma counter_update_intros:
  "counter_update (\<lambda>m. m)" "counter_update record_error" "counter_update (record_success us)"
  by (auto simp: counter_update_def)

lemma same_update_fail: "same_update fail c"
  by (rule same_updateI [OF counter_update_intros(2)]) (simp add: fail_def)

lemma same_update_response: "same_update (response_complete E sc env) c"
  by (rule same_updateI [OF counter_update_intros(3)]) (simp add: response_complete_def)

lemma same_update_handlers:
  "same_update (on_resolved ec) c" "same_update (on_connected E sc env ec) c" "same_update (on_written ec) c"
  "same_update (on_response_body E sc env r) c"
proof -
  note defs = same_update_def on_resolved_def on_connected_def on_written_def on_response_body_def
  have same: "same_update h c" if "\<And>m. h (m, c) = (m, c')" for h c'
    using same_updateI [OF counter_update_intros(1) that] .
  show "same_update (on_resolved ec) c"
    by (cases ec) (use same_update_fail [of c] in \<open>simp add: defs\<close>, simp add: same on_resolved_def)
  show "same_update (on_written ec) c"
    by (cases ec) (use same_update_fail [of c] in \<open>simp add: defs\<close>, simp add: same on_written_def)
  show "same_update (on_connected E sc env ec) c"
    by (cases ec; cases "nodelay_throws env")
      (use same_update_fail [of c] in \<open>simp_all add: same on_connected_def\<close>, simp_all add: defs)
  show "same_update (on_response_body E sc env r) c"
  proof (cases r)
    case IoErr
    with same_update_fail [of c] show ?thesis by (simp add: defs)
  next
    case (IoOk bs)
    with same_update_response [of E sc env "c\<lparr>cl_body_buf := bs\<rparr>"] show ?thesis by (simp add: defs)
  qed
qed

lemma same_update_header: "same_update (on_response_header E sc env r) c"
proof (cases r)
  case IoErr
  then show ?thesis using same_update_fail [of c] by (simp add: same_update_def on_response_header_def)
next
  case (IoOk bs)
  show ?thesis
  proof (cases "decode_header E bs")
    case (Inl e)
    with IoOk show ?thesis
      using same_update_fail [of "c\<lparr>cl_header_buf := bs\<rparr>"] by (simp add: same_update_def on_response_header_def)
  next
    case (Inr h)
    let ?c = "c\<lparr>cl_header_buf := bs, resp_header := h\<rparr>"
    show ?thesis
    proof (cases "payload_length h = 0")
      case True
      with IoOk Inr show ?thesis
        using same_update_response [of E sc env ?c] by (simp add: same_update_def on_response_header_def)
    next
      case False
      with IoOk Inr show ?thesis
        by (intro same_updateI [OF counter_update_intros(1)]) (simp add: on_response_header_def Let_def)
    qed
  qed
qed

lemma client_turn_metrics:
  assumes "client_turn E sc env l = Some l'"
  shows "\<exists>f. counter_update f \<and> lk_metrics l' = f (lk_metrics l)
     \<and> (\<forall>m. client_turn E sc env (l\<lparr>lk_metrics := m\<rparr>) = Some (l'\<lparr>lk_metrics := f m\<rparr>))"
proof -
  from assms obtain op where o: "pending_ops (lk_client l) = [op]"
    by (auto simp: client_turn_def Let_def split: list.splits)
  let ?c = "(lk_client l)\<lparr>pending_ops := []\<rparr>"
  have "\<exists>h n. same_update h ?c
      \<and> (\<forall>m. client_turn E sc env (l\<lparr>lk_metrics := m\<rparr>) = Some (client_did (h (m, ?c)) n (l\<lparr>lk_metrics := m\<rparr>)))"
  proof (cases op)
    case Resolving
    with o show ?thesis
      by (intro exI [of _ "on_resolved False"] exI [of _ 0]) (simp add: client_turn_def same_update_handlers)
  next
    case Connecting
    with o assms show ?thesis
      by (intro exI [of _ "on_connected E sc env False"] exI [of _ 0])
        (simp add: client_turn_def same_update_handlers Let_def split: if_splits)
  next
    case (Writing bs)
    with o assms show ?thesis
      by (intro exI [of _ "on_written False"] exI [of _ 0])
        (simp add: client_turn_def same_update_handlers Let_def split: if_splits)
  next
    case ReadingHeader
    with o assms show ?thesis
      by (intro exI [of _ "on_response_header E sc env (IoOk (take kHeaderSize (lk_down l)))"] exI [of _ kHeaderSize])
        (simp add: client_turn_def same_update_header Let_def split: if_splits)
  next
    case (ReadingBody n)
    with o assms show ?thesis
      by (intro exI [of _ "on_response_body E sc env (IoOk (take n (lk_down l)))"] exI [of _ n])
        (simp add: client_turn_def same_update_handlers Let_def split: if_splits)
  qed
  then obtain h n where h: "same_update h ?c"
    and t: "\<And>m. client_turn E sc env (l\<lparr>lk_metrics := m\<rparr>) = Some (client_did (h (m, ?c)) n (l\<lparr>lk_metrics := m\<rparr>))"
    by blast
  from h obtain f c' where f: "counter_update f" "\<And>m. h (m, ?c) = (f m, c')" by (auto simp: same_update_def)
  have "l' = client_did (f (lk_metrics l), c') n l" using assms t [of "lk_metrics l"] f(2) by simp
  with f t show ?thesis by (intro exI [of _ f]) (simp add: client_did_def)
qed

lemma client_turn_facts:
  assumes "client_turn E sc env l = Some l'"
  shows "pending_ops (lk_client l') \<noteq> [Resolving]"
    and "down_total l = [] \<Longrightarrow> down_total l' = []"
proof -
  from assms obtain op where o: "pending_ops (lk_client l) = [op]"
    by (auto simp: client_turn_def Let_def split: list.splits)
  have send: "pending_ops (do_send_request E sc env c) \<noteq> [Resolving]" if "pending_ops c = []" for c
    using that by (auto simp: do_send_request_def finish_def add_op_def Let_def split: option.split)
  have ops: "pending_ops (snd (on_resolved False (m, c))) \<noteq> [Resolving]"
    "pending_ops (snd (on_connected E sc env False (m, c))) \<noteq> [Resolving]"
    "pending_ops (snd (on_written False (m, c))) \<noteq> [Resolving]"
    "pending_ops (snd (on_response_header E sc env (IoOk bs) (m, c))) \<noteq> [Resolving]"
    "pending_ops (snd (on_response_body E sc env (IoOk bs) (m, c))) \<noteq> [Resolving]" if "pending_ops c = []" for m c bs
    using that send
    by (auto simp: on_resolved_def on_connected_def on_written_def on_response_header_def on_response_body_def
        response_complete_def fail_def finish_def add_op_def Let_def split: sum.split)
  show "pending_ops (lk_client l') \<noteq> [Resolving]"
    using assms o ops by (auto simp: client_turn_def Let_def split: client_op.splits if_splits)
  show "down_total l' = []" if "down_total l = []"
    using assms o that by (auto simp: client_turn_def client_did_def down_total_def Let_def split: client_op.splits if_splits)
qed

lemma link_inv_accepted:
  assumes "link_inv E P l" and "lk_session l = start (make_session a)"
  shows "link_inv E P (l\<lparr>lk_session := start (make_session b)\<rparr>)"
proof -
  have s: "\<not> session.closed (start (make_session c))" "outstanding (start (make_session c)) = [AsyncReadHeader]"
    "alive (start (make_session c))" for c
    by (simp_all add: start_def do_read_header_def make_session_def)
  let ?l = "l\<lparr>lk_session := start (make_session b)\<rparr>"
  have "client_phase E P (pending_ops (lk_client l)) ?l"
  proof (rule client_phase_mono [of E P _ l])
    show "client_phase E P (pending_ops (lk_client l)) l" using assms(1) by (simp add: link_inv_def)
    show "session_quiet l \<longrightarrow> session_quiet ?l" by (simp add: session_quiet_def assms(2) s)
    show "body_awaited P l \<longrightarrow> body_awaited P ?l" by (simp add: body_awaited_def assms(2) s)
  qed (simp_all add: assms(2) s up_total_def down_total_def)
  with assms s show ?thesis by (simp add: link_inv_def)
qed


section \<open>The invariant\<close>

text \<open>
  Sessions and clients that were let in correspond one to one, and the accept handler, which never
  waits for a closed acceptor, and never ends, has the connection of a waiting client in its hands
  exactly while it handles it.
\<close>

definition slots_ok :: "load_system \<Rightarrow> bool" where
  "slots_ok y \<longleftrightarrow>
     length (ls_pipes y) = length (lg_clients (ls_gen y)) \<and> length (ls_slot y) = length (lg_clients (ls_gen y))
     \<and> bij_betw (\<lambda>i. the (session_no (ls_slot y ! i))) {i. i < length (ls_slot y) \<and> session_no (ls_slot y ! i) \<noteq> None}
         {0..<length (sessions (ls_server y))}"

definition acceptor_ok :: "load_system \<Rightarrow> bool" where
  "acceptor_ok y \<longleftrightarrow> \<not> stopped (ls_server y)
     \<and> (accept_at (ls_server y) \<in> {AwaitAccept, Rearm} \<and> ls_accepting y = None
        \<or> handling (accept_at (ls_server y))
          \<and> (\<exists>i. ls_accepting y = Some i \<and> i < length (ls_slot y) \<and> ls_slot y ! i = Waiting
               \<and> pending_ops (lg_clients (ls_gen y) ! i) \<noteq> [Resolving]))"

text \<open>
  Whether a client has sent a request shows in its write buffer. Before its connection is accepted it
  has sent one exactly when it is past connecting, and none when it has reported. A client that was
  turned away is about to connect, to write or to read a header, or has reported.
\<close>

definition sent :: "client \<Rightarrow> bool" where
  "sent c \<longleftrightarrow> cl_write_buf c \<noteq> []"

definition waiting_ok :: "client \<Rightarrow> bool" where
  "waiting_ok c \<longleftrightarrow>
     (pending_ops c = [] \<longrightarrow> \<not> sent c)
     \<and> (\<forall>op \<in> set (pending_ops c). sent c \<longleftrightarrow> op \<noteq> Resolving \<and> op \<noteq> Connecting)"

definition refused_ok :: "client \<Rightarrow> bool" where
  "refused_ok c \<longleftrightarrow> client_ok c \<and> \<not> aborted c
     \<and> (\<forall>op \<in> set (pending_ops c). op = Connecting \<or> op = ReadingHeader \<or> (\<exists>bs. op = Writing bs))
     \<and> (\<forall>op \<in> set (pending_ops c). sent c \<longleftrightarrow> op \<noteq> Connecting)"

text \<open>The clients that were turned away, and those of them that had sent a request and have finished.\<close>

definition refused :: "load_system \<Rightarrow> nat set" where
  "refused y = {i. i < length (ls_slot y) \<and> ls_slot y ! i = TurnedAway}"

definition refused_failed :: "load_system \<Rightarrow> nat set" where
  "refused_failed y = {i \<in> refused y. done_calls (lg_clients (ls_gen y) ! i) = 1 \<and> sent (lg_clients (ls_gen y) ! i)}"

text \<open>The connection of one client, without the shared counters.\<close>

definition conn :: "load_system \<Rightarrow> nat \<Rightarrow> link" where
  "conn y i = (link_of y i)\<lparr>lk_metrics := new_metrics\<rparr>"

definition conn_ok :: "endianness \<Rightarrow> platform \<Rightarrow> load_system \<Rightarrow> nat \<Rightarrow> bool" where
  "conn_ok E P y i \<longleftrightarrow>
     (if ls_slot y ! i = TurnedAway then refused_ok (lg_clients (ls_gen y) ! i)
      else link_inv E P (conn y i) \<and> (ls_slot y ! i = Waiting \<longrightarrow> down_total (link_of y i) = [] \<and> waiting_ok (lg_clients (ls_gen y) ! i)))"

definition load_system_inv ::
  "endianness \<Rightarrow> platform \<Rightarrow> server_config \<Rightarrow> u32 \<Rightarrow> u32 \<Rightarrow> load_system \<Rightarrow> bool" where
  "load_system_inv E P cfg hw n y \<longleftrightarrow>
     server_inv cfg hw (ls_server y) \<and> loadgen_inv n (ls_gen y) \<and> slots_ok y \<and> acceptor_ok y
     \<and> world_ok (proc (ls_server y))
     \<and> unat (errors_ctr (lg_metrics (ls_gen y))) = card (refused_failed y)
     \<and> (\<forall>i < unat n. conn_ok E P y i)"

lemma slots_ok_length: "slots_ok y \<Longrightarrow> length (ls_pipes y) = length (lg_clients (ls_gen y))"
  "slots_ok y \<Longrightarrow> length (ls_slot y) = length (lg_clients (ls_gen y))"
  by (simp_all add: slots_ok_def)

lemma slots_ok_bij:
  "slots_ok y \<Longrightarrow> bij_betw (\<lambda>i. the (session_no (ls_slot y ! i))) {i. i < length (ls_slot y) \<and> session_no (ls_slot y ! i) \<noteq> None}
     {0..<length (sessions (ls_server y))}"
  unfolding slots_ok_def by blast

lemma slots_ok_same:
  assumes "length (ls_pipes y') = length (ls_pipes y)" and "ls_slot y' = ls_slot y"
    and "length (lg_clients (ls_gen y')) = length (lg_clients (ls_gen y))"
    and "length (sessions (ls_server y')) = length (sessions (ls_server y))"
  shows "slots_ok y' = slots_ok y"
  unfolding slots_ok_def assms ..

lemma acceptor_ok_same:
  assumes "accept_at (ls_server y') = accept_at (ls_server y)" and "stopped (ls_server y') = stopped (ls_server y)"
    and "ls_slot y' = ls_slot y" and "ls_accepting y' = ls_accepting y"
    and "lg_clients (ls_gen y') = lg_clients (ls_gen y)"
  shows "acceptor_ok y' = acceptor_ok y"
  unfolding acceptor_ok_def assms ..

lemma put_ok [simp]:
  "slots_ok (put_pipe i l y) = slots_ok y" "slots_ok (put_client i l y) = slots_ok y"
  "slots_ok (put_session i k l y) = slots_ok y" "slots_ok (put_gen i mc y) = slots_ok y"
  "acceptor_ok (put_pipe i l y) = acceptor_ok y" "acceptor_ok (put_session i k l y) = acceptor_ok y"
  by (rule slots_ok_same acceptor_ok_same; simp)+

lemma slot_session:
  assumes "slots_ok y" and "i < length (ls_slot y)" and "ls_slot y ! i = Served k"
  shows "k < length (sessions (ls_server y))"
    and "j < length (ls_slot y) \<Longrightarrow> ls_slot y ! j = Served k \<Longrightarrow> j = i"
proof -
  let ?A = "{i. i < length (ls_slot y) \<and> session_no (ls_slot y ! i) \<noteq> None}"
  have b: "bij_betw (\<lambda>i. the (session_no (ls_slot y ! i))) ?A {0..<length (sessions (ls_server y))}"
    by (rule slots_ok_bij [OF assms(1)])
  have "i \<in> ?A" using assms by simp
  with b assms(3) show "k < length (sessions (ls_server y))" by (force dest: bij_betwE)
  show "j = i" if "j < length (ls_slot y)" "ls_slot y ! j = Served k"
    using b assms that by (auto simp: bij_betw_def inj_on_def)
qed

lemma session_slot:
  assumes "slots_ok y" and "k < length (sessions (ls_server y))"
  shows "\<exists>i < length (ls_slot y). ls_slot y ! i = Served k"
proof -
  have "k \<in> (\<lambda>i. the (session_no (ls_slot y ! i))) ` {i. i < length (ls_slot y) \<and> session_no (ls_slot y ! i) \<noteq> None}"
    using slots_ok_bij [OF assms(1)] assms(2) by (simp add: bij_betw_def)
  then show ?thesis by auto
qed

text \<open>There are as many sessions as accepted clients.\<close>

lemma sessions_count:
  assumes "slots_ok y"
  shows "length (sessions (ls_server y)) = card {i. i < length (ls_slot y) \<and> session_no (ls_slot y ! i) \<noteq> None}"
  using bij_betw_same_card [OF slots_ok_bij [OF assms]] by simp

lemma sessions_le:
  assumes "slots_ok y"
  shows "length (sessions (ls_server y)) \<le> length (lg_clients (ls_gen y))"
    and "i < length (ls_slot y) \<Longrightarrow> session_no (ls_slot y ! i) = None \<Longrightarrow>
      length (sessions (ls_server y)) < length (lg_clients (ls_gen y))"
proof -
  let ?A = "{i. i < length (ls_slot y) \<and> session_no (ls_slot y ! i) \<noteq> None}"
  have n: "length (lg_clients (ls_gen y)) = card {0..<length (ls_slot y)}"
    by (simp add: slots_ok_length(2) [OF assms])
  show "length (sessions (ls_server y)) \<le> length (lg_clients (ls_gen y))"
    unfolding sessions_count [OF assms] n by (rule card_mono) auto
  assume "i < length (ls_slot y)" "session_no (ls_slot y ! i) = None"
  then have "i \<in> {0..<length (ls_slot y)} - ?A" by auto
  moreover have "?A \<subseteq> {0..<length (ls_slot y)}" by auto
  ultimately have "?A \<subset> {0..<length (ls_slot y)}" by blast
  then show "length (sessions (ls_server y)) < length (lg_clients (ls_gen y))"
    unfolding sessions_count [OF assms] n by (intro psubset_card_mono) simp_all
qed

lemma slots_ok_accept:
  assumes ok: "slots_ok y" and i: "i < length (ls_slot y)" "session_no (ls_slot y ! i) = None"
    and y': "ls_pipes y' = ls_pipes y" "ls_gen y' = ls_gen y"
      "ls_slot y' = (ls_slot y)[i := Served (length (sessions (ls_server y)))]"
      "sessions (ls_server y') = sessions (ls_server y) @ [s]"
  shows "slots_ok y'"
proof -
  let ?n = "length (sessions (ls_server y))"
  let ?A = "{j. j < length (ls_slot y) \<and> session_no (ls_slot y ! j) \<noteq> None}"
  let ?f = "\<lambda>j. the (session_no (ls_slot y ! j))" and ?f' = "\<lambda>j. the (session_no (ls_slot y' ! j))"
  have A': "{j. j < length (ls_slot y') \<and> session_no (ls_slot y' ! j) \<noteq> None} = insert i ?A"
    using i by (auto simp: y' nth_list_update)
  have b: "bij_betw ?f ?A {0..<?n}" by (rule slots_ok_bij [OF ok])
  have "bij_betw ?f' ?A {0..<?n}"
    using b by (rule bij_betw_cong [THEN iffD1, rotated]) (use i in \<open>auto simp: y' nth_list_update\<close>)
  then have "bij_betw ?f' (?A \<union> {i}) ({0..<?n} \<union> {?f' i})"
    using i by (intro notIn_Un_bij_betw) (auto simp: y')
  moreover have "{0..<?n} \<union> {?f' i} = {0..<Suc ?n}" "?A \<union> {i} = insert i ?A" using i by (auto simp: y')
  ultimately show ?thesis using slots_ok_length [OF ok] A' by (simp add: slots_ok_def y')
qed

lemma slots_ok_refuse:
  assumes ok: "slots_ok y" and i: "i < length (ls_slot y)" "session_no (ls_slot y ! i) = None"
    and y': "ls_pipes y' = ls_pipes y" "ls_gen y' = ls_gen y" "ls_slot y' = (ls_slot y)[i := TurnedAway]"
      "sessions (ls_server y') = sessions (ls_server y)"
  shows "slots_ok y'"
proof -
  have n: "session_no (ls_slot y' ! j) = session_no (ls_slot y ! j)" if "j < length (ls_slot y)" for j
    using i that by (auto simp: y' nth_list_update)
  have l: "length (ls_slot y') = length (ls_slot y)" by (simp add: y')
  have "{j. j < length (ls_slot y') \<and> session_no (ls_slot y' ! j) \<noteq> None} =
      {j. j < length (ls_slot y) \<and> session_no (ls_slot y ! j) \<noteq> None}"
    using n by (auto simp: l simp del: not_None_eq)
  moreover have "bij_betw (\<lambda>j. the (session_no (ls_slot y' ! j)))
      {j. j < length (ls_slot y) \<and> session_no (ls_slot y ! j) \<noteq> None} {0..<length (sessions (ls_server y))}"
    using slots_ok_bij [OF ok] by (rule bij_betw_cong [THEN iffD1, rotated]) (simp add: n)
  ultimately show ?thesis using slots_ok_length [OF ok] by (simp add: slots_ok_def y'(1,2,4) l)
qed

lemma load_system_inv_sizes:
  assumes "load_system_inv E P cfg hw n y"
  shows "length (lg_clients (ls_gen y)) = unat n" and "length (ls_slot y) = unat n" and "length (ls_pipes y) = unat n"
  using assms slots_ok_length [of y] by (simp_all add: load_system_inv_def loadgen_inv_def)

lemma send_waiting: "pending_ops c = [] \<Longrightarrow> \<not> sent c \<Longrightarrow> waiting_ok (do_send_request E sc env c)"
proof -
  have "encode_header E h \<noteq> []" for h
    using wire.enc_width by (metis kHeaderSize_def list.size(3) zero_neq_numeral)
  then show "pending_ops c = [] \<Longrightarrow> \<not> sent c \<Longrightarrow> waiting_ok (do_send_request E sc env c)"
    by (auto simp: do_send_request_def waiting_ok_def sent_def finish_def add_op_def Let_def split: option.split)
qed

lemma client_turn_waiting:
  assumes t: "client_turn E sc env l = Some l'" and d: "down_total l = []" and ok: "client_ok (lk_client l)"
    and w: "waiting_ok (lk_client l)"
  shows "waiting_ok (lk_client l')"
proof -
  from t obtain op where o: "pending_ops (lk_client l) = [op]"
    by (auto simp: client_turn_def Let_def split: list.splits)
  have ld: "lk_down l = []" using d by (simp add: down_total_def)
  show ?thesis
  proof (cases op)
    case Resolving
    with t o w show ?thesis
      by (auto simp: client_turn_def client_did_def on_resolved_def add_op_def waiting_ok_def sent_def)
  next
    case Connecting
    then have "\<not> sent ((lk_client l)\<lparr>pending_ops := []\<rparr>)" using w o by (simp add: waiting_ok_def sent_def)
    with t o Connecting send_waiting show ?thesis
      by (auto simp: client_turn_def client_did_def on_connected_def Let_def split: if_splits)
  next
    case (Writing bs)
    with t o w show ?thesis
      by (auto simp: client_turn_def client_did_def on_written_def add_op_def waiting_ok_def sent_def Let_def
          split: if_splits)
  next
    case ReadingHeader
    with t o ld show ?thesis by (simp add: client_turn_def kHeaderSize_def Let_def)
  next
    case (ReadingBody n)
    with ok o have "0 < n" by (simp add: client_ok_def)
    with t o ld ReadingBody show ?thesis by (simp add: client_turn_def Let_def)
  qed
qed

text \<open>What others do to the shared state does not disturb a connection.\<close>

lemma conn_ok_other:
  assumes c: "conn_ok E P y j" and w: "world_ok (proc (ls_server y'))"
    and e: "ls_slot y' ! j = ls_slot y ! j" "lg_clients (ls_gen y') ! j = lg_clients (ls_gen y) ! j"
      "ls_pipes y' ! j = ls_pipes y ! j" "session_of y' j = session_of y j"
  shows "conn_ok E P y' j"
proof -
  have "conn y' j = (conn y j)\<lparr>lk_world := proc (ls_server y')\<rparr>"
    using e by (simp add: conn_def link_of_def Let_def)
  moreover have "down_total (link_of y' j) = down_total (link_of y j)"
    using e by (simp add: down_total_def link_of_def Let_def)
  ultimately show ?thesis using c link_inv_world [OF _ w] e by (simp add: conn_ok_def)
qed

lemma refused_put [simp]:
  "refused (put_pipe i l y) = refused y" "refused (put_gen i mc y) = refused y"
  "refused (put_client i l y) = refused y" "refused (put_session i k l y) = refused y"
  by (simp_all add: refused_def)

lemma refused_failed_keeps:
  assumes "ls_slot y' = ls_slot y" and "\<And>j. j \<in> refused y \<Longrightarrow> lg_clients (ls_gen y') ! j = lg_clients (ls_gen y) ! j"
  shows "refused_failed y' = refused_failed y"
  using assms by (auto simp: refused_failed_def refused_def)

lemma load_system_inv_start: "load_system_start cfg hw n y \<Longrightarrow> load_system_inv E P cfg hw n y"
proof -
  assume s: "load_system_start cfg hw n y"
  then obtain w where w: "world_ok w" and v: "ls_server y = do_accept (make_server cfg hw w)"
    and g: "ls_gen y = launch n" and sl: "ls_slot y = replicate (unat n) Waiting" "ls_accepting y = None"
    and pp: "ls_pipes y = replicate (unat n) \<lparr>pp_up = [], pp_up_out = [], pp_down = [], pp_down_out = []\<rparr>"
    by (auto simp: load_system_start_def)
  have m: "server_inv cfg hw (make_server cfg hw w)" by (rule server_inv_start) (simp add: server_start_def)
  have "server_inv cfg hw (ls_server y)"
    using server_inv_step [OF m run_called [of "make_server cfg hw w" BigEndian "\<lambda>w m. (m, w)"]]
    by (simp add: v make_server_def)
  moreover have "loadgen_inv n (ls_gen y)" by (rule loadgen_inv_start) (simp add: g loadgen_start_def)
  moreover have "slots_ok y"
    by (simp add: slots_ok_def pp sl g v launch_def do_accept_def make_server_def bij_betw_def cong: conj_cong)
  moreover have "acceptor_ok y" by (simp add: acceptor_ok_def v sl do_accept_def make_server_def)
  moreover have "conn_ok E P y i" if i: "i < unat n" for i
  proof -
    have "link_start (of_nat i) (conn y i)"
      using w i unfolding link_start_def
      by (intro exI [of _ w] exI [of _ 0])
        (simp add: conn_def link_of_def session_of_def v g pp sl launch_def do_accept_def make_server_def)
    with i show ?thesis
      by (simp add: conn_ok_def sl link_inv_start down_total_def link_of_def pp Let_def)
        (simp add: waiting_ok_def sent_def g launch_def start_client_def do_connect_def add_op_def make_client_def)
  qed
  moreover have "refused y = {}" by (auto simp: refused_def sl)
  moreover have "world_ok (proc (ls_server y))" "errors_ctr (lg_metrics (ls_gen y)) = 0"
    using w by (simp_all add: v g do_accept_def make_server_def launch_def new_metrics_def)
  ultimately show ?thesis by (simp add: load_system_inv_def refused_failed_def)
qed

lemma client_turns_inv:
  assumes L: "libm_bounded (plat_libm P)" and ok: "weights_ok sc"
    and inv: "load_system_inv E P cfg hw n y" and i: "i < length (lg_clients (ls_gen y))" "ls_slot y ! i \<noteq> TurnedAway"
    and t: "client_turn E sc env (link_of y i) = Some l"
  shows "load_system_inv E P cfg hw n (put_client i l y)"
proof -
  let ?y' = "put_client i l y"
  note sz = load_system_inv_sizes [OF inv] and kept = client_turn_keeps [OF t]
  have ci: "conn_ok E P y j" if "j < unat n" for j using inv that by (simp add: load_system_inv_def)
  from client_turn_metrics [OF t] obtain f where f: "counter_update f"
    and lf: "lk_metrics l = f (lg_metrics (ls_gen y))"
    and cf: "client_turn E sc env (conn y i) = Some (l\<lparr>lk_metrics := f new_metrics\<rparr>)"
    by (auto simp: conn_def)
  have c: "link_inv E P (conn y i)" using ci [of i] i sz by (simp add: conn_ok_def)
  have li: "link_inv E P (l\<lparr>lk_metrics := f new_metrics\<rparr>)" by (rule client_turn_inv [OF L ok c cf])
  then have "errors_ctr (f new_metrics) = 0" by (simp add: link_inv_def)
  then have err: "errors_ctr (lk_metrics l) = errors_ctr (lg_metrics (ls_gen y))"
    using f by (auto simp: lf counter_update_def record_error_def record_success_def new_metrics_def)
  have "counts_ok new_metrics" by (simp add: counts_ok_def new_metrics_def)
  from link_inv_metrics [OF li this] have l: "link_inv E P (l\<lparr>lk_metrics := new_metrics\<rparr>)" by simp
  have "loadgen_inv n (ls_gen ?y')"
    using client_runs_inv [of n "ls_gen y" i E sc env "lk_metrics l" "lk_client l"] client_turn_step [OF t] inv i(1)
    by (simp add: put_gen_def load_system_inv_def Let_def)
  moreover have "conn_ok E P ?y' j" if j: "j < unat n" for j
  proof (cases "j = i")
    case True
    have "link_of ?y' i = l" using link_of_put_client [of i y l i] kept i sz by simp
    then show ?thesis
      using True l i ci [OF j] client_turn_facts(2) [OF t] client_turn_waiting [OF t] inv
      by (auto simp: conn_ok_def conn_def load_system_inv_def loadgen_inv_def)
  next
    case False
    show ?thesis
      by (rule conn_ok_other [OF ci [OF j]]) (use False inv in \<open>simp_all add: load_system_inv_def\<close>)
  qed
  moreover have "acceptor_ok ?y'"
    using inv client_turn_facts(1) [OF t] i(1) sz
    by (auto simp: load_system_inv_def acceptor_ok_def nth_list_update)
  moreover have "i \<noteq> j" if "j \<in> refused y" for j using i(2) that by (auto simp: refused_def)
  then have "refused_failed ?y' = refused_failed y" by (intro refused_failed_keeps) simp_all
  ultimately show ?thesis using inv err by (simp add: load_system_inv_def)
qed

lemma session_turns_inv:
  assumes inv: "load_system_inv E P cfg hw n y" and i: "i < length (ls_slot y)" "ls_slot y ! i = Served k"
    and t: "session_turn E P (link_of y i) = Some l"
  shows "load_system_inv E P cfg hw n (put_session i k l y)"
proof -
  let ?y' = "put_session i k l y"
  note sz = load_system_inv_sizes [OF inv] and kept = session_turn_keeps [OF t]
  have so: "slots_ok y" using inv by (simp add: load_system_inv_def)
  note k = slot_session [OF so i]
  have ci: "conn_ok E P y j" if "j < unat n" for j using inv that by (simp add: load_system_inv_def)
  have c: "link_inv E P (conn y i)" using ci [of i] i sz by (simp add: conn_ok_def)
  have ct: "session_turn E P (conn y i) = Some (l\<lparr>lk_metrics := new_metrics\<rparr>)"
    using session_turn_metrics [OF t] by (simp add: conn_def)
  have l: "link_inv E P (l\<lparr>lk_metrics := new_metrics\<rparr>)" by (rule session_turn_inv [OF c ct])
  then have w: "world_ok (lk_world l)" by (simp add: link_inv_def)
  have al: "alive (lk_session (link_of y i))" using c by (simp add: link_inv_def conn_def)
  from session_turn_step [OF t al] obtain e where
    "session_step E (dispatch (server_router P)) (proc (ls_server y), sessions (ls_server y) ! k) e (lk_world l, lk_session l)"
    using i by (auto simp: session_of_def)
  from session_event_inv [OF _ k(1) this] inv
  have "server_inv cfg hw (ls_server ?y')"
    by (simp add: put_session_def load_system_inv_def Let_def)
  moreover have "conn_ok E P ?y' j" if j: "j < unat n" for j
  proof (cases "j = i")
    case True
    have "link_of ?y' i = l" using link_of_put_session [of i y k l i] kept i k(1) sz by simp
    with True l i(2) show ?thesis by (simp add: conn_ok_def conn_def)
  next
    case False
    have "ls_slot y ! j \<noteq> Served k" using k(2) [of j] False j sz by auto
    then have "session_of ?y' j = session_of y j" by (auto simp: session_of_def split: option.split)
    from conn_ok_other [OF ci [OF j] _ _ _ _ this] False w show ?thesis by simp
  qed
  moreover have "refused_failed ?y' = refused_failed y" by (rule refused_failed_keeps) simp_all
  ultimately show ?thesis using inv w by (simp add: load_system_inv_def)
qed

lemma in_transit_inv:
  assumes L: "libm_bounded (plat_libm P)" and ok: "weights_ok sc"
    and inv: "load_system_inv E P cfg hw n y" and i: "i < length (ls_pipes y)" "ls_slot y ! i \<noteq> TurnedAway"
    and t: "link_step E sc P (link_of y i) Delivered l"
  shows "load_system_inv E P cfg hw n (put_pipe i l y)"
proof -
  let ?y' = "put_pipe i l y"
  note sz = load_system_inv_sizes [OF inv] and kept = delivered_keeps [OF t]
  have ci: "conn_ok E P y j" if "j < unat n" for j using inv that by (simp add: load_system_inv_def)
  have c: "link_inv E P (conn y i)" using ci [of i] i sz by (simp add: conn_ok_def)
  have "link_step E sc P (conn y i) Delivered (l\<lparr>lk_metrics := new_metrics\<rparr>)"
    using delivered_metrics [OF t] by (simp add: conn_def)
  from link_inv_step [OF L ok c this] have l: "link_inv E P (l\<lparr>lk_metrics := new_metrics\<rparr>)" .
  have "conn_ok E P ?y' j" if j: "j < unat n" for j
  proof (cases "j = i")
    case True
    have "link_of ?y' i = l" using link_of_put_pipe [of i y l i] kept i by simp
    then show ?thesis
      using True l i(2) ci [OF j] delivered_totals(2) [OF t] by (simp add: conn_ok_def conn_def)
  next
    case False
    show ?thesis
      by (rule conn_ok_other [OF ci [OF j]]) (use False inv in \<open>simp_all add: load_system_inv_def\<close>)
  qed
  moreover have "refused_failed ?y' = refused_failed y" by (rule refused_failed_keeps) simp_all
  ultimately show ?thesis using inv by (simp add: load_system_inv_def)
qed

text \<open>A client that was turned away counts at most one error, with which it finishes.\<close>

lemma finite_refused: "finite (refused y)" "finite (refused_failed y)"
  by (simp_all add: refused_def refused_failed_def)

lemma refused_turn_step:
  assumes "refused_turn E sc env ec (m, c) = Some mc"
  shows "client_step E sc (m, c) env mc"
proof -
  from assms obtain op where o: "pending_ops c = [] @ op # []"
    by (auto simp: refused_turn_def Let_def split: list.splits)
  show ?thesis
  proof (cases op)
    case Connecting
    with assms o client_step.connected [of c "[]" "[]" E sc m env False] show ?thesis
      by (auto simp: refused_turn_def Let_def split: if_splits)
  next
    case (Writing bs)
    with assms o client_step.written [of c "[]" bs "[]" E sc m env ec] show ?thesis
      by (auto simp: refused_turn_def Let_def)
  next
    case ReadingHeader
    with assms o client_step.header_arrived [of c "[]" "[]" IoErr E sc m env] show ?thesis
      by (auto simp: refused_turn_def Let_def)
  qed (use assms o in \<open>simp_all add: refused_turn_def Let_def\<close>)
qed

lemma refused_turn_ok:
  assumes ok: "weights_ok sc" and r: "refused_ok c" and t: "refused_turn E sc env ec (m, c) = Some (m', c')"
  shows "refused_ok c'"
proof -
  from t obtain op where o: "pending_ops c = [op]" by (auto simp: refused_turn_def Let_def split: list.splits)
  have send: "\<not> aborted (do_send_request E sc env x)
      \<and> (\<forall>op \<in> set (pending_ops (do_send_request E sc env x)). \<exists>bs. op = Writing bs)"
    if "pending_ops x = []" "\<not> aborted x" for x
    using that ok by (auto simp: do_send_request_def finish_def add_op_def next_request_eq Let_def split: option.split prod.split)
  let ?x = "c\<lparr>pending_ops := []\<rparr>"
  have sw: "waiting_ok (do_send_request E sc env ?x)" if "op = Connecting"
    by (rule send_waiting) (use r o that in \<open>simp_all add: refused_ok_def sent_def\<close>)
  have "\<not> aborted c'
      \<and> (\<forall>op \<in> set (pending_ops c'). op = Connecting \<or> op = ReadingHeader \<or> (\<exists>bs. op = Writing bs))
      \<and> (\<forall>op \<in> set (pending_ops c'). sent c' \<longleftrightarrow> op \<noteq> Connecting)"
  proof (cases op)
    case Connecting
    with t o have c': "c' = do_send_request E sc env ?x"
      by (auto simp: refused_turn_def on_connected_def Let_def split: if_splits)
    from send [of ?x] sw [OF Connecting] r show ?thesis unfolding c' by (auto simp: refused_ok_def waiting_ok_def)
  next
    case (Writing bs)
    with t o r show ?thesis
      by (auto simp: refused_turn_def refused_ok_def on_written_def sent_def fail_def finish_def add_op_def Let_def
          split: if_splits)
  next
    case ReadingHeader
    with t o r show ?thesis
      by (auto simp: refused_turn_def refused_ok_def on_response_header_def fail_def finish_def Let_def)
  qed (use t o in \<open>simp_all add: refused_turn_def\<close>)
  moreover have "client_ok c'" using client_ok_step [OF _ refused_turn_step [OF t]] r by (simp add: refused_ok_def)
  ultimately show ?thesis by (simp add: refused_ok_def)
qed

lemma refused_turn_counts:
  assumes t: "refused_turn E sc env ec (m, c) = Some (m', c')" and r: "refused_ok c"
  shows "done_calls c' = 1 \<and> sent c' \<Longrightarrow> errors_ctr m' = errors_ctr m + 1"
    and "\<not> (done_calls c' = 1 \<and> sent c') \<Longrightarrow> errors_ctr m' = errors_ctr m"
    and "done_calls c = 0"
proof -
  from t obtain op where o: "pending_ops c = [op]" by (auto simp: refused_turn_def Let_def split: list.splits)
  have k: "client_ok c" "\<not> aborted c" using r by (simp_all add: refused_ok_def)
  from link_phase_cases [OF k] o show d: "done_calls c = 0" by simp
  have x: "\<not> sent (c\<lparr>pending_ops := []\<rparr>)" if "op = Connecting" using r o that by (simp add: refused_ok_def sent_def)
  have w: "waiting_ok (do_send_request E sc env (c\<lparr>pending_ops := []\<rparr>))" if "op = Connecting"
    by (rule send_waiting) (use x that in simp_all)
  have fin: "done_calls (do_send_request E sc env (c\<lparr>pending_ops := []\<rparr>)) = 1 \<Longrightarrow>
      pending_ops (do_send_request E sc env (c\<lparr>pending_ops := []\<rparr>)) = []"
    using d by (auto simp: do_send_request_def finish_def add_op_def Let_def split: option.splits if_splits)
  have "(done_calls c' = 1 \<and> sent c' \<longrightarrow> errors_ctr m' = errors_ctr m + 1)
      \<and> (\<not> (done_calls c' = 1 \<and> sent c') \<longrightarrow> errors_ctr m' = errors_ctr m)"
  proof (cases op)
    case Connecting
    with t o have "m' = m" "c' = do_send_request E sc env (c\<lparr>pending_ops := []\<rparr>)"
      by (auto simp: refused_turn_def on_connected_def Let_def split: if_splits)
    with w [OF Connecting] fin show ?thesis by (auto simp: waiting_ok_def)
  next
    case (Writing bs)
    with t o r d show ?thesis
      by (auto simp: refused_turn_def refused_ok_def on_written_def sent_def fail_def finish_def add_op_def
          record_error_def Let_def split: if_splits)
  next
    case ReadingHeader
    with t o r d show ?thesis
      by (auto simp: refused_turn_def refused_ok_def on_response_header_def sent_def fail_def finish_def record_error_def Let_def)
  qed (use t o in \<open>simp_all add: refused_turn_def\<close>)
  then show "done_calls c' = 1 \<and> sent c' \<Longrightarrow> errors_ctr m' = errors_ctr m + 1"
    and "\<not> (done_calls c' = 1 \<and> sent c') \<Longrightarrow> errors_ctr m' = errors_ctr m" by blast+
qed

lemma refused_turns_inv:
  assumes ok: "weights_ok sc" and inv: "load_system_inv E P cfg hw n y"
    and i: "i < length (lg_clients (ls_gen y))" "ls_slot y ! i = TurnedAway"
    and t: "refused_turn E sc env ec (lg_metrics (ls_gen y), lg_clients (ls_gen y) ! i) = Some mc"
  shows "load_system_inv E P cfg hw n (put_gen i mc y)"
proof -
  let ?y' = "put_gen i mc y" and ?c = "lg_clients (ls_gen y) ! i" and ?m = "lg_metrics (ls_gen y)"
  note sz = load_system_inv_sizes [OF inv]
  have ci: "conn_ok E P y j" if "j < unat n" for j using inv that by (simp add: load_system_inv_def)
  have rc: "refused_ok ?c" using ci [of i] i sz by (simp add: conn_ok_def)
  have st: "client_step E sc (?m, ?c) env (fst mc, snd mc)" using refused_turn_step [OF t] by simp
  have rc': "refused_ok (snd mc)" by (rule refused_turn_ok [OF ok rc, of E env ec ?m "fst mc"]) (use t in simp)
  have "loadgen_inv n (ls_gen ?y')"
    using client_runs_inv [OF _ i(1) st] inv by (simp add: put_gen_def load_system_inv_def Let_def)
  moreover have "conn_ok E P ?y' j" if j: "j < unat n" for j
  proof (cases "j = i")
    case True
    with rc' i show ?thesis by (simp add: conn_ok_def)
  next
    case False
    show ?thesis by (rule conn_ok_other [OF ci [OF j]]) (use False inv in \<open>simp_all add: load_system_inv_def\<close>)
  qed
  moreover have "acceptor_ok ?y'"
    using inv i by (auto simp: load_system_inv_def acceptor_ok_def nth_list_update)
  moreover have "unat (errors_ctr (fst mc)) = card (refused_failed ?y')"
  proof -
    have b: "refused_failed ?y' =
        (if done_calls (snd mc) = 1 \<and> sent (snd mc) then insert i (refused_failed y) else refused_failed y - {i})"
      using i sz by (auto simp: refused_failed_def refused_def nth_list_update split: if_splits)
    have ni: "i \<notin> refused_failed y"
      using refused_turn_counts(3) [of E sc env ec ?m ?c "fst mc" "snd mc"] t rc by (auto simp: refused_failed_def)
    have old: "unat (errors_ctr ?m) = card (refused_failed y)" using inv by (simp add: load_system_inv_def)
    show ?thesis
    proof (cases "done_calls (snd mc) = 1 \<and> sent (snd mc)")
      case True
      then have e: "errors_ctr (fst mc) = errors_ctr ?m + 1"
        using refused_turn_counts(1) [of E sc env ec ?m ?c "fst mc" "snd mc"] t rc by simp
      have "refused_failed y \<subseteq> {0..<unat n}" using sz by (auto simp: refused_failed_def refused_def)
      from card_mono [OF _ this] old have "unat (errors_ctr ?m) \<le> unat n" by simp
      moreover have "unat n < 2 ^ 32" using unsigned_less [of n, where ?'a = nat] by simp
      ultimately have "unat (errors_ctr ?m + 1) = Suc (unat (errors_ctr ?m))" by (simp add: unat_plus_if')
      with e b True ni old show ?thesis by (simp add: finite_refused)
    next
      case False
      with b ni have "refused_failed ?y' = refused_failed y" by auto
      moreover have "errors_ctr (fst mc) = errors_ctr ?m"
        using refused_turn_counts(2) [of E sc env ec ?m ?c "fst mc" "snd mc"] t rc False by simp
      ultimately show ?thesis using old by simp
    qed
  qed
  ultimately show ?thesis using inv by (simp add: load_system_inv_def)
qed

section \<open>The acceptor\<close>

lemma accept_action_keeps:
  "proc (accept_action env v) = proc v" "stopped (accept_action env v) = stopped v"
  "\<forall>sid. accept_at v \<noteq> StartSession sid \<Longrightarrow> sessions (accept_action env v) = sessions v"
  by (simp_all add: accept_action_def do_accept_def split: accept_pc.split)

text \<open>While the limit admits every client, nobody is turned away.\<close>

lemma total_at_check:
  assumes inv: "load_system_inv E P cfg hw n y" and at: "accept_at (ls_server y) = CheckLimit"
  shows "unat (total_connections (ls_server y)) < unat n"
proof -
  let ?v = "ls_server y"
  have so: "slots_ok y" and sv: "server_inv cfg hw ?v" and ac: "acceptor_ok y"
    using inv by (simp_all add: load_system_inv_def)
  from ac at obtain i where "i < length (ls_slot y)" "ls_slot y ! i = Waiting" by (auto simp: acceptor_ok_def)
  then have lt: "length (sessions ?v) < unat n"
    using sessions_le(2) [OF so] load_system_inv_sizes(1) [OF inv] by simp
  have "unat n < 2 ^ 32" using unsigned_less [of n, where ?'a = nat] by simp
  with lt have "length (sessions ?v) < 2 ^ 64" by simp
  moreover have "total_connections ?v = of_nat (length (sessions ?v))"
    using sv at by (simp add: server_inv_def)
  ultimately show ?thesis using lt by (simp add: unat_of_nat)
qed

lemma not_rejected:
  assumes inv: "load_system_inv E P cfg hw n y" and lim: "unat n \<le> unat (cfg_max_connections cfg)"
    and at: "accept_at (ls_server y) = CheckLimit" and seen: "seen \<le> total_connections (ls_server y)"
  shows "seen < max_connections (ls_server y)"
proof -
  have "max_connections (ls_server y) = cfg_max_connections cfg"
    using inv by (simp add: load_system_inv_def server_inv_def)
  with total_at_check [OF inv at] seen lim show ?thesis by (simp add: word_le_nat_alt word_less_nat_alt)
qed

text \<open>An action that neither starts nor refuses anything.\<close>

lemma acceptor_inv:
  assumes inv: "load_system_inv E P cfg hw n y" and seen: "active_connections (ls_server y) \<le> env_seen env"
    and ns: "\<forall>sid. accept_at (ls_server y) \<noteq> StartSession sid"
    and y': "y' = y\<lparr>ls_server := accept_action env (ls_server y), ls_accepting := a\<rparr>" and ac: "acceptor_ok y'"
  shows "load_system_inv E P cfg hw n y'"
proof -
  have "slots_ok y' = slots_ok y" by (rule slots_ok_same) (simp_all add: y' accept_action_keeps(3) [OF ns])
  moreover have "conn_ok E P y' j" if "j < unat n" for j
    by (rule conn_ok_other [of E P y])
      (use inv that in \<open>simp_all add: load_system_inv_def session_of_def y' accept_action_keeps(1)
        accept_action_keeps(3) [OF ns] split: option.split\<close>)
  moreover have "server_inv cfg hw (ls_server y')"
    using accept_action_inv [OF _ seen] inv by (simp add: y' load_system_inv_def)
  moreover have "refused y' = refused y" "refused_failed y' = refused_failed y"
    by (simp_all add: refused_def refused_failed_def y')
  ultimately show ?thesis
    using inv ac by (simp add: load_system_inv_def) (simp add: y' accept_action_keeps)
qed

lemma connection_taken_inv:
  assumes inv: "load_system_inv E P cfg hw n y" and at: "accept_at (ls_server y) = AwaitAccept"
    and i: "i < length (ls_slot y)" "ls_slot y ! i = Waiting" "pending_ops (lg_clients (ls_gen y) ! i) \<noteq> [Resolving]"
    and seen: "active_connections (ls_server y) \<le> seen"
  shows "load_system_inv E P cfg hw n
     (y\<lparr>ls_server := accept_action (AcceptEnv True False seen False) (ls_server y), ls_accepting := Some i\<rparr>)"
proof (rule acceptor_inv [OF inv _ _ refl])
  show "acceptor_ok (y\<lparr>ls_server := accept_action (AcceptEnv True False seen False) (ls_server y), ls_accepting := Some i\<rparr>)"
    using inv at i by (simp add: load_system_inv_def acceptor_ok_def accept_action_def)
qed (use at seen in simp_all)

lemma session_started_inv:
  assumes inv: "load_system_inv E P cfg hw n y" and at: "accept_at (ls_server y) = StartSession sid"
    and seen: "active_connections (ls_server y) \<le> env_seen env"
  shows "load_system_inv E P cfg hw n (acceptor_acts env y)"
proof -
  note sz = load_system_inv_sizes [OF inv]
  have so: "slots_ok y" using inv by (simp add: load_system_inv_def)
  from inv at obtain i where i: "ls_accepting y = Some i" "i < length (ls_slot y)" "ls_slot y ! i = Waiting"
    by (auto simp: load_system_inv_def acceptor_ok_def)
  let ?v = "ls_server y" and ?y' = "acceptor_acts env y"
  have y': "?y' = y\<lparr>ls_server := accept_action env ?v,
      ls_slot := (ls_slot y)[i := Served (length (sessions ?v))], ls_accepting := None\<rparr>"
    using at i by (simp add: acceptor_acts_def Let_def)
  have v': "accept_action env ?v = ?v\<lparr>sessions := sessions ?v @ [start (make_session sid)], accept_at := Rearm\<rparr>"
    using at by (simp add: accept_action_def)
  have "slots_ok ?y'" by (rule slots_ok_accept [OF so i(2)]) (simp_all add: y' v' i)
  moreover have "acceptor_ok ?y'" using inv by (simp add: y' v' load_system_inv_def acceptor_ok_def)
  moreover have "server_inv cfg hw (ls_server ?y')"
    using accept_action_inv [OF _ seen] inv by (simp add: y' load_system_inv_def)
  moreover have "conn_ok E P ?y' j" if j: "j < unat n" for j
  proof -
    have ci: "conn_ok E P y j" using inv j by (simp add: load_system_inv_def)
    show ?thesis
    proof (cases "j = i")
      case True
      have "conn ?y' j = (conn y j)\<lparr>lk_session := start (make_session sid)\<rparr>"
        using True i by (simp add: y' v' conn_def link_of_def session_of_def Let_def)
      moreover have "lk_session (conn y j) = start (make_session 0)"
        using True i by (simp add: conn_def session_of_def)
      ultimately show ?thesis using link_inv_accepted [of E P "conn y j"] True ci i by (simp add: conn_ok_def y')
    next
      case False
      have "session_of ?y' j = session_of y j"
        using False slot_session(1) [OF so, of j] j sz
        by (auto simp: y' v' session_of_def nth_append split: option.split)
      from conn_ok_other [OF ci _ _ _ _ this] False inv show ?thesis by (simp add: y' v' load_system_inv_def)
    qed
  qed
  moreover have "refused ?y' = refused y" "refused_failed ?y' = refused_failed y"
    using i by (auto simp: refused_def refused_failed_def y' nth_list_update)
  ultimately show ?thesis using inv by (simp add: load_system_inv_def) (simp add: y' v')
qed

text \<open>
  The connection that is refused: nothing has come back on it, so its client has not got as far as a
  body.
\<close>

lemma waiting_refused_ok:
  assumes c: "conn_ok E P y i" and w: "ls_slot y ! i = Waiting"
    and p: "pending_ops (lg_clients (ls_gen y) ! i) \<noteq> [Resolving]"
  shows "refused_ok (lg_clients (ls_gen y) ! i)"
proof -
  let ?c = "lg_clients (ls_gen y) ! i"
  have inv: "link_inv E P (conn y i)" and d: "down_total (conn y i) = []" and wo: "waiting_ok ?c"
    using c w by (simp_all add: conn_ok_def conn_def down_total_def)
  then have ok: "client_ok ?c" "\<not> aborted ?c" and ph: "client_phase E P (pending_ops ?c) (conn y i)"
    by (simp_all add: link_inv_def conn_def)
  have "op = Connecting \<or> op = ReadingHeader \<or> (\<exists>bs. op = Writing bs)" if o: "pending_ops ?c = [op]" for op
  proof (cases op)
    case Resolving
    with p o show ?thesis by simp
  next
    case (ReadingBody m)
    with ph o d ok show ?thesis by (simp add: client_ok_def)
  qed simp_all
  with ok link_phase_cases [OF ok] wo p show ?thesis by (auto simp: refused_ok_def waiting_ok_def)
qed

lemma refused_inv:
  assumes inv: "load_system_inv E P cfg hw n y" and at: "accept_at (ls_server y) = RejectSocket"
    and seen: "active_connections (ls_server y) \<le> env_seen env"
  shows "load_system_inv E P cfg hw n (acceptor_acts env y)"
proof -
  note sz = load_system_inv_sizes [OF inv]
  have so: "slots_ok y" using inv by (simp add: load_system_inv_def)
  from inv at obtain i where i: "ls_accepting y = Some i" "i < length (ls_slot y)" "ls_slot y ! i = Waiting"
    and p: "pending_ops (lg_clients (ls_gen y) ! i) \<noteq> [Resolving]"
    by (auto simp: load_system_inv_def acceptor_ok_def)
  let ?v = "ls_server y" and ?y' = "acceptor_acts env y"
  have y': "?y' = y\<lparr>ls_server := accept_action env ?v, ls_slot := (ls_slot y)[i := TurnedAway], ls_accepting := None\<rparr>"
    using at i by (simp add: acceptor_acts_def Let_def)
  have v': "accept_action env ?v = ?v\<lparr>accept_at := Rearm\<rparr>" using at by (simp add: accept_action_def)
  have "slots_ok ?y'" by (rule slots_ok_refuse [OF so i(2)]) (simp_all add: y' v' i)
  moreover have "acceptor_ok ?y'" using inv by (simp add: y' v' load_system_inv_def acceptor_ok_def)
  moreover have "server_inv cfg hw (ls_server ?y')"
    using accept_action_inv [OF _ seen] inv by (simp add: y' load_system_inv_def)
  moreover have "conn_ok E P ?y' j" if j: "j < unat n" for j
  proof -
    have ci: "conn_ok E P y j" using inv j by (simp add: load_system_inv_def)
    show ?thesis
    proof (cases "j = i")
      case True
      with waiting_refused_ok [OF ci] i p show ?thesis by (simp add: conn_ok_def y')
    next
      case False
      have "session_of ?y' j = session_of y j"
        using False by (simp add: y' v' session_of_def split: option.split)
      from conn_ok_other [OF ci _ _ _ _ this] False inv show ?thesis by (simp add: y' v' load_system_inv_def)
    qed
  qed
  moreover have "refused_failed ?y' = refused_failed y"
  proof -
    have ci: "conn_ok E P y i" using inv i(2) sz by (simp add: load_system_inv_def)
    then have k: "client_ok (lg_clients (ls_gen y) ! i)" "\<not> aborted (lg_clients (ls_gen y) ! i)"
      and w: "waiting_ok (lg_clients (ls_gen y) ! i)"
      using i(3) by (simp_all add: conn_ok_def conn_def link_inv_def)
    have nf: "\<not> (done_calls (lg_clients (ls_gen y) ! i) = 1 \<and> sent (lg_clients (ls_gen y) ! i))"
      using link_phase_cases [OF k] w by (auto simp: waiting_ok_def)
    have "refused ?y' = insert i (refused y)" using i by (auto simp: refused_def y' nth_list_update split: if_splits)
    moreover have "ls_gen ?y' = ls_gen y" by (simp add: y')
    ultimately show ?thesis using nf by (auto simp: refused_failed_def)
  qed
  ultimately show ?thesis using inv by (simp add: load_system_inv_def) (simp add: y' v')
qed

lemma acceptor_continues_inv:
  assumes inv: "load_system_inv E P cfg hw n y"
    and at: "handling (accept_at (ls_server y)) \<or> accept_at (ls_server y) = Rearm"
    and seen: "active_connections (ls_server y) \<le> seen"
  shows "load_system_inv E P cfg hw n (acceptor_acts (AcceptEnv True False seen False) y)"
proof -
  let ?env = "AcceptEnv True False seen False"
  consider (session) sid where "accept_at (ls_server y) = StartSession sid" | (refuse) "accept_at (ls_server y) = RejectSocket"
    | (other) "\<forall>sid. accept_at (ls_server y) \<noteq> StartSession sid" "accept_at (ls_server y) \<noteq> RejectSocket"
    by blast
  then show ?thesis
  proof cases
    case session
    with session_started_inv [OF inv] seen show ?thesis by auto
  next
    case refuse
    with refused_inv [OF inv] seen show ?thesis by simp
  next
    case other
    have y': "acceptor_acts ?env y = y\<lparr>ls_server := accept_action ?env (ls_server y), ls_accepting := ls_accepting y\<rparr>"
      using other by (simp add: acceptor_acts_def Let_def split: accept_pc.split)
    show ?thesis
    proof (rule acceptor_inv [OF inv _ other(1) y'])
      show "acceptor_ok (acceptor_acts ?env y)"
        using inv at other unfolding y'
        by (cases "accept_at (ls_server y)")
          (auto simp: load_system_inv_def acceptor_ok_def accept_action_def do_accept_def)
    qed (use seen in simp)
  qed
qed

lemma load_system_inv_step:
  assumes L: "libm_bounded (plat_libm P)" and ok: "weights_ok sc"
    and inv: "load_system_inv E P cfg hw n y" and step: "load_system_step E sc P y e y'"
  shows "load_system_inv E P cfg hw n y'"
  using step
proof cases
  case client_turns
  then show ?thesis using client_turns_inv [OF L ok inv] by simp
next
  case refused_turns
  then show ?thesis using refused_turns_inv [OF ok inv] by simp
next
  case session_turns
  then show ?thesis using session_turns_inv [OF inv] by simp
next
  case in_transit
  then show ?thesis using in_transit_inv [OF L ok inv] by simp
next
  case connection_taken
  then show ?thesis using connection_taken_inv [OF inv] by simp
next
  case acceptor_continues
  then show ?thesis using acceptor_continues_inv [OF inv] by simp
next
  case timer_fires
  have e: "ls_server y' = ls_server y" "ls_slot y' = ls_slot y" "ls_pipes y' = ls_pipes y"
    "ls_accepting y' = ls_accepting y" "lg_clients (ls_gen y') = lg_clients (ls_gen y)"
    "lg_metrics (ls_gen y') = lg_metrics (ls_gen y)"
    by (simp_all add: timer_fires on_timer_def)
  have "conn_ok E P y' j" if "j < unat n" for j
    by (rule conn_ok_other [of E P y]) (use inv that e in \<open>simp_all add: load_system_inv_def session_of_def split: option.split\<close>)
  moreover have "slots_ok y' = slots_ok y" "acceptor_ok y' = acceptor_ok y"
    by (rule slots_ok_same acceptor_ok_same; simp add: e)+
  moreover have "loadgen_inv n (ls_gen y')"
    using loadgen_inv_step [OF _ loadgen_step.timer_fires] inv timer_fires by (simp add: load_system_inv_def)
  moreover have "refused y' = refused y" "refused_failed y' = refused_failed y"
    by (simp_all add: refused_def refused_failed_def e)
  ultimately show ?thesis using inv e by (simp add: load_system_inv_def)
qed

interpretation load_life: transition_system "load_system_start cfg hw n" "load_system_step E sc P"
    "\<lambda>y. libm_bounded (plat_libm P) \<longrightarrow> weights_ok sc \<longrightarrow> load_system_inv E P cfg hw n y"
  for cfg :: server_config and hw :: u32 and n :: u32 and E :: endianness and sc :: scenario and P :: platform
  by unfold_locales (auto intro: load_system_inv_start load_system_inv_step)

lemma nth_update: "j < length xs \<Longrightarrow> xs[i := v] ! j = (if i = j then v else xs ! j)"
  by (cases "i < length xs") (simp_all add: nth_list_update)

lemma none_refused:
  assumes "reach (load_system_start cfg hw n) (load_system_step E sc P) y"
    and "libm_bounded (plat_libm P)" and "weights_ok sc" and lim: "unat n \<le> unat (cfg_max_connections cfg)"
  shows "accept_at (ls_server y) \<noteq> RejectSocket \<and> refused y = {}"
  using assms(1)
proof (induction rule: reach.induct)
  case (reach_start y)
  then show ?case
    by (auto simp: load_system_start_def refused_def do_accept_def)
next
  case (reach_step y e y')
  have inv: "load_system_inv E P cfg hw n y" using load_life.reach_inv [OF reach_step.hyps(1)] assms(2,3) by simp
  from reach_step.hyps(2) show ?case
  proof cases
    case (connection_taken i seen)
    with reach_step.IH show ?thesis by (simp add: accept_action_def refused_def)
  next
    case (acceptor_continues seen)
    with reach_step.IH not_rejected [OF inv lim _ acceptor_continues(5)] show ?thesis
      by (cases "accept_at (ls_server y)")
        (auto simp: acceptor_acts_def accept_action_def do_accept_def refused_def nth_update Let_def
          split: option.splits if_splits)
  next
    case timer_fires
    with reach_step.IH show ?thesis by (simp add: refused_def)
  qed (use reach_step.IH in simp_all)
qed

end
