(* ===== verification/Process.thy ===== *)
theory Process
  imports Prelude
begin

text \<open>
  How the two console programs end. The command line is parsed by Boost.Program_options, which gives
  an error, a request for help with the text to print, or the options; a program then runs an I/O context on several threads.
  An exception that leaves a handler leaves \<open>io_context::run\<close> on the thread that ran the handler.
\<close>

datatype 'o command_line = BadCommandLine string | HelpWanted string | CommandLine 'o

datatype run_end = RunReturns | HandlerThrows (on_started_thread: bool) (thrown: string)

text \<open>The exit status and what was written to \<open>std::cerr\<close>, or \<open>std::terminate\<close>.\<close>

datatype process_end = Returns int string | Terminated

text \<open>The handler at the end of both \<open>main\<close> functions.\<close>

abbreviation newline :: string where
  "newline \<equiv> [CHR 0x0A]"

definition fatal :: "string \<Rightarrow> process_end" where
  "fatal what = Returns 1 (''[Fatal] '' @ what @ newline)"

text \<open>
  The end of a run on \<open>n\<close> threads, the calling thread and \<open>n - 1\<close> started ones. On a started thread
  nothing catches the exception. On the calling thread it unwinds to \<open>main\<close>, past the vector of the
  started threads, whose destruction ends the process while one of them is joinable.
\<close>

definition after_run :: "nat \<Rightarrow> run_end \<Rightarrow> process_end" where
  "after_run n r =
     (case r of
        RunReturns \<Rightarrow> Returns 0 []
      | HandlerThrows started what \<Rightarrow> if started \<or> 1 < n then Terminated else fatal what)"

lemma after_run_simps [simp]:
  "after_run n RunReturns = Returns 0 []"
  "after_run n (HandlerThrows started what) = (if started \<or> 1 < n then Terminated else fatal what)"
  by (simp_all add: after_run_def)

end
