(* ===== verification/Metrics_Report.thy ===== *)
theory Metrics_Report
  imports Metrics Process
begin

text \<open>
  \<open>MetricsCollector::print\<close> of \<^verbatim>\<open>load_generator/src/metrics_collector.cpp\<close>: the table of results, with
  the stream's \<open>fixed\<close> format at precision 2 and cells of width 10, as the bytes that are written: the
  frame characters and the micro sign are in UTF-8. The mean of bounded samples is shown to be the
  correctly rounded quotient, and the columns that the lines take on a terminal are counted.
\<close>

section \<open>Stream output\<close>

text \<open>\<open>std::fixed << std::setprecision(2)\<close> on a double: the exact value rounded to hundredths.\<close>

definition fmt_fixed2 :: "double \<Rightarrow> string" where
  "fmt_fixed2 x =
     (let n = nat (rne (\<bar>x\<bar> * 100))
      in (if x < 0 then ''-'' else []) @ nat_str (n div 100)
         @ [CHR ''.'', digit_char (n div 10 mod 10), digit_char (n mod 10)])"

definition setw :: "nat \<Rightarrow> string \<Rightarrow> string" where
  "setw w s = replicate (w - length s) CHR '' '' @ s"

section \<open>The table\<close>

text \<open>The box characters U+2550 to U+256C, by their last byte in UTF-8.\<close>

definition box_char :: "char \<Rightarrow> string" where
  "box_char c = [CHR 0xE2, CHR 0x95, c]"

abbreviation side_bar :: string where
  "side_bar \<equiv> box_char CHR 0x91"

definition border :: "char \<Rightarrow> char \<Rightarrow> string" where
  "border l r = box_char l @ concat (replicate 42 (box_char CHR 0x90)) @ box_char r"

definition table_row :: "string \<Rightarrow> string \<Rightarrow> string \<Rightarrow> string" where
  "table_row label cell rest = side_bar @ label @ setw 10 cell @ rest @ side_bar"

definition title_line :: string where
  "title_line = side_bar @ ''         Load Generator Results           '' @ side_bar"

definition latency_line :: string where
  "latency_line =
     side_bar @ ''  Latency ('' @ [CHR 0xC2, CHR 0xB5] @ ''s)                            '' @ side_bar"

definition report_lines :: "double \<Rightarrow> metrics \<Rightarrow> string list" where
  "report_lines elapsed_seconds m =
     (let s = compute elapsed_seconds m
      in [border CHR 0x94 CHR 0x97,
          title_line,
          border CHR 0xA0 CHR 0xA3,
          table_row ''  Duration      : '' (fmt_fixed2 elapsed_seconds) '' s          '',
          table_row ''  Requests OK   : '' (nat_str (unat (st_count s))) ''            '',
          table_row ''  Errors        : '' (nat_str (unat (st_errors s))) ''            '',
          table_row ''  Throughput    : '' (fmt_fixed2 (rps s)) '' req/s      '',
          border CHR 0xA0 CHR 0xA3,
          latency_line,
          table_row ''    Min         : '' (fmt_fixed2 (min_us s)) ''            '',
          table_row ''    Mean        : '' (fmt_fixed2 (mean_us s)) ''            '',
          table_row ''    P50         : '' (fmt_fixed2 (p50_us s)) ''            '',
          table_row ''    P90         : '' (fmt_fixed2 (p90_us s)) ''            '',
          table_row ''    P99         : '' (fmt_fixed2 (p99_us s)) ''            '',
          table_row ''    Max         : '' (fmt_fixed2 (max_us s)) ''            '',
          border CHR 0x9A CHR 0x9D])"

definition print :: "double \<Rightarrow> metrics \<Rightarrow> string" where
  "print elapsed_seconds m = concat (map (\<lambda>l. l @ newline) (report_lines elapsed_seconds m))"

section \<open>The mean\<close>

text \<open>Summing in double precision is exact while the magnitudes add up to at most \<open>2 ^ 53\<close>.\<close>

lemma sum_exact:
  assumes "\<bar>a\<bar> + sum_list (map abs xs) \<le> 2 ^ 53"
  shows "foldl (\<lambda>acc v. rnd64 (acc + rnd64 (of_int v))) (of_int a) xs = of_int (a + sum_list xs)"
  using assms
proof (induction xs arbitrary: a)
  case (Cons x xs)
  have nn: "0 \<le> sum_list (map abs xs)" by (intro sum_list_nonneg) auto
  have "\<bar>a + x\<bar> + sum_list (map abs xs) \<le> 2 ^ 53" "\<bar>x\<bar> \<le> 2 ^ 53" "\<bar>a + x\<bar> \<le> 2 ^ 53"
    using Cons.prems nn by simp_all
  then show ?case
    using Cons.IH [of "a + x"] dbl.rnd_rep [OF dbl.rep_int [of x]] dbl.rnd_rep [OF dbl.rep_int [of "a + x"]]
    by (simp add: algebra_simps)
qed simp

lemma mean_exact:
  assumes "samples_us m \<noteq> []" and "sum_list (map abs (samples_us m)) \<le> 2 ^ 53"
    and "length (samples_us m) \<le> 2 ^ 53"
  shows "mean_us (compute t m) = rnd64 (of_int (sum_list (samples_us m)) / of_nat (length (samples_us m)))"
proof -
  have "mset (map abs (sort (samples_us m))) = mset (map abs (samples_us m))" by simp
  then have a: "sum_list (map abs (sort (samples_us m))) = sum_list (map abs (samples_us m))"
    by (metis sum_mset_sum_list)
  have s: "sum_list (sort (samples_us m)) = sum_list (samples_us m)"
    by (metis mset_sort sum_mset_sum_list)
  show ?thesis
    using sum_exact [of 0 "sort (samples_us m)"] assms a s
    by (simp add: compute_def dbl.rnd_nat Let_def)
qed

lemma sum_between:
  fixes xs :: "int list"
  assumes "xs \<noteq> []"
  shows "of_int (Min (set xs)) \<le> (of_int (sum_list xs) / of_nat (length xs) :: rat)"
    and "(of_int (sum_list xs) / of_nat (length xs) :: rat) \<le> of_int (Max (set xs))"
proof -
  have lo: "int (length xs) * a \<le> sum_list xs" if "\<forall>x \<in> set xs. a \<le> x" for a
    using that by (induction xs) (auto simp: algebra_simps)
  have hi: "sum_list xs \<le> int (length xs) * b" if "\<forall>x \<in> set xs. x \<le> b" for b
    using that by (induction xs) (auto simp: algebra_simps)
  have "(of_int (int (length xs) * Min (set xs)) :: rat) \<le> of_int (sum_list xs)"
    using lo [of "Min (set xs)"] by (intro of_int_le_iff [THEN iffD2]) simp
  then show "of_int (Min (set xs)) \<le> (of_int (sum_list xs) / of_nat (length xs) :: rat)"
    using assms by (simp add: field_simps)
  have "(of_int (sum_list xs) :: rat) \<le> of_int (int (length xs) * Max (set xs))"
    using hi [of "Max (set xs)"] by (intro of_int_le_iff [THEN iffD2]) simp
  then show "(of_int (sum_list xs) / of_nat (length xs) :: rat) \<le> of_int (Max (set xs))"
    using assms by (simp add: field_simps)
qed

section \<open>Columns\<close>

text \<open>A UTF-8 text takes one column for every byte that does not continue a character.\<close>

definition columns :: "string \<Rightarrow> nat" where
  "columns s = length (filter (\<lambda>c. \<not> (0x80 \<le> (of_char c :: nat) \<and> (of_char c :: nat) < 0xC0)) s)"

lemma columns_append: "columns (s @ t) = columns s + columns t"
  by (simp add: columns_def)

lemma columns_ascii: "\<forall>c \<in> set s. (of_char c :: nat) < 0x80 \<Longrightarrow> columns s = length s"
  unfolding columns_def by (subst filter_True) auto

lemma digit_char_ascii: "d < 10 \<Longrightarrow> (of_char (digit_char d) :: nat) < 0x80"
  by (simp add: of_char_digit_char)

lemma nat_str_ascii: "c \<in> set (nat_str n) \<Longrightarrow> (of_char c :: nat) < 0x80"
  using nat_str_digits [of n] by (auto simp: is_digit_def)

lemma fixed2_ascii: "c \<in> set (fmt_fixed2 x) \<Longrightarrow> (of_char c :: nat) < 0x80"
  by (auto simp: fmt_fixed2_def Let_def nat_str_ascii digit_char_ascii split: if_splits)

lemma columns_border: "columns (border CHR 0x94 CHR 0x97) = 44" "columns (border CHR 0xA0 CHR 0xA3) = 44"
  "columns (border CHR 0x9A CHR 0x9D) = 44"
  by code_simp+

lemma columns_headings:
  "columns title_line = 44"
  "columns latency_line = 44"
  by code_simp+

lemma columns_row:
  assumes "\<forall>c \<in> set cell. (of_char c :: nat) < 0x80" and "length cell \<le> 10"
  shows "columns (table_row label cell rest) = columns label + columns rest + 12"
proof -
  have "columns (setw 10 cell) = length (setw 10 cell)"
    using assms(1) by (intro columns_ascii) (auto simp: setw_def)
  moreover have "length (setw 10 cell) = 10" using assms(2) by (simp add: setw_def)
  moreover have "columns side_bar = 1" by (simp add: columns_def box_char_def)
  ultimately show ?thesis by (simp add: table_row_def columns_append)
qed

lemma fixed2_fits:
  assumes "0 \<le> x" and "x \<le> 9999999"
  shows "length (fmt_fixed2 x) \<le> 10"
proof -
  have "rne (\<bar>x\<bar> * 100) \<le> rne (of_int 999999900)"
    using assms by (intro rne_mono) simp
  then have "rne (\<bar>x\<bar> * 100) \<le> 999999900" by (simp only: rne_of_int)
  then have "nat (rne (\<bar>x\<bar> * 100)) div 100 < 10 ^ 7" by simp
  then have "length (nat_str (nat (rne (\<bar>x\<bar> * 100)) div 100)) \<le> 7" by (rule length_nat_str) simp
  then show ?thesis using assms by (simp add: fmt_fixed2_def Let_def)
qed

lemma columns_fixed2:
  "0 \<le> x \<and> x \<le> 9999999 \<Longrightarrow> columns (table_row label (fmt_fixed2 x) rest) = columns label + columns rest + 12"
  by (rule columns_row) (simp_all add: fixed2_ascii fixed2_fits)

lemma columns_count:
  "length (nat_str n) \<le> 10 \<Longrightarrow> columns (table_row label (nat_str n) rest) = columns label + columns rest + 12"
  by (rule columns_row) (simp_all add: nat_str_ascii)

lemma columns_texts:
  "columns ''  Duration      : '' = 18" "columns ''  Requests OK   : '' = 18" "columns ''  Errors        : '' = 18"
  "columns ''  Throughput    : '' = 18" "columns ''    Min         : '' = 18" "columns ''    Mean        : '' = 18"
  "columns ''    P50         : '' = 18" "columns ''    P90         : '' = 18" "columns ''    P99         : '' = 18"
  "columns ''    Max         : '' = 18" "columns '' s          '' = 12" "columns ''            '' = 12"
  "columns '' req/s      '' = 12"
  by code_simp+

text \<open>C29: When no latency reaches ten seconds, fewer than a hundred million requests succeeded, fewer than a
  thousand million failed, and time and throughput have at most seven digits before the point, every value fits its cell, so that every row of
  the printed table takes 42 columns, two less than the borders and the headings: the table has a
  ragged right edge. The printed mean is the true quotient, rounded once, between the minimum and the
  maximum, although the samples are summed in double precision.\<close>

theorem report_table:
  assumes "samples_us m \<noteq> []" and "\<forall>x \<in> set (samples_us m). 0 \<le> x \<and> x < 10 ^ 7"
    and "length (samples_us m) < 10 ^ 8" and "successes_ctr m = of_nat (length (samples_us m))"
    and "errors_ctr m < 10 ^ 9" and "0 < t" and "t \<le> 9999999" and "rps (compute t m) \<le> 9999999"
  shows "map columns (report_lines t m) = [44, 44, 44, 42, 42, 42, 42, 44, 44, 42, 42, 42, 42, 42, 42, 44]
     \<and> mean_us (compute t m) = rnd64 (of_int (sum_list (samples_us m)) / of_nat (length (samples_us m)))
     \<and> min_us (compute t m) \<le> mean_us (compute t m) \<and> mean_us (compute t m) \<le> max_us (compute t m)"
proof -
  let ?xs = "samples_us m" and ?s = "compute t m"
  have "sum_list (map abs xs) \<le> int (length xs) * 10 ^ 7" if "\<forall>x \<in> set xs. 0 \<le> x \<and> x < 10 ^ 7" for xs
    using that by (induction xs) (auto simp: algebra_simps)
  from this [OF assms(2)] have "sum_list (map abs ?xs) \<le> int (length ?xs) * 10 ^ 7" .
  then have "sum_list (map abs ?xs) \<le> 2 ^ 53" using assms(3) by simp
  with assms have mean: "mean_us ?s = rnd64 (of_int (sum_list ?xs) / of_nat (length ?xs))"
    by (intro mean_exact) simp_all
  have ends: "min_us ?s = rnd64 (of_int (Min (set ?xs)))" "max_us ?s = rnd64 (of_int (Max (set ?xs)))"
    using assms(1) by (simp_all add: compute_def hd_sort last_sort Let_def)
  have between: "min_us ?s \<le> mean_us ?s" "mean_us ?s \<le> max_us ?s"
    unfolding mean ends using sum_between [OF assms(1)] by (simp_all add: rnd64_mono)
  have "Min (set ?xs) \<in> set ?xs" "Max (set ?xs) \<in> set ?xs" using assms(1) by simp_all
  with assms(2) have mm: "0 \<le> Min (set ?xs)" "Max (set ?xs) \<le> 9999999" by auto
  have lo: "0 \<le> min_us ?s"
    unfolding ends using mm(1) by (intro dbl.rnd_nonneg) simp
  have hi: "max_us ?s \<le> 9999999"
    unfolding ends using mm(2) dbl.rep_int [of 9999999] by (intro dbl.rnd_le) simp_all
  have len: "length ?xs \<le> 2 ^ 53" using assms(3) by simp
  have p: "rnd64 (of_int (hd (sort ?xs))) \<le> percentile (sort ?xs) q"
    "percentile (sort ?xs) q \<le> rnd64 (of_int (last (sort ?xs)))" if "q \<le> 1" for q
    using percentile_bounds [OF assms(1) len that] by simp_all
  have q: "rnd64 (50 / 100) \<le> 1" "rnd64 (90 / 100) \<le> 1" "rnd64 (99 / 100) \<le> 1"
    using dbl.rep_nat [of 1] by (intro dbl.rnd_le; simp)+
  have pc: "min_us ?s \<le> p50_us ?s \<and> p50_us ?s \<le> max_us ?s \<and> min_us ?s \<le> p90_us ?s \<and> p90_us ?s \<le> max_us ?s
      \<and> min_us ?s \<le> p99_us ?s \<and> p99_us ?s \<le> max_us ?s"
    using p [OF q(1)] p [OF q(2)] p [OF q(3)] assms(1) by (simp add: compute_def Let_def)
  have "0 \<le> rnd64 (of_nat (unat (successes_ctr m)))"
    by (rule dbl.rnd_nonneg) (rule of_nat_0_le_iff)
  then have "0 \<le> rnd64 (rnd64 (of_nat (unat (successes_ctr m))) / t)"
    using assms(6) by (intro dbl.rnd_nonneg divide_nonneg_nonneg of_nat_0_le_iff) simp
  with assms(6) have rps: "0 \<le> rps ?s" "st_count ?s = successes_ctr m" "st_errors ?s = errors_ctr m"
    by (simp_all add: compute_def Let_def)
  have "unat (st_count ?s) < 10 ^ 10" "unat (st_errors ?s) < 10 ^ 10"
    using assms(3,4,5) rps(2,3) by (simp_all add: unat_of_nat word_less_nat_alt)
  then have counters: "length (nat_str (unat (st_count ?s))) \<le> 10" "length (nat_str (unat (st_errors ?s))) \<le> 10"
    by (auto intro: length_nat_str)
  have "\<forall>x \<in> {t, rps ?s, min_us ?s, mean_us ?s, p50_us ?s, p90_us ?s, p99_us ?s, max_us ?s}. 0 \<le> x \<and> x \<le> 9999999"
    using pc between lo hi assms(6-8) rps by auto
  then have "map columns (report_lines t m) = [44, 44, 44, 42, 42, 42, 42, 44, 44, 42, 42, 42, 42, 42, 42, 44]"
    using counters
    by (simp add: report_lines_def Let_def columns_border columns_headings columns_texts columns_fixed2 columns_count)
  with mean between show ?thesis by blast
qed

theorem report_table_witness:
  "let m = record_all [Success 300, Failure, Success 100, Success 200] new_metrics
   in map columns (report_lines 2 m) = [44, 44, 44, 42, 42, 42, 42, 44, 44, 42, 42, 42, 42, 42, 42, 44]
     \<and> mean_us (compute 2 m) = rnd64 (of_int (sum_list (samples_us m)) / of_nat (length (samples_us m)))
     \<and> min_us (compute 2 m) \<le> mean_us (compute 2 m) \<and> mean_us (compute 2 m) \<le> max_us (compute 2 m)"
  unfolding Let_def
proof (rule report_table)
  let ?m = "record_all [Success 300, Failure, Success 100, Success 200] new_metrics"
  have "rps (compute 2 ?m) \<le> rnd64 2"
    by (simp add: compute_def record_success_def record_error_def new_metrics_def Let_def rnd64_mono dbl.rnd_nat [of 3, simplified])
  also have "\<dots> \<le> 9999999" using dbl.rnd_nat [of 2] by simp
  finally show "rps (compute 2 ?m) \<le> 9999999" .
qed (auto simp: record_success_def record_error_def new_metrics_def)

end
