(* ===== verification/Load_Main.thy ===== *)
theory Load_Main
  imports Load_Generator Metrics_Report Process
begin

text \<open>
  \<open>main\<close> of \<^verbatim>\<open>load_generator/src/main.cpp\<close> around the run of \<open>Load_Generator\<close>: options, thread count,
  launch, start-up message, the end of the run and the printed table.
\<close>

record loadgen_options =
  opt_host :: string
  opt_port :: u16
  opt_clients :: u32
  opt_duration :: u32
  opt_threads :: u32
  opt_scenario :: scenario

definition default_loadgen_options :: loadgen_options where
  "default_loadgen_options =
     \<lparr>opt_host = ''127.0.0.1'', opt_port = 9000, opt_clients = 100, opt_duration = 10,
      opt_threads = 0, opt_scenario = default_scenario\<rparr>"

definition start_message :: "loadgen_options \<Rightarrow> u32 \<Rightarrow> string" where
  "start_message opts num_threads =
     ''Starting load generator:'' @ newline
     @ ''  Target  : '' @ opt_host opts @ '':'' @ nat_str (unat (opt_port opts)) @ newline
     @ ''  Clients : '' @ nat_str (unat (opt_clients opts)) @ newline
     @ ''  Duration: '' @ nat_str (unat (opt_duration opts)) @ '' s'' @ newline
     @ ''  Threads : '' @ nat_str (unat num_threads) @ newline"

text \<open>
  \<open>run\<close> is the run of the I/O context: from the launched clients to how it ends, the state it leaves
  and the time it took. The result is how the process ends and what it wrote; an exception skips the
  table.
\<close>

definition loadgen_main ::
  "loadgen_options command_line \<Rightarrow> u32 \<Rightarrow> (scenario \<Rightarrow> loadgen \<Rightarrow> run_end \<times> loadgen \<times> double)
   \<Rightarrow> process_end \<times> string" where
  "loadgen_main cl hardware_concurrency run =
     (case cl of
        BadCommandLine what \<Rightarrow> (fatal what, [])
      | HelpWanted desc \<Rightarrow> (Returns 0 [], desc @ newline)
      | CommandLine opts \<Rightarrow>
          (let num_threads = loadgen_threads (opt_threads opts) hardware_concurrency;
               (r, g, elapsed) = run (opt_scenario opts) (launch (opt_clients opts))
           in (after_run (unat num_threads) r,
               start_message opts num_threads
               @ (case r of RunReturns \<Rightarrow> print elapsed (lg_metrics g) | HandlerThrows started what \<Rightarrow> []))))"

text \<open>How the run of the context ends: by an exception when a handler of a client has thrown.\<close>

definition gen_ends :: "loadgen \<Rightarrow> bool \<Rightarrow> string \<Rightarrow> run_end" where
  "gen_ends g started what = (if list_ex aborted (lg_clients g) then HandlerThrows started what else RunReturns)"

text \<open>When the run of the load generator returns, with no work left and no handler having thrown, the
  program returns 0, every client has reported that it is done, and what it wrote is the start-up message
  and the table, whose rows give the number of recorded latencies as successes and at most one error
  per client.\<close>

theorem loadgen_report:
  assumes "run (opt_scenario opts) (launch (opt_clients opts)) = (RunReturns, g, t)"
    and "reach (loadgen_start (opt_clients opts)) (loadgen_step E (opt_scenario opts)) g"
    and "\<forall>c \<in> set (lg_clients g). pending_ops c = [] \<and> \<not> aborted c"
  shows "\<exists>n. loadgen_main (CommandLine opts) hw run =
       (Returns 0 [], start_message opts (loadgen_threads (opt_threads opts) hw) @ print t (lg_metrics g))
     \<and> lg_in_flight g = 0 \<and> n \<le> unat (opt_clients opts)
     \<and> table_row ''  Errors        : '' (nat_str n) ''            '' \<in> set (report_lines t (lg_metrics g))
     \<and> table_row ''  Requests OK   : '' (nat_str (length (samples_us (lg_metrics g)) mod 2 ^ 64)) ''            ''
         \<in> set (report_lines t (lg_metrics g))"
proof -
  have inv: "loadgen_inv (opt_clients opts) g" by (rule loadgen_life.reach_inv [OF assms(2)])
  then have ok: "\<forall>c \<in> set (lg_clients g). client_ok c" by (simp add: loadgen_inv_def)
  have "done_calls c = 1" if "c \<in> set (lg_clients g)" for c
    using ok assms(3) that by (auto simp: client_ok_def)
  then have "unfinished g = 0" by (simp add: unfinished_def filter_empty_conv)
  with inv have g: "lg_in_flight g = 0" "unat (errors_ctr (lg_metrics g)) \<le> unat (opt_clients opts)"
    "successes_ctr (lg_metrics g) = of_nat (length (samples_us (lg_metrics g)))"
    by (simp_all add: loadgen_inv_def unat_eq_0)
  have c: "st_count (compute t (lg_metrics g)) = successes_ctr (lg_metrics g)"
    "st_errors (compute t (lg_metrics g)) = errors_ctr (lg_metrics g)"
    by (simp_all add: compute_def Let_def)
  have "loadgen_main (CommandLine opts) hw run =
      (Returns 0 [], start_message opts (loadgen_threads (opt_threads opts) hw) @ print t (lg_metrics g))"
    by (simp add: loadgen_main_def assms(1))
  with g c show ?thesis
    by (intro exI [of _ "unat (errors_ctr (lg_metrics g))"]) (simp add: report_lines_def unat_of_nat Let_def)
qed

text \<open>One client whose resolver fails.\<close>

theorem loadgen_report_witness:
  "let opts = default_loadgen_options\<lparr>opt_clients := 1\<rparr>;
       c = finish ((start_client (make_client 0))\<lparr>pending_ops := []\<rparr>);
       g = \<lparr>lg_metrics = record_error new_metrics, lg_stop = False, lg_in_flight = 0, lg_clients = [c]\<rparr>
   in \<exists>n. loadgen_main (CommandLine opts) 4 (\<lambda>sc l. (RunReturns, g, 1)) =
       (Returns 0 [], start_message opts (loadgen_threads (opt_threads opts) 4) @ print 1 (lg_metrics g))
     \<and> lg_in_flight g = 0 \<and> n \<le> unat (opt_clients opts)
     \<and> table_row ''  Errors        : '' (nat_str n) ''            '' \<in> set (report_lines 1 (lg_metrics g))
     \<and> table_row ''  Requests OK   : '' (nat_str (length (samples_us (lg_metrics g)) mod 2 ^ 64)) ''            ''
         \<in> set (report_lines 1 (lg_metrics g))"
  unfolding Let_def
proof (rule loadgen_report [OF refl])
  let ?opts = "default_loadgen_options\<lparr>opt_clients := 1\<rparr>"
  let ?ci = "start_client (make_client 0)"
  let ?c = "finish (?ci\<lparr>pending_ops := []\<rparr>)"
  let ?g = "\<lparr>lg_metrics = record_error new_metrics, lg_stop = False, lg_in_flight = 0, lg_clients = [?c]\<rparr>"
  let ?env = "\<lparr>env_stop = False, t_done = 0, t_start = 0, nodelay_throws = False\<rparr>"
  have l: "lg_clients (launch 1) = [?ci]" "lg_metrics (launch 1) = new_metrics" by (simp_all add: launch_def)
  have p: "pending_ops ?ci = [] @ Resolving # []"
    by (simp add: start_client_def do_connect_def add_op_def make_client_def)
  have s: "client_step LittleEndian default_scenario (new_metrics, ?ci) ?env (record_error new_metrics, ?c)"
    using client_step.resolved [OF p, of LittleEndian default_scenario new_metrics ?env True]
    by (simp add: on_resolved_def fail_def)
  have "loadgen_step LittleEndian default_scenario (launch 1) (Some 0) ?g"
    using loadgen_step.client_runs [of 0 "launch 1" ?env LittleEndian default_scenario "record_error new_metrics" ?c] s l
    by (simp add: launch_def on_client_done_def finish_def start_client_def do_connect_def add_op_def make_client_def)
  then show "reach (loadgen_start (opt_clients ?opts)) (loadgen_step LittleEndian (opt_scenario ?opts)) ?g"
    by (intro reach_step [OF reach_start]) (simp_all add: loadgen_start_def default_loadgen_options_def)
qed (simp add: finish_def start_client_def do_connect_def add_op_def make_client_def)

end
