(* ===== verification/Server_Main.thy ===== *)
theory Server_Main
  imports Server Process
begin

text \<open>
  \<open>main\<close> of \<^verbatim>\<open>server/src/main.cpp\<close>, with the messages of \<open>run\<close> in \<^verbatim>\<open>server/src/server.cpp\<close>. The
  registration of the services is in \<open>Server_Services\<close>; the result is how the process ends and what it
  puts into \<open>std::cout\<close>. What the parser returns, the error of binding the address, how \<open>run\<close> ends and
  the server's state when it does are chosen by the environment.
\<close>

definition listening_message :: "server_config \<Rightarrow> u32 \<Rightarrow> string" where
  "listening_message config n =
     ''[Server] Listening on '' @ address config @ '':'' @ nat_str (unat (port config)) @
     '' with '' @ nat_str (unat n) @ '' I/O thread(s)'' @ newline"

definition stopped_message :: "'w server \<Rightarrow> string" where
  "stopped_message v =
     ''[Server] Stopped. Served '' @ nat_str (unat (total_connections v)) @ '' connections, '' @
     nat_str (unat (total_requests v)) @ '' requests.'' @ newline"

definition run_output :: "server_config \<Rightarrow> u32 \<Rightarrow> run_end \<Rightarrow> 'w server \<Rightarrow> string" where
  "run_output config n r v =
     listening_message config n @ (case r of RunReturns \<Rightarrow> stopped_message v | HandlerThrows _ _ \<Rightarrow> [])"

definition server_main ::
  "server_config command_line \<Rightarrow> u32 \<Rightarrow> 'w \<Rightarrow> string option \<Rightarrow> run_end \<Rightarrow> 'w server \<Rightarrow> process_end \<times> string" where
  "server_main cl hardware_concurrency w bind_error r v =
     (case cl of
        BadCommandLine what \<Rightarrow> (fatal what, [])
      | HelpWanted desc \<Rightarrow> (Returns 0 [], desc @ newline)
      | CommandLine config \<Rightarrow>
          (case bind_error of
             Some what \<Rightarrow> (fatal what, [])
           | None \<Rightarrow>
               (let made = make_server config hardware_concurrency w
                in (after_run (io_threads made) r, run_output config (thread_count made) r v))))"

text \<open>
  How \<open>run\<close> ends: when a handler has thrown, the exception leaves \<open>io_context::run\<close> on the thread the
  handler ran on, a started one or the calling one; otherwise \<open>run\<close> returns when the server is stopped.
  Memory exhaustion aside only the accept handler can throw: a session's handlers catch or use error codes.
\<close>

definition run_ends :: "'w server \<Rightarrow> bool \<Rightarrow> string \<Rightarrow> run_end" where
  "run_ends v started what = (if accept_at v = HandlerThrew then HandlerThrows started what else RunReturns)"

text \<open>After the exception nothing moves the accept handler, and no session is added.\<close>

lemma threw_step:
  assumes "accept_at v = HandlerThrew" and "server_step E disp v e v'"
  shows "accept_at v' = HandlerThrew \<and> length (sessions v') = length (sessions v)"
  using assms(2,1) by cases (auto simp: accept_action_def stop_server_def on_session_close_funpow)

lemma threw_steps:
  assumes "(\<lambda>a b. \<exists>e. server_step E disp a e b)\<^sup>*\<^sup>* v v'" and "accept_at v = HandlerThrew"
    and "reach S (server_step E disp) v"
  shows "accept_at v' = HandlerThrew \<and> length (sessions v') = length (sessions v) \<and> reach S (server_step E disp) v'"
  using assms
proof (induction rule: rtranclp_induct)
  case (step v' v'')
  then obtain e where st: "server_step E disp v' e v''" by blast
  from step.IH [OF step.prems] threw_step [OF _ st] reach_step [of S "server_step E disp" v' e v''] st
  show ?case by auto
qed simp

text \<open>C37: When setting \<open>TCP_NODELAY\<close> on one accepted connection throws, the server is lost, whatever
  happens after that: the accept handler never runs again and no session is made; the connection stays
  counted, one above the open sessions and one above the sessions ever made, with nobody to give the
  count back; and when the run ends, by this exception, \<open>main\<close> does not return 0: the process is
  terminated, with every session, unless the server runs on one thread only, in which case \<open>main\<close>
  reports the exception and returns 1.\<close>

theorem nodelay_error_ends_server:
  assumes "reach (server_start cfg hw w) (server_step E disp) v" and "accept_at v = SetNoDelay"
    and "\<not> stopped v" and "env_throws env" and "active_connections v \<le> env_seen env"
    and "(\<lambda>a b. \<exists>e. server_step E disp a e b)\<^sup>*\<^sup>* (accept_action env v) v'"
  shows "length (sessions v') = length (sessions v)
     \<and> unat (active_connections v') = length (open_sessions v') + 1
     \<and> total_connections v' = of_nat (length (sessions v') + 1)
     \<and> fst (server_main (CommandLine cfg) hw w None (run_ends v' started what) v') =
         (if \<not> started \<and> io_threads v' = 1 then fatal what else Terminated)"
proof -
  let ?v = "accept_action env v"
  have "accept_at ?v = HandlerThrew" and len: "length (sessions ?v) = length (sessions v)"
    using assms(2,4) by (simp_all add: accept_action_def)
  moreover have "reach (server_start cfg hw w) (server_step E disp) ?v"
    by (rule reach_accept [OF assms(1,3,5)])
  ultimately have v': "accept_at v' = HandlerThrew" "length (sessions v') = length (sessions v)"
    "reach (server_start cfg hw w) (server_step E disp) v'"
    using threw_steps [OF assms(6)] by simp_all
  have inv: "server_inv cfg hw v'" by (rule server_life.reach_inv [OF v'(3)])
  then have "thread_count v' = thread_count (make_server cfg hw w)"
    by (simp add: server_inv_def make_server_def)
  then have n: "io_threads v' = io_threads (make_server cfg hw w)" by (simp add: io_threads_def)
  have "1 \<le> io_threads v'" by (simp add: io_threads_def)
  with n inv v' show ?thesis
    by (auto simp: server_main_def run_ends_def server_inv_def Let_def)
qed

theorem nodelay_error_ends_server_witness:
  "let v' = stop_server (accept_action (AcceptEnv True False 1 True) (sample_run 4 True))
   in length (sessions v') = length (sessions (sample_run 4 True))
     \<and> unat (active_connections v') = length (open_sessions v') + 1
     \<and> total_connections v' = of_nat (length (sessions v') + 1)
     \<and> fst (server_main (CommandLine default_server_config) 4 (0 :: nat) None (run_ends v' False ''reset'') v') =
         (if \<not> False \<and> io_threads v' = 1 then fatal ''reset'' else Terminated)"
  unfolding Let_def
proof (rule nodelay_error_ends_server)
  show "reach (server_start default_server_config 4 0) (server_step LittleEndian (\<lambda>w m. (m, w)))
      (sample_run 4 True)"
    by (rule reach_sample_run) code_simp
  show "accept_at (sample_run 4 True) = SetNoDelay" "\<not> stopped (sample_run 4 True)"
    "active_connections (sample_run 4 True) \<le> env_seen (AcceptEnv True False 1 True)"
    by code_simp+
  show "env_throws (AcceptEnv True False 1 True)" by simp
  show "(\<lambda>a b. \<exists>e. server_step LittleEndian (\<lambda>w m. (m, w)) a e b)\<^sup>*\<^sup>*
      (accept_action (AcceptEnv True False 1 True) (sample_run 4 True))
      (stop_server (accept_action (AcceptEnv True False 1 True) (sample_run 4 True)))"
    by (rule r_into_rtranclp) (blast intro: stop_one)
qed

text \<open>C38: When the server has been stopped and the accept handler is at rest, its last message tells how
  many connections were admitted, one per session ever created, and always 0 requests, however many
  were served: nothing counts them. The first message names the address and the number of threads,
  which is never 0.\<close>

theorem shutdown_report:
  assumes "reach (server_start cfg hw w) (server_step E disp) v" and "accept_at v = AwaitAccept"
    and "length (sessions v) < 2 ^ 64"
  shows "server_main (CommandLine cfg) hw w None RunReturns v =
     (Returns 0 [],
      ''[Server] Listening on '' @ address cfg @ '':'' @ nat_str (unat (port cfg)) @ '' with '' @
        nat_str (io_threads v) @ '' I/O thread(s)'' @ newline @
      ''[Server] Stopped. Served '' @ nat_str (length (sessions v)) @ '' connections, 0 requests.'' @ newline)
   \<and> 0 < io_threads v"
proof -
  have inv: "server_inv cfg hw v" by (rule server_life.reach_inv [OF assms(1)])
  then have t: "thread_count v = resolve_threads (cfg_threads cfg) hw" by (simp add: server_inv_def)
  then have n: "io_threads v = unat (resolve_threads (cfg_threads cfg) hw)"
    using io_threads_eq [of v] by (simp add: resolve_threads_pos)
  have "total_connections v = of_nat (length (sessions v))"
    using inv assms(2) by (simp add: server_inv_def)
  then have c: "unat (total_connections v) = length (sessions v)"
    using assms(3) by (simp add: unsigned_of_nat take_bit_nat_eq_self)
  have z: "total_requests v = 0" by (rule requests_never_counted [OF assms(1)])
  have "nat_str 0 = ''0''" by code_simp
  then show ?thesis
    by (simp add: server_main_def run_output_def listening_message_def stopped_message_def make_server_def n c z
        unat_gt_0 resolve_threads_pos)
qed

theorem shutdown_report_witness:
  "let v = stop_server (sample_run 8 False)
   in server_main (CommandLine default_server_config) 4 (0 :: nat) None RunReturns v =
     (Returns 0 [],
      ''[Server] Listening on '' @ address default_server_config @ '':'' @
        nat_str (unat (port default_server_config)) @ '' with '' @
        nat_str (io_threads v) @ '' I/O thread(s)'' @ newline @
      ''[Server] Stopped. Served '' @ nat_str (length (sessions v)) @ '' connections, 0 requests.'' @ newline)
   \<and> 0 < io_threads v"
  unfolding Let_def
proof (rule shutdown_report)
  have "reach (server_start default_server_config 4 0) (server_step LittleEndian (\<lambda>w m. (m, w)))
      (sample_run 8 False)"
    by (rule reach_sample_run) code_simp
  from reach_step [OF this stop_one]
  show "reach (server_start default_server_config 4 0) (server_step LittleEndian (\<lambda>w m. (m, w)))
      (stop_server (sample_run 8 False))" .
  show "accept_at (stop_server (sample_run 8 False)) = AwaitAccept"
    by code_simp
  have "length (sessions (stop_server (sample_run 8 False))) = 1"
    by code_simp
  then show "length (sessions (stop_server (sample_run 8 False))) < 2 ^ 64" by simp
qed

end
