(* ===== verification/Load_System_Run.thy ===== *)
theory Load_System_Run
  imports Load_System Load_Main Server_Main
begin

text \<open>
  What the load test of \<open>Load_System\<close> does as a whole: both programs take only steps of their own
  relations, nothing ever blocks, after the stop timer the test comes to rest, and what both programs
  then print.
\<close>

section \<open>The two programs, seen alone\<close>

lemma acceptor_step:
  assumes "\<not> stopped v" and "active_connections v \<le> seen"
  shows "server_step E disp v AcceptAction (accept_action (AcceptEnv True False seen False) v)"
  using accept_one [OF assms(1), of "AcceptEnv True False seen False"] assms(2) by simp

lemma acceptor_acts_sel [simp]:
  "ls_server (acceptor_acts env y) = accept_action env (ls_server y)" "ls_gen (acceptor_acts env y) = ls_gen y"
  "ls_pipes (acceptor_acts env y) = ls_pipes y"
  by (simp_all add: acceptor_acts_def Let_def split: accept_pc.split option.split)

lemma load_system_step_parts:
  assumes inv: "load_system_inv E P cfg hw n y" and step: "load_system_step E sc P y e y'"
  shows "(ls_server y' = ls_server y \<or> (\<exists>f. server_step E (dispatch (server_router P)) (ls_server y) f (ls_server y')))
     \<and> (ls_gen y' = ls_gen y \<or> (\<exists>f. loadgen_step E sc (ls_gen y) f (ls_gen y')))"
proof -
  note sz = load_system_inv_sizes [OF inv]
  have so: "slots_ok y" and ns: "\<not> stopped (ls_server y)"
    using inv by (simp_all add: load_system_inv_def acceptor_ok_def)
  from step show ?thesis
  proof cases
    case (client_turns i env l)
    have "client_step E sc (lg_metrics (ls_gen y), lg_clients (ls_gen y) ! i) env (lk_metrics l, lk_client l)"
      using client_turn_step [OF client_turns(6)] by simp
    from loadgen_step.client_runs [OF client_turns(3,4) this] client_turns(2)
    show ?thesis by (auto simp: put_gen_def Let_def)
  next
    case (refused_turns i env ec mc)
    have "client_step E sc (lg_metrics (ls_gen y), lg_clients (ls_gen y) ! i) env (fst mc, snd mc)"
      using refused_turn_step [OF refused_turns(6)] by simp
    from loadgen_step.client_runs [OF refused_turns(3,4) this] refused_turns(2)
    show ?thesis by (auto simp: put_gen_def Let_def)
  next
    case (session_turns i k l)
    have "alive (lk_session (link_of y i))"
      using inv session_turns(3,4) sz by (auto simp: load_system_inv_def conn_ok_def link_inv_def conn_def)
    from session_turn_step [OF session_turns(5) this] obtain f where f: "f \<noteq> ContextDestroyed" and
      st: "session_step E (dispatch (server_router P)) (proc (ls_server y), sessions (ls_server y) ! k) f (lk_world l, lk_session l)"
      using session_turns(4) by (auto simp: session_of_def)
    from session_one [OF _ slot_session(1) [OF so session_turns(3,4)] st] ns f session_turns(2)
    show ?thesis by (auto simp: put_session_def Let_def)
  next
    case (connection_taken i seen)
    from acceptor_step [OF ns connection_taken(7)] connection_taken(2) show ?thesis by auto
  next
    case (acceptor_continues seen)
    from acceptor_step [OF ns acceptor_continues(4)] acceptor_continues(2) show ?thesis by auto
  next
    case timer_fires
    then show ?thesis by (auto intro: loadgen_step.timer_fires)
  qed simp
qed

text \<open>So everything proved of the server and of the load generator holds in the test.\<close>

lemma load_system_parts:
  assumes "reach (load_system_start cfg hw n) (load_system_step E sc P) y"
    and "libm_bounded (plat_libm P)" and "weights_ok sc"
  shows "(\<exists>w. reach (server_start cfg hw w) (server_step E (dispatch (server_router P))) (ls_server y))
     \<and> reach (loadgen_start n) (loadgen_step E sc) (ls_gen y)"
  using assms(1)
proof (induction rule: reach.induct)
  case (reach_start y)
  then obtain w where v: "ls_server y = do_accept (make_server cfg hw w)" and g: "ls_gen y = launch n"
    by (auto simp: load_system_start_def)
  have "reach (server_start cfg hw w) (server_step E (dispatch (server_router P))) (ls_server y)"
    unfolding v
  proof (rule reach.reach_step)
    show "reach (server_start cfg hw w) (server_step E (dispatch (server_router P))) (make_server cfg hw w)"
      by (rule reach.reach_start) (simp add: server_start_def)
  qed (rule run_called, simp add: make_server_def)
  moreover have "reach (loadgen_start n) (loadgen_step E sc) (ls_gen y)"
    by (rule reach.reach_start) (simp add: g loadgen_start_def)
  ultimately show ?case by blast
next
  case (reach_step y e y')
  have "load_system_inv E P cfg hw n y" using load_life.reach_inv [OF reach_step.hyps(1)] assms by simp
  from load_system_step_parts [OF this reach_step.hyps(2)] reach_step.IH show ?case
    by (metis reach.reach_step)
qed

section \<open>Nothing blocks\<close>

definition all_at_rest :: "load_system \<Rightarrow> bool" where
  "all_at_rest y \<longleftrightarrow>
     (\<forall>i < length (lg_clients (ls_gen y)).
        if ls_slot y ! i = TurnedAway then pending_ops (lg_clients (ls_gen y) ! i) = [] else at_rest (link_of y i))
     \<and> accept_at (ls_server y) = AwaitAccept"

text \<open>A step that is not the timer's and, if it is a client's, goes with the given environment.\<close>

fun works_with :: "client_env \<Rightarrow> load_event \<Rightarrow> bool" where
  "works_with env (ClientTurn i env') \<longleftrightarrow> env' = env"
| "works_with env (RefusedTurn i env') \<longleftrightarrow> env' = env"
| "works_with env TimerFires = False"
| "works_with env _ = True"

lemma active_le_total:
  assumes "load_system_inv E P cfg hw n y"
  shows "active_connections (ls_server y) \<le> total_connections (ls_server y)"
proof -
  let ?v = "ls_server y"
  have sv: "server_inv cfg hw ?v" and so: "slots_ok y" using assms by (simp_all add: load_system_inv_def)
  have "length (sessions ?v) \<le> unat n"
    using sessions_le(1) [OF so] load_system_inv_sizes(1) [OF assms] by simp
  moreover have "unat n < 2 ^ 32" using unsigned_less [of n, where ?'a = nat] by simp
  moreover have "in_flight (accept_at ?v) \<le> 1" by (cases "accept_at ?v") simp_all
  ultimately have small: "length (sessions ?v) + in_flight (accept_at ?v) + 1 < 2 ^ 64" by simp
  let ?t = "length (sessions ?v) + in_flight (accept_at ?v) + (if accept_at ?v = CountActive then 1 else 0)"
  have "unat (active_connections ?v) \<le> length (sessions ?v) + in_flight (accept_at ?v)"
    using sv by (simp add: server_inv_def open_sessions_def)
  moreover have "unat (of_nat ?t :: u64) = ?t"
    using small unfolding unat_of_nat by (intro mod_less) auto
  then have "unat (total_connections ?v) = ?t"
    using sv unfolding server_inv_def by metis
  ultimately show ?thesis by (simp add: word_le_nat_alt)
qed

lemma refused_turn_runs:
  assumes "refused_ok c" and "pending_ops c \<noteq> []" and "\<not> nodelay_throws env"
  shows "\<exists>mc. refused_turn E sc env ec (m, c) = Some mc"
proof -
  have "client_ok c" "\<not> aborted c" using assms(1) by (simp_all add: refused_ok_def)
  from link_phase_cases [OF this] assms(2) obtain op where "pending_ops c = [op]" by auto
  with assms show ?thesis by (auto simp: refused_ok_def refused_turn_def Let_def)
qed

lemma load_system_progress:
  assumes inv: "load_system_inv E P cfg hw n y" and busy: "\<not> all_at_rest y"
    and env: "env_stop env \<Longrightarrow> lg_stop (ls_gen y)" "\<not> nodelay_throws env"
  shows "\<exists>e y'. works_with env e \<and> load_system_step E sc P y e y'"
proof (cases "accept_at (ls_server y) = AwaitAccept")
  case False
  then have "handling (accept_at (ls_server y)) \<or> accept_at (ls_server y) = Rearm"
    using inv by (auto simp: load_system_inv_def acceptor_ok_def)
  from acceptor_continues [OF this order_refl active_le_total [OF inv], of E sc P] show ?thesis
    by (intro exI [of _ AcceptorActs]) auto
next
  case at: True
  note sz = load_system_inv_sizes [OF inv]
  from busy at obtain i where i: "i < unat n"
    and b: "\<not> (if ls_slot y ! i = TurnedAway then pending_ops (lg_clients (ls_gen y) ! i) = [] else at_rest (link_of y i))"
    using sz by (auto simp: all_at_rest_def)
  have ci: "conn_ok E P y i" using inv i by (simp add: load_system_inv_def)
  show ?thesis
  proof (cases "ls_slot y ! i = TurnedAway")
    case True
    have "refused_ok (lg_clients (ls_gen y) ! i)" using ci True by (simp add: conn_ok_def)
    then obtain mc where "refused_turn E sc env False (lg_metrics (ls_gen y), lg_clients (ls_gen y) ! i) = Some mc"
      using refused_turn_runs [of "lg_clients (ls_gen y) ! i" env E sc False "lg_metrics (ls_gen y)"] True b env(2)
      by auto
    from refused_turns [OF _ env(1) True this] i sz show ?thesis by (intro exI [of _ "RefusedTurn i env"]) auto
  next
    case False
    with ci have li: "link_inv E P (conn y i)" by (simp add: conn_ok_def)
    have lk: "link_of y i = (conn y i)\<lparr>lk_metrics := lg_metrics (ls_gen y)\<rparr>" by (simp add: conn_def link_of_def Let_def)
    have "\<not> at_rest (conn y i)" using b False by (simp add: at_rest_def conn_def up_total_def down_total_def)
    from link_progress [OF li this env(2), of sc] obtain f l where
      f: "f \<in> {ClientRuns env, SessionRuns, Delivered}" and l: "link_step E sc P (conn y i) f l" by blast
    have cl: ?thesis if "\<exists>l. client_turn E sc env (link_of y i) = Some l"
    proof -
      from that obtain l where "client_turn E sc env (link_of y i) = Some l" by blast
      from client_turns [OF _ env(1) False this] i sz show ?thesis by (intro exI [of _ "ClientTurn i env"]) auto
    qed
    have delivered: "link_step E sc P (link_of y i) Delivered (l\<lparr>lk_metrics := lg_metrics (ls_gen y)\<rparr>)" if "f = Delivered"
      unfolding lk by (rule delivered_metrics [OF l [unfolded that]])
    from l show ?thesis
    proof cases
      case (client_runs env')
      with f client_turn_metrics [of E sc env "conn y i"] cl show ?thesis unfolding lk by auto
    next
      case session_runs
      then obtain x where st: "session_turn E P (link_of y i) = Some x" using session_turn_metrics unfolding lk by blast
      show ?thesis
      proof (cases "ls_slot y ! i")
        case (Served k)
        from session_turns [OF _ this st] i sz show ?thesis by (intro exI [of _ "SessionTurn i"]) auto
      next
        case Waiting
        show ?thesis
        proof (cases "pending_ops (lg_clients (ls_gen y) ! i) = [Resolving]")
          case True
          then have "\<exists>l. client_turn E sc env (link_of y i) = Some l" by (simp add: client_turn_def Let_def)
          with cl show ?thesis by blast
        next
          case False
          from connection_taken [OF at _ Waiting False order_refl] i sz show ?thesis
            by (intro exI [of _ "ConnectionTaken i"]) auto
        qed
      qed (use False in simp)
    next
      case others_run
      with f show ?thesis by simp
    next
      case (up_delivered xs ys)
      from in_transit [OF _ False delivered [OF up_delivered(1)]] i sz show ?thesis
        by (intro exI [of _ "InTransit i"]) auto
    next
      case (down_delivered xs ys)
      from in_transit [OF _ False delivered [OF down_delivered(1)]] i sz show ?thesis
        by (intro exI [of _ "InTransit i"]) auto
    qed
  qed
qed

section \<open>After the stop timer\<close>

text \<open>
  The work of the acceptor: a round of at most eight actions per client whose connection waits; the
  total is that and the work on every connection.
\<close>

fun acceptor_work :: "accept_pc \<Rightarrow> nat" where
  "acceptor_work Rearm = 8"
| "acceptor_work AwaitAccept = 7"
| "acceptor_work CheckLimit = 6"
| "acceptor_work CountTotal = 5"
| "acceptor_work CountActive = 4"
| "acceptor_work SetNoDelay = 3"
| "acceptor_work TakeId = 2"
| "acceptor_work (StartSession sid) = 1"
| "acceptor_work RejectSocket = 1"
| "acceptor_work _ = 0"

definition waiting :: "load_system \<Rightarrow> nat set" where
  "waiting y = {i. i < length (ls_slot y) \<and> ls_slot y ! i = Waiting}"

definition conn_work :: "load_system \<Rightarrow> nat \<Rightarrow> nat" where
  "conn_work y i =
     (if ls_slot y ! i = TurnedAway then client_work (lg_clients (ls_gen y) ! i) else link_work (link_of y i))"

definition load_work :: "load_system \<Rightarrow> nat" where
  "load_work y =
     (\<Sum>i < length (lg_clients (ls_gen y)). conn_work y i) + 8 * card (waiting y)
     + acceptor_work (accept_at (ls_server y))"

fun stop_seen :: "load_event \<Rightarrow> bool" where
  "stop_seen (ClientTurn i env) = env_stop env"
| "stop_seen (RefusedTurn i env) = env_stop env"
| "stop_seen e = True"

inductive stopping_run ::
  "endianness \<Rightarrow> scenario \<Rightarrow> platform \<Rightarrow> nat \<Rightarrow> load_system \<Rightarrow> load_system \<Rightarrow> bool"
  for E :: endianness and sc :: scenario and P :: platform
where
  stopping_none: "lg_stop (ls_gen y) \<Longrightarrow> stopping_run E sc P 0 y y"
| stopping_more:
    "stopping_run E sc P k y z \<Longrightarrow> load_system_step E sc P z e z' \<Longrightarrow> stop_seen e \<Longrightarrow>
     stopping_run E sc P (Suc k) y z'"

lemma link_work_shared [simp]:
  "link_work (l\<lparr>lk_metrics := m\<rparr>) = link_work l" "link_work (l\<lparr>lk_world := w\<rparr>) = link_work l"
  by (simp_all add: link_work_def up_total_def)

lemma sum_one_less:
  fixes f g :: "nat \<Rightarrow> nat"
  assumes "i < n" and "f i < g i" and "\<And>j. j < n \<Longrightarrow> j \<noteq> i \<Longrightarrow> f j = g j"
  shows "(\<Sum>j < n. f j) < (\<Sum>j < n. g j)"
proof (rule sum_strict_mono_ex1)
  show "\<forall>j \<in> {..<n}. f j \<le> g j" using assms by (metis lessThan_iff less_imp_le order_refl)
qed (use assms in auto)

lemma link_work_cong:
  "lk_client l' = lk_client l \<Longrightarrow> outstanding (lk_session l') = outstanding (lk_session l) \<Longrightarrow>
   lk_up l' = lk_up l \<Longrightarrow> lk_up_out l' = lk_up_out l \<Longrightarrow> lk_down_out l' = lk_down_out l \<Longrightarrow> link_work l' = link_work l"
  by (simp add: link_work_def session_load_def up_total_def)

lemma conn_work_other:
  assumes "ls_slot y' ! j = ls_slot y ! j" and "lg_clients (ls_gen y') ! j = lg_clients (ls_gen y) ! j"
    and "ls_pipes y' ! j = ls_pipes y ! j" and "session_of y' j = session_of y j"
  shows "conn_work y' j = conn_work y j"
proof -
  have "link_work (link_of y' j) = link_work (link_of y j)"
    by (rule link_work_cong) (simp_all add: assms link_of_def Let_def)
  then show ?thesis using assms by (simp add: conn_work_def)
qed

text \<open>A step of one connection lowers the work if it lowers that connection's.\<close>

lemma load_work_conn:
  assumes "i < length (lg_clients (ls_gen y))" and "conn_work y' i < conn_work y i"
    and "\<And>j. j \<noteq> i \<Longrightarrow> j < length (lg_clients (ls_gen y)) \<Longrightarrow>
      lg_clients (ls_gen y') ! j = lg_clients (ls_gen y) ! j \<and> ls_pipes y' ! j = ls_pipes y ! j
      \<and> session_of y' j = session_of y j"
    and "length (lg_clients (ls_gen y')) = length (lg_clients (ls_gen y))"
    and "ls_slot y' = ls_slot y" and "accept_at (ls_server y') = accept_at (ls_server y)"
  shows "load_work y' < load_work y"
proof -
  have "(\<Sum>j < length (lg_clients (ls_gen y)). conn_work y' j)
      < (\<Sum>j < length (lg_clients (ls_gen y)). conn_work y j)"
  proof (rule sum_one_less [OF assms(1)], rule assms(2))
    fix j assume "j < length (lg_clients (ls_gen y))" "j \<noteq> i"
    with assms(3) show "conn_work y' j = conn_work y j" by (intro conn_work_other) (simp_all add: assms(5))
  qed
  then show ?thesis by (simp add: load_work_def waiting_def assms(4-6))
qed

lemma load_work_acceptor:
  assumes "\<forall>sid. accept_at (ls_server y) \<noteq> StartSession sid"
    and y': "y' = y\<lparr>ls_server := accept_action env (ls_server y), ls_accepting := a\<rparr>"
    and "acceptor_work (accept_at (ls_server y')) < acceptor_work (accept_at (ls_server y))"
  shows "load_work y' < load_work y"
proof -
  have "conn_work y' j = conn_work y j" for j
    by (rule conn_work_other)
      (simp_all add: y' session_of_def accept_action_keeps(3) [OF assms(1)] split: option.split)
  then show ?thesis using assms(3) by (simp add: load_work_def waiting_def) (simp add: y')
qed

text \<open>The acceptor is done with the connection of client \<open>i\<close>.\<close>

lemma load_work_decided:
  assumes i: "i < length (ls_slot y)" "ls_slot y ! i = Waiting"
    and y': "ls_slot y' = (ls_slot y)[i := t]" "t \<noteq> Waiting" "ls_gen y' = ls_gen y" "accept_at (ls_server y') = Rearm"
    and at: "acceptor_work (accept_at (ls_server y)) = 1"
    and le: "\<And>j. j < length (lg_clients (ls_gen y)) \<Longrightarrow> conn_work y' j \<le> conn_work y j"
  shows "load_work y' < load_work y"
proof -
  have "waiting y = insert i (waiting y')" "i \<notin> waiting y'"
    using i y'(2) by (auto simp: waiting_def y'(1) nth_update split: if_splits)
  moreover have "finite (waiting y')" by (simp add: waiting_def)
  ultimately have "card (waiting y) = Suc (card (waiting y'))" by simp
  moreover have "(\<Sum>j < length (lg_clients (ls_gen y)). conn_work y' j)
      \<le> (\<Sum>j < length (lg_clients (ls_gen y)). conn_work y j)"
    by (rule sum_mono) (use le in simp)
  ultimately show ?thesis using at by (simp add: load_work_def y'(3,4))
qed

lemma session_start_work:
  assumes inv: "load_system_inv E P cfg hw n y" and at: "accept_at (ls_server y) = StartSession sid"
  shows "load_work (acceptor_acts env y) < load_work y"
proof -
  have so: "slots_ok y" using inv by (simp add: load_system_inv_def)
  note sz = load_system_inv_sizes [OF inv]
  from inv at obtain i where i: "ls_accepting y = Some i" "i < length (ls_slot y)" "ls_slot y ! i = Waiting"
    by (auto simp: load_system_inv_def acceptor_ok_def)
  let ?v = "ls_server y" and ?y' = "acceptor_acts env y"
  have v': "accept_action env ?v = ?v\<lparr>sessions := sessions ?v @ [start (make_session sid)], accept_at := Rearm\<rparr>"
    using at by (simp add: accept_action_def)
  have y': "?y' = y\<lparr>ls_server := accept_action env ?v,
      ls_slot := (ls_slot y)[i := Served (length (sessions ?v))], ls_accepting := None\<rparr>"
    using at i by (simp add: acceptor_acts_def Let_def)
  have "conn_work ?y' j = conn_work y j" if j: "j < unat n" for j
  proof (cases "j = i")
    case True
    have "link_work (link_of ?y' i) = link_work (link_of y i)"
      by (rule link_work_cong)
        (simp_all add: i link_of_def session_of_def y' v' start_def do_read_header_def make_session_def Let_def)
    with True i show ?thesis by (simp add: conn_work_def y')
  next
    case False
    have "session_of ?y' j = session_of y j"
      using False slot_session(1) [OF so, of j] j sz
      by (auto simp: y' v' session_of_def nth_append split: option.split)
    from conn_work_other [OF _ _ _ this] False show ?thesis by (simp add: y')
  qed
  with i at sz show ?thesis by (intro load_work_decided [OF i(2,3), of _ "Served (length (sessions ?v))"]) (simp_all add: y' v')
qed

lemma refuse_work:
  assumes inv: "load_system_inv E P cfg hw n y" and at: "accept_at (ls_server y) = RejectSocket"
  shows "load_work (acceptor_acts env y) < load_work y"
proof -
  note sz = load_system_inv_sizes [OF inv]
  from inv at obtain i where i: "ls_accepting y = Some i" "i < length (ls_slot y)" "ls_slot y ! i = Waiting"
    by (auto simp: load_system_inv_def acceptor_ok_def)
  let ?v = "ls_server y" and ?y' = "acceptor_acts env y"
  have v': "accept_action env ?v = ?v\<lparr>accept_at := Rearm\<rparr>" using at by (simp add: accept_action_def)
  have y': "?y' = y\<lparr>ls_server := accept_action env ?v, ls_slot := (ls_slot y)[i := TurnedAway], ls_accepting := None\<rparr>"
    using at i by (simp add: acceptor_acts_def Let_def)
  have "conn_work ?y' j \<le> conn_work y j" for j
  proof (cases "j = i")
    case True
    with i show ?thesis by (simp add: conn_work_def y' link_work_def)
  next
    case False
    have "session_of ?y' j = session_of y j" using False by (simp add: y' v' session_of_def split: option.split)
    from conn_work_other [OF _ _ _ this] False show ?thesis by (simp add: y')
  qed
  with i at sz show ?thesis by (intro load_work_decided [OF i(2,3), of _ TurnedAway]) (simp_all add: y' v')
qed

lemma load_step_work:
  assumes inv: "load_system_inv E P cfg hw n y" and step: "load_system_step E sc P y e y'"
    and seen: "stop_seen e" "lg_stop (ls_gen y)"
  shows "load_work y' < load_work y \<and> lg_stop (ls_gen y')"
proof -
  note sz = load_system_inv_sizes [OF inv]
  have so: "slots_ok y" using inv by (simp add: load_system_inv_def)
  have li: "link_inv E P (conn y j)" if "j < unat n" "ls_slot y ! j \<noteq> TurnedAway" for j
    using inv that by (simp add: load_system_inv_def conn_ok_def)
  from step show ?thesis
  proof cases
    case (client_turns i env l)
    with seen have "link_work l < link_work (link_of y i)" by (intro client_turn_work) simp_all
    moreover have "link_of y' i = l"
      using link_of_put_client [of i y l i] client_turns(2,3) client_turn_keeps [OF client_turns(6)] sz by simp
    ultimately have "load_work y' < load_work y"
      using client_turns(2,3,5) sz
      by (intro load_work_conn [of i]) (simp_all add: conn_work_def)
    with seen client_turns(2) show ?thesis by simp
  next
    case (refused_turns i env ec mc)
    have "client_step E sc (lg_metrics (ls_gen y), lg_clients (ls_gen y) ! i) env (fst mc, snd mc)"
      using refused_turn_step [OF refused_turns(6)] by simp
    from client_step_progress [OF this] seen refused_turns(1)
    have "client_work (snd mc) < client_work (lg_clients (ls_gen y) ! i)" by simp
    then have "load_work y' < load_work y"
      using refused_turns(2,3,5) sz
      by (intro load_work_conn [of i]) (simp_all add: conn_work_def)
    with seen refused_turns(2) show ?thesis by simp
  next
    case (session_turns i k l)
    have "link_work (l\<lparr>lk_metrics := new_metrics\<rparr>) < link_work (conn y i)"
      by (rule session_turn_work [OF li])
        (use session_turns(3,4) sz session_turn_metrics [OF session_turns(5)] in \<open>simp_all add: conn_def\<close>)
    then have "link_work l < link_work (link_of y i)" by (simp add: conn_def)
    moreover have "link_of y' i = l"
      using link_of_put_session [of i y k l i] session_turns(2-4) session_turn_keeps [OF session_turns(5)] sz
        slot_session(1) [OF so session_turns(3,4)] by simp
    moreover have "session_of y' j = session_of y j" if j: "j < unat n" "j \<noteq> i" for j
    proof -
      have "ls_slot y ! j \<noteq> Served k" using slot_session(2) [OF so session_turns(3,4), of j] j sz by auto
      then show ?thesis by (auto simp: session_of_def session_turns(2) split: option.split)
    qed
    ultimately have "load_work y' < load_work y"
      using session_turns(2-4) sz
      by (intro load_work_conn [of i]) (simp_all add: conn_work_def)
    with seen session_turns(2) show ?thesis by simp
  next
    case (in_transit i l)
    have "link_work (l\<lparr>lk_metrics := new_metrics\<rparr>) < link_work (conn y i)"
      using link_step_work [OF li delivered_metrics [OF in_transit(5), of new_metrics, folded conn_def]] in_transit(3,4) sz
      by simp
    then have "link_work l < link_work (link_of y i)" by (simp add: conn_def)
    moreover have "link_of y' i = l"
      using link_of_put_pipe [of i y l i] in_transit(2,3) delivered_keeps [OF in_transit(5)] sz by simp
    ultimately have "load_work y' < load_work y"
      using in_transit(2-4) sz
      by (intro load_work_conn [of i]) (simp_all add: conn_work_def)
    with seen in_transit(2) show ?thesis by simp
  next
    case (connection_taken i seen)
    have "load_work y' < load_work y"
      by (rule load_work_acceptor [OF _ connection_taken(2)])
        (use connection_taken(3) in \<open>simp_all add: connection_taken(2) accept_action_def\<close>)
    with seen connection_taken show ?thesis by simp
  next
    case (acceptor_continues s)
    let ?env = "AcceptEnv True False s False"
    consider (session) sid where "accept_at (ls_server y) = StartSession sid" | (refuse) "accept_at (ls_server y) = RejectSocket"
      | (other) "\<forall>sid. accept_at (ls_server y) \<noteq> StartSession sid" "accept_at (ls_server y) \<noteq> RejectSocket"
      by blast
    then have "load_work y' < load_work y"
    proof cases
      case session
      with session_start_work [OF inv] acceptor_continues(2) show ?thesis by blast
    next
      case refuse
      with refuse_work [OF inv] acceptor_continues(2) show ?thesis by blast
    next
      case other
      then have y': "y' = y\<lparr>ls_server := accept_action ?env (ls_server y), ls_accepting := ls_accepting y\<rparr>"
        by (simp add: acceptor_continues(2) acceptor_acts_def Let_def split: accept_pc.split)
      show ?thesis
        by (rule load_work_acceptor [OF other(1) y'])
          (use other acceptor_continues(3) in \<open>auto simp: y' accept_action_def do_accept_def split: accept_pc.split\<close>)
    qed
    with seen acceptor_continues show ?thesis by simp
  qed (use seen in simp)
qed

lemma stopping_run_work:
  assumes L: "libm_bounded (plat_libm P)" and ok: "weights_ok sc"
    and run: "stopping_run E sc P k y z" and inv: "load_system_inv E P cfg hw n y"
  shows "load_system_inv E P cfg hw n z \<and> lg_stop (ls_gen z) \<and> load_work z + k \<le> load_work y"
  using run inv
proof (induction rule: stopping_run.induct)
  case (stopping_more k y z e z')
  then have "load_system_inv E P cfg hw n z" "lg_stop (ls_gen z)" "load_work z + k \<le> load_work y" by auto
  with load_step_work [OF this(1) stopping_more.hyps(2,3)] load_system_inv_step [OF L ok _ stopping_more.hyps(2)]
  show ?case by auto
qed simp

text \<open>A run in which every load sees the flag can always be carried on to the end.\<close>

definition stop_env :: client_env where
  "stop_env = \<lparr>env_stop = True, t_done = 0, t_start = 0, nodelay_throws = False\<rparr>"

lemma stop_env_works: "works_with stop_env e \<Longrightarrow> stop_seen e"
  by (cases e) (simp_all add: stop_env_def)

lemma stopping_run_extends:
  assumes inv: "load_system_inv E P cfg hw n z" and stop: "lg_stop (ls_gen z)" and busy: "\<not> all_at_rest z"
  shows "\<exists>e z'. stop_seen e \<and> load_system_step E sc P z e z'"
proof -
  have "\<not> nodelay_throws stop_env" by (simp add: stop_env_def)
  from load_system_progress [OF inv busy stop this] stop_env_works show ?thesis by blast
qed

lemma stopping_run_completes:
  assumes L: "libm_bounded (plat_libm P)" and ok: "weights_ok sc"
    and inv: "load_system_inv E P cfg hw n y" and stop: "lg_stop (ls_gen y)"
  shows "\<exists>k z. stopping_run E sc P k y z \<and> all_at_rest z"
proof -
  have "\<exists>k z. stopping_run E sc P k y z \<and> all_at_rest z" if "stopping_run E sc P j y x" for j x
    using that
  proof (induction "load_work x" arbitrary: j x rule: less_induct)
    case less
    note w = stopping_run_work [OF L ok less.prems inv]
    show ?case
    proof (cases "all_at_rest x")
      case True
      with less.prems show ?thesis by blast
    next
      case False
      with w obtain e x' where e: "stop_seen e" "load_system_step E sc P x e x'"
        using stopping_run_extends by blast
      with load_step_work [OF _ e(2)] w have "load_work x' < load_work x" by blast
      from less.hyps [OF this stopping_more [OF less.prems e(2,1)]] show ?thesis .
    qed
  qed
  from this [OF stopping_none [OF stop]] show ?thesis .
qed

lemma stopping_run_reach:
  "stopping_run E sc P k y z \<Longrightarrow> reach S (load_system_step E sc P) y \<Longrightarrow> reach S (load_system_step E sc P) z"
  by (induction rule: stopping_run.induct) (auto intro: reach.reach_step)

section \<open>The state at rest\<close>

lemma rest_state:
  assumes inv: "load_system_inv E P cfg hw n y" and rest: "all_at_rest y"
  shows "lg_in_flight (ls_gen y) = 0"
    and "\<forall>c \<in> set (lg_clients (ls_gen y)). pending_ops c = [] \<and> done_calls c = 1 \<and> \<not> aborted c"
    and "unat (total_connections (ls_server y)) + card (refused y) = unat n"
    and "active_connections (ls_server y) = 0"
    and "\<forall>s \<in> set (sessions (ls_server y)). session.closed s \<and> on_close_calls s = 1"
proof -
  let ?v = "ls_server y" and ?g = "ls_gen y"
  note sz = load_system_inv_sizes [OF inv]
  have so: "slots_ok y" and sv: "server_inv cfg hw ?v" and lg: "loadgen_inv n ?g"
    using inv by (simp_all add: load_system_inv_def)
  have at: "accept_at ?v = AwaitAccept" using rest by (simp add: all_at_rest_def)
  have ci: "conn_ok E P y i" if "i < unat n" for i using inv that by (simp add: load_system_inv_def)
  have r: "if ls_slot y ! i = TurnedAway then pending_ops (lg_clients ?g ! i) = [] else at_rest (link_of y i)"
    if "i < unat n" for i
    using rest that sz by (simp add: all_at_rest_def)
  have "pending_ops (lg_clients ?g ! i) = [] \<and> done_calls (lg_clients ?g ! i) = 1 \<and> \<not> aborted (lg_clients ?g ! i)"
    if i: "i < unat n" for i
  proof (cases "ls_slot y ! i = TurnedAway")
    case True
    with r [OF i] ci [OF i] have "pending_ops (lg_clients ?g ! i) = []" "client_ok (lg_clients ?g ! i)"
      "\<not> aborted (lg_clients ?g ! i)"
      by (simp_all add: conn_ok_def refused_ok_def)
    with link_phase_cases [OF this(2,3)] show ?thesis by auto
  next
    case False
    with r [OF i] ci [OF i] show ?thesis by (simp add: at_rest_def conn_ok_def conn_def link_inv_def)
  qed
  then show c: "\<forall>c \<in> set (lg_clients ?g). pending_ops c = [] \<and> done_calls c = 1 \<and> \<not> aborted c"
    using sz by (auto simp: in_set_conv_nth)
  then have "unfinished ?g = 0" by (simp add: unfinished_def filter_empty_conv)
  with lg show "lg_in_flight ?g = 0" by (simp add: loadgen_inv_def unat_eq_0)
  let ?S = "{i. i < length (ls_slot y) \<and> session_no (ls_slot y ! i) \<noteq> None}"
  have "ls_slot y ! i \<noteq> Waiting" if i: "i < unat n" for i
    using r [OF i]
    by (auto simp: at_rest_def session_of_def start_def do_read_header_def make_session_def)
  then have "?S \<union> refused y = {0..<unat n}" "?S \<inter> refused y = {}"
    using sz by (auto simp: refused_def) (metis session_no.cases)
  then have "card ?S + card (refused y) = unat n"
    using card_Un_disjoint [of ?S "refused y"] by (simp add: finite_refused)
  moreover have len: "length (sessions ?v) = card ?S" by (rule sessions_count [OF so])
  moreover have "unat n < 2 ^ 32" using unsigned_less [of n, where ?'a = nat] by simp
  ultimately have "unat (of_nat (length (sessions ?v)) :: u64) + card (refused y) = unat n"
    unfolding unat_of_nat by simp
  moreover have "total_connections ?v = of_nat (length (sessions ?v))" using sv at by (simp add: server_inv_def)
  ultimately show "unat (total_connections ?v) + card (refused y) = unat n" by metis
  have cl: "session.closed s" if s: "s \<in> set (sessions ?v)" for s
  proof -
    from s obtain k where k: "k < length (sessions ?v)" "s = sessions ?v ! k" by (auto simp: in_set_conv_nth)
    from session_slot [OF so k(1)] obtain i where "i < unat n" "ls_slot y ! i = Served k" using sz by auto
    with r [of i] k(2) show ?thesis by (simp add: at_rest_def session_of_def)
  qed
  have "\<forall>s \<in> set (sessions ?v). session_inv (proc ?v, s)" using sv by (simp add: server_inv_def)
  with cl show "\<forall>s \<in> set (sessions ?v). session.closed s \<and> on_close_calls s = 1"
    by (auto simp: session_inv_def Let_def)
  have "open_sessions ?v = []" using cl by (simp add: open_sessions_def filter_empty_conv)
  then show "active_connections ?v = 0" using sv at by (simp add: server_inv_def unat_eq_0)
qed

lemma errors_exact:
  "load_system_inv E P cfg hw n y \<Longrightarrow> unat (errors_ctr (lg_metrics (ls_gen y))) = card (refused_failed y)"
  by (simp add: load_system_inv_def)

lemma no_errors_within_limit:
  assumes "load_system_inv E P cfg hw n y" and "refused y = {}"
  shows "errors_ctr (lg_metrics (ls_gen y)) = 0"
  using errors_exact [OF assms(1)] by (simp add: assms(2) refused_failed_def unat_eq_0)

lemma sessions_refused_le:
  assumes "slots_ok y"
  shows "length (sessions (ls_server y)) + card (refused y) \<le> length (lg_clients (ls_gen y))"
proof -
  let ?S = "{i. i < length (ls_slot y) \<and> session_no (ls_slot y ! i) \<noteq> None}"
  have "card ?S + card (refused y) = card (?S \<union> refused y)"
    by (rule card_Un_disjoint [symmetric]) (auto simp: refused_def)
  also have "\<dots> \<le> card {0..<length (ls_slot y)}" by (rule card_mono) (auto simp: refused_def)
  finally show ?thesis using sessions_count [OF assms] slots_ok_length(2) [OF assms] by simp
qed

text \<open>A test of three clients, on a server that admits them all and on one that admits two, for the examples.\<close>

definition three_clients :: "server_config \<Rightarrow> load_system" where
  "three_clients cfg =
     \<lparr>ls_server = do_accept (make_server cfg 4 (initial_world 31536000)), ls_gen = launch 3,
      ls_pipes = replicate 3 \<lparr>pp_up = [], pp_up_out = [], pp_down = [], pp_down_out = []\<rparr>,
      ls_slot = replicate 3 Waiting, ls_accepting = None\<rparr>"

definition three_stopped :: "server_config \<Rightarrow> load_system" where
  "three_stopped cfg = (three_clients cfg)\<lparr>ls_gen := on_timer (launch 3)\<rparr>"

definition small_config :: server_config where
  "small_config = default_server_config\<lparr>cfg_max_connections := 2\<rparr>"

lemma three_clients_limit: "unat (3 :: u32) \<le> unat (cfg_max_connections default_server_config)"
  by (simp add: default_server_config_def)

lemma three_stopped_reach: "reach (load_system_start cfg 4 3) (load_system_step E sc P) (three_stopped cfg)"
proof -
  have st: "load_system_start cfg 4 3 (three_clients cfg)"
    unfolding load_system_start_def
    by (intro exI [of _ "initial_world 31536000"]) (simp add: three_clients_def world_ok_def initial_world_def)
  have r: "reach (load_system_start cfg 4 3) (load_system_step E sc P) (three_clients cfg)"
    by (rule reach_start) (rule st)
  have "load_system_step E sc P (three_clients cfg) TimerFires ((three_clients cfg)\<lparr>ls_gen := on_timer (ls_gen (three_clients cfg))\<rparr>)"
    by (rule timer_fires) (simp add: three_clients_def launch_def)
  then have "load_system_step E sc P (three_clients cfg) TimerFires (three_stopped cfg)"
    by (simp add: three_stopped_def three_clients_def)
  from reach_step [OF r this] show ?thesis .
qed

lemma three_stopped_facts:
  "lg_stop (ls_gen (three_stopped cfg))" "\<not> all_at_rest (three_stopped cfg)"
proof -
  show "lg_stop (ls_gen (three_stopped cfg))" by (simp add: three_stopped_def on_timer_def)
  have "lg_clients (ls_gen (three_stopped cfg)) ! 0 = start_client (make_client 0)"
    "length (lg_clients (ls_gen (three_stopped cfg))) = 3" "ls_slot (three_stopped cfg) ! 0 = Waiting"
    by (simp_all add: three_stopped_def three_clients_def on_timer_def launch_def)
  then show "\<not> all_at_rest (three_stopped cfg)"
    by (auto simp: all_at_rest_def at_rest_def start_client_def do_connect_def add_op_def make_client_def
        intro!: exI [of _ 0])
qed

lemma three_completes:
  "\<exists>k z. stopping_run LittleEndian default_scenario quiet_platform k (three_stopped cfg) z \<and> all_at_rest z"
proof (rule stopping_run_completes)
  show "load_system_inv LittleEndian quiet_platform cfg 4 3 (three_stopped cfg)"
    using load_life.reach_inv [OF three_stopped_reach] first_link_ok(2,3) by blast
qed (rule first_link_ok three_stopped_facts)+

section \<open>Properties\<close>

text \<open>C4: The whole load test, any number of clients against one server on a host of the same byte order,
  under every interleaving of the handlers of all clients, of all sessions and of the acceptor, and
  however bytes are cut in transit: there is exactly one error for each client that was turned away at the
  limit, had sent a request and has reported, and no other; nobody is turned away while the limit admits
  all clients; the in-flight counter is the number of clients that have not reported; and until
  everything is at rest some handler or delivery can run. Assumed is a network that does not fail: names
  resolve, connections are made and accepted, setting \<open>TCP_NODELAY\<close> does not throw, and bytes arrive.\<close>

theorem load_test_accounting:
  assumes "reach (load_system_start cfg hw n) (load_system_step E sc P) y"
    and "weights_ok sc" and "libm_bounded (plat_libm P)"
  shows "unat (errors_ctr (lg_metrics (ls_gen y))) = card (refused_failed y)
     \<and> (unat n \<le> unat (cfg_max_connections cfg) \<longrightarrow> refused y = {})
     \<and> length (sessions (ls_server y)) + card (refused y) \<le> unat n
     \<and> successes_ctr (lg_metrics (ls_gen y)) = of_nat (length (samples_us (lg_metrics (ls_gen y))))
     \<and> unat (lg_in_flight (ls_gen y)) = unfinished (ls_gen y)
     \<and> (all_at_rest y
        \<or> (\<forall>env. (env_stop env \<longrightarrow> lg_stop (ls_gen y)) \<and> \<not> nodelay_throws env \<longrightarrow>
             (\<exists>e y'. works_with env e \<and> load_system_step E sc P y e y')))"
proof -
  have inv: "load_system_inv E P cfg hw n y" using load_life.reach_inv [OF assms(1)] assms(2,3) by simp
  note sz = load_system_inv_sizes [OF inv]
  have so: "slots_ok y" using inv by (simp add: load_system_inv_def)
  have "all_at_rest y
      \<or> (\<forall>env. (env_stop env \<longrightarrow> lg_stop (ls_gen y)) \<and> \<not> nodelay_throws env \<longrightarrow>
           (\<exists>e y'. works_with env e \<and> load_system_step E sc P y e y'))"
    using load_system_progress [OF inv, where sc = sc] by blast
  moreover have "unat n \<le> unat (cfg_max_connections cfg) \<longrightarrow> refused y = {}"
    using none_refused [OF assms(1,3,2)] by blast
  moreover have "successes_ctr (lg_metrics (ls_gen y)) = of_nat (length (samples_us (lg_metrics (ls_gen y))))
     \<and> unat (lg_in_flight (ls_gen y)) = unfinished (ls_gen y)"
    using inv by (simp add: load_system_inv_def loadgen_inv_def)
  ultimately show ?thesis
    using errors_exact [OF inv] sessions_refused_le [OF so] sz(1) by simp
qed

theorem load_test_accounting_witness:
  "refused (three_stopped default_server_config) = {} \<and> lg_stop (ls_gen (three_stopped default_server_config))
   \<and> (\<exists>e y'. works_with stop_env e
        \<and> load_system_step LittleEndian default_scenario quiet_platform (three_stopped default_server_config) e y')"
proof -
  let ?y = "three_stopped default_server_config"
  note t = load_test_accounting [OF three_stopped_reach first_link_ok(2,3), of default_server_config LittleEndian]
  have "refused ?y = {}" using t three_clients_limit by blast
  moreover have "\<not> nodelay_throws stop_env" by (simp add: stop_env_def)
  then have "\<exists>e y'. works_with stop_env e \<and> load_system_step LittleEndian default_scenario quiet_platform ?y e y'"
    using t three_stopped_facts by blast
  ultimately show ?thesis using three_stopped_facts(1) by blast
qed

text \<open>C5: Once the timer has set the flag and every load sees it, the whole test comes to rest: at most
  \<open>load_work\<close> further steps of clients, sessions, acceptor and network are possible, and when none is,
  every client has reported once that it is done, every client's connection was either served, by one
  session, or turned away, every session has closed and told its owner once, the counters of clients
  in flight and of active connections are 0, and the errors are those of the clients that were turned
  away after they had sent a request.\<close>

theorem load_test_comes_to_rest:
  assumes "reach (load_system_start cfg hw n) (load_system_step E sc P) y"
    and "weights_ok sc" and "libm_bounded (plat_libm P)"
    and "stopping_run E sc P k y z"
  shows "k \<le> load_work y
     \<and> (if all_at_rest z then
          lg_in_flight (ls_gen z) = 0
          \<and> unat (errors_ctr (lg_metrics (ls_gen z))) = card {i \<in> refused z. sent (lg_clients (ls_gen z) ! i)}
          \<and> (\<forall>c \<in> set (lg_clients (ls_gen z)). done_calls c = 1)
          \<and> unat (total_connections (ls_server z)) + card (refused z) = unat n
          \<and> active_connections (ls_server z) = 0
          \<and> (\<forall>s \<in> set (sessions (ls_server z)). session.closed s \<and> on_close_calls s = 1)
        else \<exists>e z'. stop_seen e \<and> load_system_step E sc P z e z')"
proof -
  have inv: "load_system_inv E P cfg hw n y" using load_life.reach_inv [OF assms(1)] assms(2,3) by simp
  note run = stopping_run_work [OF assms(3,2,4) inv]
  then have z: "load_system_inv E P cfg hw n z" "lg_stop (ls_gen z)" "k \<le> load_work y" by auto
  have "refused_failed z = {i \<in> refused z. sent (lg_clients (ls_gen z) ! i)}" if "all_at_rest z"
    using rest_state(2) [OF z(1) that] load_system_inv_sizes [OF z(1)]
    by (auto simp: refused_failed_def refused_def all_set_conv_all_nth)
  with z rest_state [OF z(1)] errors_exact [OF z(1)] stopping_run_extends [OF z(1,2)] show ?thesis by auto
qed

theorem load_test_comes_to_rest_witness:
  "\<exists>k z. stopping_run LittleEndian default_scenario quiet_platform k (three_stopped small_config) z \<and> all_at_rest z
     \<and> k \<le> load_work (three_stopped small_config) \<and> lg_in_flight (ls_gen z) = 0
     \<and> unat (total_connections (ls_server z)) + card (refused z) = 3 \<and> active_connections (ls_server z) = 0"
proof -
  from three_completes obtain k z where
    "stopping_run LittleEndian default_scenario quiet_platform k (three_stopped small_config) z" "all_at_rest z" by blast
  with load_test_comes_to_rest [OF three_stopped_reach first_link_ok(2,3) this(1)] show ?thesis
    by (intro exI [of _ k] exI [of _ z]) simp
qed

text \<open>No handler has thrown: the network of the test does not fail.\<close>

lemma runs_return:
  assumes "load_system_inv E P cfg hw n y"
  shows "gen_ends (ls_gen y) started what = RunReturns" and "run_ends (stop_server (ls_server y)) started what = RunReturns"
proof -
  note sz = load_system_inv_sizes [OF assms]
  have "\<not> aborted (lg_clients (ls_gen y) ! i)" if "i < unat n" for i
    using assms that by (cases "ls_slot y ! i = TurnedAway")
      (auto simp: load_system_inv_def conn_ok_def refused_ok_def link_inv_def conn_def)
  then have "\<forall>c \<in> set (lg_clients (ls_gen y)). \<not> aborted c" using sz by (auto simp: in_set_conv_nth)
  then show "gen_ends (ls_gen y) started what = RunReturns" by (auto simp: gen_ends_def list_ex_iff)
  have "accept_at (ls_server y) \<noteq> HandlerThrew" using assms by (auto simp: load_system_inv_def acceptor_ok_def)
  then show "run_ends (stop_server (ls_server y)) started what = RunReturns" by (simp add: run_ends_def stop_server_def)
qed

text \<open>C30: What both programs print about the same test, over a network that does not fail, when the server's
  limit admits every client and the whole test has come to rest: every client has been accepted and has
  reported, and neither a client nor a session nor the acceptor has anything left to do but wait. The
  load generator's \<open>main\<close> then returns 0, and its table shows 0 errors and as many successful requests
  as latencies were recorded; the server, stopped after that, says that it served one connection per
  client and 0 requests, however many there were, and its \<open>main\<close> returns 0 too.\<close>

theorem load_test_report:
  assumes "reach (load_system_start cfg hw (opt_clients opts)) (load_system_step E (opt_scenario opts) P) y"
    and "weights_ok (opt_scenario opts)" and "libm_bounded (plat_libm P)"
    and "unat (opt_clients opts) \<le> unat (cfg_max_connections cfg)" and "all_at_rest y"
    and "run (opt_scenario opts) (launch (opt_clients opts)) = (gen_ends (ls_gen y) started what, ls_gen y, t)"
  shows "loadgen_main (CommandLine opts) cores run =
       (Returns 0 [], start_message opts (loadgen_threads (opt_threads opts) cores) @ print t (lg_metrics (ls_gen y)))
     \<and> table_row ''  Errors        : '' ''0'' ''            '' \<in> set (report_lines t (lg_metrics (ls_gen y)))
     \<and> table_row ''  Requests OK   : '' (nat_str (length (samples_us (lg_metrics (ls_gen y))) mod 2 ^ 64)) ''            ''
         \<in> set (report_lines t (lg_metrics (ls_gen y)))
     \<and> server_main (CommandLine cfg) hw w None (run_ends (stop_server (ls_server y)) started' what') (stop_server (ls_server y)) =
         (Returns 0 [],
          listening_message cfg (resolve_threads (cfg_threads cfg) hw) @
          ''[Server] Stopped. Served '' @ nat_str (unat (opt_clients opts)) @ '' connections, 0 requests.'' @ newline)"
proof -
  let ?g = "ls_gen y" and ?v = "ls_server y"
  have inv: "load_system_inv E P cfg hw (opt_clients opts) y"
    using load_life.reach_inv [OF assms(1)] assms(2,3) by simp
  have nr: "refused y = {}" using none_refused [OF assms(1,3,2,4)] by blast
  have m: "errors_ctr (lg_metrics ?g) = 0" by (rule no_errors_within_limit [OF inv nr])
  have sr: "successes_ctr (lg_metrics ?g) = of_nat (length (samples_us (lg_metrics ?g)))" and r: "total_requests ?v = 0"
    using inv by (simp_all add: load_system_inv_def loadgen_inv_def server_inv_def)
  have c: "st_count (compute t (lg_metrics ?g)) = successes_ctr (lg_metrics ?g)"
    "st_errors (compute t (lg_metrics ?g)) = errors_ctr (lg_metrics ?g)"
    by (simp_all add: compute_def Let_def)
  have z: "nat_str 0 = ''0''" by code_simp
  have t: "unat (total_connections ?v) = unat (opt_clients opts)" using rest_state(3) [OF inv assms(5)] nr by simp
  have "server_main (CommandLine cfg) hw w None (run_ends (stop_server ?v) started' what') (stop_server ?v) =
      (Returns 0 [], listening_message cfg (resolve_threads (cfg_threads cfg) hw) @ stopped_message (stop_server ?v))"
    by (simp add: server_main_def run_output_def make_server_def runs_return(2) [OF inv] Let_def)
  moreover have "stopped_message (stop_server ?v) =
      ''[Server] Stopped. Served '' @ nat_str (unat (opt_clients opts)) @ '' connections, 0 requests.'' @ newline"
    by (simp add: stopped_message_def stop_server_def t r z)
  ultimately show ?thesis
    using m sr c z
    by (simp add: loadgen_main_def assms(6) runs_return(1) [OF inv] report_lines_def unat_of_nat Let_def)
qed

theorem load_test_report_witness:
  "\<exists>y. all_at_rest y
     \<and> table_row ''  Errors        : '' ''0'' ''            '' \<in> set (report_lines 1 (lg_metrics (ls_gen y)))
     \<and> server_main (CommandLine default_server_config) 4 (initial_world 0) None
         (run_ends (stop_server (ls_server y)) False []) (stop_server (ls_server y)) =
         (Returns 0 [],
          listening_message default_server_config 4 @
          ''[Server] Stopped. Served '' @ nat_str 3 @ '' connections, 0 requests.'' @ newline)"
proof -
  let ?opts = "default_loadgen_options\<lparr>opt_clients := 3\<rparr>" and ?cfg = default_server_config
  have o: "opt_scenario ?opts = default_scenario" "opt_clients ?opts = 3"
    by (simp_all add: default_loadgen_options_def)
  from three_completes obtain k z where
    z: "stopping_run LittleEndian default_scenario quiet_platform k (three_stopped ?cfg) z" "all_at_rest z" by blast
  have "reach (load_system_start ?cfg 4 3) (load_system_step LittleEndian default_scenario quiet_platform) z"
    by (rule stopping_run_reach [OF z(1) three_stopped_reach])
  from load_test_report [of ?cfg 4 ?opts, unfolded o,
      OF this first_link_ok(2,3) three_clients_limit z(2), of "\<lambda>sc l. (gen_ends (ls_gen z) False [], ls_gen z, 1)" False "[]" 1
      4 "initial_world 0" False "[]"]
  have "table_row ''  Errors        : '' ''0'' ''            '' \<in> set (report_lines 1 (lg_metrics (ls_gen z)))
     \<and> server_main (CommandLine ?cfg) 4 (initial_world 0) None
         (run_ends (stop_server (ls_server z)) False []) (stop_server (ls_server z)) =
         (Returns 0 [], listening_message ?cfg (resolve_threads (cfg_threads ?cfg) 4) @
         ''[Server] Stopped. Served '' @ nat_str (unat (3 :: u32)) @ '' connections, 0 requests.'' @ newline)"
    by blast
  moreover have "resolve_threads (cfg_threads ?cfg) 4 = 4" "unat (3 :: u32) = 3"
    by (simp_all add: resolve_threads_def default_server_config_def)
  ultimately show ?thesis using z(2) by auto
qed

end
