(* ===== verification/Ui_Protocol.thy ===== *)
theory Ui_Protocol
  imports Protocol
begin

text \<open>
  The protocol helpers of \<^verbatim>\<open>ui_client/src/MainDlg.cpp\<close>: its own header codec, which writes the most
  significant octet first without a byte-order conversion, the loops \<open>SendAll\<close> and \<open>RecvAll\<close>, and
  \<open>SendMsg\<close> and \<open>RecvMsg\<close>. The socket calls belong to the operating system: they are the fields of
  \<open>sock_api\<close>, a parameter, and what the loops rely on is the locale \<open>stream_socket\<close>.
\<close>

unbundle bit_operations_syntax

section \<open>Constants and the header codec\<close>

definition kMaxPayload :: u32 where
  "kMaxPayload = 16 * 1024 * 1024"

definition kMsgSqlQuery :: u16 where "kMsgSqlQuery = 0x0001"
definition kMsgBuyOrder :: u16 where "kMsgBuyOrder = 0x0002"
definition kMsgSellOrder :: u16 where "kMsgSellOrder = 0x0003"
definition kMsgGetPos :: u16 where "kMsgGetPos = 0x0004"
definition kMsgPriceHist :: u16 where "kMsgPriceHist = 0x0005"
definition kMsgPing :: u16 where "kMsgPing = 0x0006"
definition kRespError :: u16 where "kRespError = 0xFFFF"

definition EncodeHeader :: "u32 \<Rightarrow> u16 \<Rightarrow> u8 \<Rightarrow> bytes" where
  "EncodeHeader payloadLen msgType fl =
     [octet 24 payloadLen, octet 16 payloadLen, octet 8 payloadLen, octet 0 payloadLen,
      octet 8 msgType, octet 0 msgType, fl, 0]"

definition DecodeHeader :: "bytes \<Rightarrow> u32 \<times> u16" where
  "DecodeHeader inb = (join32 (inb ! 0) (inb ! 1) (inb ! 2) (inb ! 3), join16 (inb ! 4) (inb ! 5))"

lemma EncodeHeader_eq:
  "EncodeHeader l t f =
     encode_header BigEndian \<lparr>payload_length = l, message_type = t, flags = f, reserved = 0\<rparr>"
  by (simp add: EncodeHeader_def encode_header_def htonl_def htons_def Let_def)

lemma DecodeHeader_EncodeHeader: "DecodeHeader (EncodeHeader l t f) = (l, t)"
  by (simp add: DecodeHeader_def EncodeHeader_def wire_rules)

lemma kMaxPayload_eq: "kMaxPayload = kMaxPayloadSize"
  by (simp add: kMaxPayload_def kMaxPayloadSize_def)

text \<open>\<open>RecvMsg\<close> refuses a length above the limit; with that, the client's codec is a header codec.\<close>

definition ui_decode :: "bytes \<Rightarrow> string + u32 \<times> u16" where
  "ui_decode bs =
     (let (l, t) = DecodeHeader bs in if l > kMaxPayload then Inl ''too long'' else Inr (l, t))"

interpretation ui_wire: header_codec "\<lambda>(l, t). EncodeHeader l t 0" ui_decode
    "\<lambda>(l, t). unat l" "\<lambda>(l, t). l \<le> kMaxPayload"
  by unfold_locales
    (auto simp: EncodeHeader_def kHeaderSize_def ui_decode_def DecodeHeader_EncodeHeader [unfolded EncodeHeader_def])

section \<open>Blocking socket calls\<close>

text \<open>
  \<open>send\<close> and \<open>recv\<close> return a count or \<open>SOCKET_ERROR\<close> (\<open>None\<close>); \<open>recv\<close> gives the bytes it stored.
\<close>

record 'k sock_api =
  api_send :: "'k \<Rightarrow> bytes \<Rightarrow> nat option \<times> 'k"
  api_recv :: "'k \<Rightarrow> nat \<Rightarrow> bytes option \<times> 'k"

function SendAll :: "'k sock_api \<Rightarrow> 'k \<Rightarrow> bytes \<Rightarrow> bool \<times> 'k" where
  "SendAll api k data =
     (if data = [] then (True, k)
      else
        (case api_send api k data of
           (None, k') \<Rightarrow> (False, k')
         | (Some n, k') \<Rightarrow> if n = 0 then (False, k') else SendAll api k' (drop n data)))"
  by pat_completeness auto
termination
  by (relation "measure (\<lambda>(api, k, data). length data)") auto

declare SendAll.simps [simp del]

function RecvAll :: "'k sock_api \<Rightarrow> 'k \<Rightarrow> nat \<Rightarrow> bytes option \<times> 'k" where
  "RecvAll api k len =
     (if len = 0 then (Some [], k)
      else
        (case api_recv api k len of
           (None, k') \<Rightarrow> (None, k')
         | (Some bs, k') \<Rightarrow>
             if bs = [] then (None, k')
             else (case RecvAll api k' (len - length bs) of
                     (r, k'') \<Rightarrow> (map_option (\<lambda>rest. bs @ rest) r, k''))))"
  by pat_completeness auto
termination
  by (relation "measure (\<lambda>(api, k, len). len)") auto

declare RecvAll.simps [simp del]

definition SendMsg :: "'k sock_api \<Rightarrow> 'k \<Rightarrow> u16 \<Rightarrow> string \<Rightarrow> bool \<times> 'k" where
  "SendMsg api k ty pl =
     (case SendAll api k (EncodeHeader (of_nat (length pl)) ty 0) of
        (False, k') \<Rightarrow> (False, k')
      | (True, k') \<Rightarrow> if pl \<noteq> [] then SendAll api k' (bytes_of_string pl) else (True, k'))"

definition RecvMsg :: "'k sock_api \<Rightarrow> 'k \<Rightarrow> (u16 \<times> string) option \<times> 'k" where
  "RecvMsg api k =
     (case RecvAll api k kHeaderSize of
        (None, k') \<Rightarrow> (None, k')
      | (Some hdr, k') \<Rightarrow>
          (let (payloadLen, outType) = DecodeHeader hdr
           in if payloadLen > kMaxPayload then (None, k')
              else if payloadLen > 0 then
                (case RecvAll api k' (unat payloadLen) of
                   (r, k'') \<Rightarrow> (map_option (\<lambda>bs. (outType, string_of_bytes bs)) r, k''))
              else (Some (outType, []), k')))"

section \<open>What the loops rely on\<close>

text \<open>
  A connected stream socket, seen through two observations: the bytes accepted for sending so far
  and the bytes the connection will still deliver. A send takes a prefix of the data; a receive
  takes a prefix of what is to be delivered, at most the length asked for. A reliable socket in
  addition fails or reports the end of the stream only when nothing is to be delivered.
\<close>

locale stream_socket =
  fixes api :: "'k sock_api"
    and sent :: "'k \<Rightarrow> bytes"
    and arrived :: "'k \<Rightarrow> bytes"
  assumes send_some: "api_send api k data = (Some n, k') \<Longrightarrow>
      n \<le> length data \<and> sent k' = sent k @ take n data"
    and send_error: "api_send api k data = (None, k') \<Longrightarrow> sent k' = sent k"
    and recv_some: "api_recv api k len = (Some bs, k') \<Longrightarrow>
      length bs \<le> len \<and> arrived k = bs @ arrived k'"
    and recv_error: "api_recv api k len = (None, k') \<Longrightarrow> arrived k = arrived k'"
begin

lemma SendAll_spec:
  "SendAll api k data = (ok, k') \<Longrightarrow>
     \<exists>n \<le> length data. sent k' = sent k @ take n data \<and> (ok \<longleftrightarrow> n = length data)"
proof (induction "length data" arbitrary: k data rule: less_induct)
  case less
  show ?case
  proof (cases "data = []")
    case True
    with less.prems show ?thesis by (simp add: SendAll.simps)
  next
    case False
    obtain r k1 where s: "api_send api k data = (r, k1)" by (cases "api_send api k data")
    show ?thesis
    proof (cases r)
      case None
      with s False less.prems send_error [of k data k1] show ?thesis
        by (intro exI [of _ 0]) (simp add: SendAll.simps [of api k])
    next
      case (Some n)
      note sp = send_some [OF s [unfolded Some]]
      show ?thesis
      proof (cases "n = 0")
        case True
        with s Some sp False less.prems show ?thesis
          by (intro exI [of _ 0]) (simp add: SendAll.simps [of api k])
      next
        case pos: False
        with s Some False less.prems have rec: "SendAll api k1 (drop n data) = (ok, k')"
          by (simp add: SendAll.simps [of api k])
        have "length (drop n data) < length data" using pos False by simp
        from less.hyps [OF this rec] obtain m where m: "m \<le> length (drop n data)"
          "sent k' = sent k1 @ take m (drop n data)" "ok \<longleftrightarrow> m = length (drop n data)" by blast
        with sp show ?thesis
          by (intro exI [of _ "n + m"]) (auto simp: take_add)
      qed
    qed
  qed
qed

lemma RecvAll_spec:
  "RecvAll api k len = (r, k') \<Longrightarrow>
     (case r of
        Some bs \<Rightarrow> length bs = len \<and> arrived k = bs @ arrived k'
      | None \<Rightarrow> \<exists>bs. length bs < len \<and> arrived k = bs @ arrived k')"
proof (induction len arbitrary: k r rule: less_induct)
  case (less len)
  show ?case
  proof (cases "len = 0")
    case True
    with less.prems show ?thesis by (auto simp: RecvAll.simps)
  next
    case False
    obtain q k1 where s: "api_recv api k len = (q, k1)" by (cases "api_recv api k len")
    show ?thesis
    proof (cases q)
      case None
      with s False less.prems recv_error [of k len k1] show ?thesis
        by (auto simp: RecvAll.simps [of api k])
    next
      case (Some bs)
      note rc = recv_some [OF s [unfolded Some]]
      show ?thesis
      proof (cases "bs = []")
        case True
        with s Some rc False less.prems show ?thesis by (auto simp: RecvAll.simps [of api k])
      next
        case ne: False
        obtain q2 k2 where r2: "RecvAll api k1 (len - length bs) = (q2, k2)"
          by (cases "RecvAll api k1 (len - length bs)")
        with s Some ne False less.prems have r: "r = map_option (\<lambda>rest. bs @ rest) q2" "k' = k2"
          by (auto simp: RecvAll.simps [of api k len])
        have "len - length bs < len" using ne False by simp
        from less.IH [OF this, of k1 q2] r2 r(2) have ih: "case q2 of
            Some cs \<Rightarrow> length cs = len - length bs \<and> arrived k1 = cs @ arrived k'
          | None \<Rightarrow> \<exists>cs. length cs < len - length bs \<and> arrived k1 = cs @ arrived k'" by simp
        show ?thesis
        proof (cases q2)
          case None
          with ih obtain cs where "length cs < len - length bs" "arrived k1 = cs @ arrived k'" by auto
          with rc r None show ?thesis by (auto intro!: exI [of _ "bs @ cs"])
        next
          case (Some cs)
          with ih rc r show ?thesis by simp
        qed
      qed
    qed
  qed
qed

lemma SendMsg_spec:
  assumes "SendMsg api k ty pl = (ok, k')"
  shows "\<exists>n. sent k' = sent k @ take n (EncodeHeader (of_nat (length pl)) ty 0 @ bytes_of_string pl)
     \<and> (ok \<longrightarrow> sent k' = sent k @ EncodeHeader (of_nat (length pl)) ty 0 @ bytes_of_string pl)"
proof -
  let ?h = "EncodeHeader (of_nat (length pl)) ty 0"
  obtain ok1 k1 where h: "SendAll api k ?h = (ok1, k1)" by (cases "SendAll api k ?h")
  from SendAll_spec [OF h] obtain n where n: "n \<le> length ?h" "sent k1 = sent k @ take n ?h"
    "ok1 \<longleftrightarrow> n = length ?h" by blast
  show ?thesis
  proof (cases ok1)
    case False
    with h n assms show ?thesis
      by (intro exI [of _ n]) (auto simp: SendMsg_def)
  next
    case True
    with n have s1: "sent k1 = sent k @ ?h" by simp
    show ?thesis
    proof (cases "pl = []")
      case True
      with \<open>ok1\<close> h s1 assms show ?thesis
        by (intro exI [of _ "length ?h"]) (auto simp: SendMsg_def)
    next
      case False
      with \<open>ok1\<close> h assms have "SendAll api k1 (bytes_of_string pl) = (ok, k')"
        by (simp add: SendMsg_def)
      from SendAll_spec [OF this] obtain m where "m \<le> length pl"
        "sent k' = sent k1 @ take m (bytes_of_string pl)" "ok \<longleftrightarrow> m = length pl" by auto
      with s1 show ?thesis
        by (intro exI [of _ "length ?h + m"]) simp
    qed
  qed
qed

lemma RecvMsg_spec:
  assumes "RecvMsg api k = (Some (ty, pl), k')"
  shows "take_frame ui_decode (\<lambda>(l, t). unat l) (arrived k) =
     Some ((of_nat (length pl), ty), bytes_of_string pl, arrived k')"
proof -
  obtain r1 k1 where h: "RecvAll api k kHeaderSize = (r1, k1)" by (cases "RecvAll api k kHeaderSize")
  with assms obtain hdr where r1: "r1 = Some hdr" by (cases r1) (auto simp: RecvMsg_def)
  from RecvAll_spec [OF h] r1 have a: "length hdr = kHeaderSize" "arrived k = hdr @ arrived k1" by simp_all
  obtain l t where d: "DecodeHeader hdr = (l, t)" by (cases "DecodeHeader hdr")
  with assms h r1 have lim: "\<not> kMaxPayload < l" by (auto simp: RecvMsg_def split: if_splits)
  have dec: "ui_decode hdr = Inr (l, t)" using d lim by (simp add: ui_decode_def)
  show ?thesis
  proof (cases "l > 0")
    case False
    then have "l = 0" by (simp add: word_gt_0)
    with assms h r1 d lim have "pl = []" "ty = t" "k' = k1" by (auto simp: RecvMsg_def)
    with a dec \<open>l = 0\<close> show ?thesis by (simp add: take_frame_def)
  next
    case True
    obtain r2 k2 where b: "RecvAll api k1 (unat l) = (r2, k2)" by (cases "RecvAll api k1 (unat l)")
    with assms h r1 d lim True obtain bs where bs: "r2 = Some bs" "ty = t" "pl = string_of_bytes bs" "k' = k2"
      by (auto simp: RecvMsg_def)
    with RecvAll_spec [OF b] have "length bs = unat l" "arrived k1 = bs @ arrived k'" by simp_all
    with a dec bs show ?thesis by (simp add: take_frame_def)
  qed
qed

end

locale reliable_socket = stream_socket +
  assumes recv_delivers: "api_recv api k len = (r, k') \<Longrightarrow> 0 < len \<Longrightarrow> arrived k \<noteq> [] \<Longrightarrow>
      \<exists>bs. r = Some bs \<and> bs \<noteq> []"
begin

lemma RecvAll_complete:
  "len \<le> length (arrived k) \<Longrightarrow>
     \<exists>k'. RecvAll api k len = (Some (take len (arrived k)), k') \<and> arrived k' = drop len (arrived k)"
proof (induction len arbitrary: k rule: less_induct)
  case (less len)
  show ?case
  proof (cases "len = 0")
    case True
    then show ?thesis by (simp add: RecvAll.simps)
  next
    case False
    then have "arrived k \<noteq> []" using less.prems by auto
    with False obtain bs k1 where s: "api_recv api k len = (Some bs, k1)" and ne: "bs \<noteq> []"
      using recv_delivers by (metis gr0I surj_pair)
    note rc = recv_some [OF s]
    have "len - length bs < len" and "len - length bs \<le> length (arrived k1)"
      using ne False rc less.prems by simp_all
    from less.IH [OF this] obtain k' where "RecvAll api k1 (len - length bs) =
        (Some (take (len - length bs) (arrived k1)), k')" "arrived k' = drop (len - length bs) (arrived k1)"
      by blast
    with s ne rc False show ?thesis by (simp add: RecvAll.simps [of api k])
  qed
qed

lemma RecvMsg_complete:
  assumes "take_frame ui_decode (\<lambda>(l, t). unat l) (arrived k) = Some ((l, t), p, rest)"
  shows "\<exists>k'. RecvMsg api k = (Some (t, string_of_bytes p), k') \<and> arrived k' = rest"
proof -
  from assms have long: "kHeaderSize \<le> length (arrived k)"
    and dec: "ui_decode (take kHeaderSize (arrived k)) = Inr (l, t)"
    and len: "unat l \<le> length (drop kHeaderSize (arrived k))"
    and p: "p = take (unat l) (drop kHeaderSize (arrived k))" "rest = drop (unat l) (drop kHeaderSize (arrived k))"
    by (auto simp: take_frame_def split: if_splits sum.splits)
  from RecvAll_complete [OF long] obtain k1 where h: "RecvAll api k kHeaderSize =
      (Some (take kHeaderSize (arrived k)), k1)" "arrived k1 = drop kHeaderSize (arrived k)" by blast
  from dec have d: "DecodeHeader (take kHeaderSize (arrived k)) = (l, t)" and lim: "\<not> kMaxPayload < l"
    by (auto simp: ui_decode_def split: if_splits prod.splits)
  show ?thesis
  proof (cases "l > 0")
    case False
    then have "l = 0" by (simp add: word_gt_0)
    with h d lim p show ?thesis by (simp add: RecvMsg_def)
  next
    case True
    from len h(2) have "unat l \<le> length (arrived k1)" by simp
    from RecvAll_complete [OF this] obtain k2 where "RecvAll api k1 (unat l) =
        (Some (take (unat l) (arrived k1)), k2)" "arrived k2 = drop (unat l) (arrived k1)" by blast
    with h d lim p True show ?thesis by (simp add: RecvMsg_def)
  qed
qed

end

section \<open>Properties\<close>

text \<open>C34: The user interface's own header codec is the server's on a big-endian host: the same eight octets
  are written, and the same octets are accepted and read as the same length and type, with the same
  limit. On a little-endian host the octets it writes are those of the header with length and type
  byte-swapped.\<close>

theorem ui_codec_agrees:
  "EncodeHeader l t f =
     encode_header BigEndian \<lparr>payload_length = l, message_type = t, flags = f, reserved = 0\<rparr>
   \<and> EncodeHeader l t f =
     encode_header LittleEndian \<lparr>payload_length = bswap32 l, message_type = bswap16 t, flags = f, reserved = 0\<rparr>
   \<and> ui_decode [b0, b1, b2, b3, b4, b5, b6, b7] =
     (case decode_header BigEndian [b0, b1, b2, b3, b4, b5, b6, b7] of
        Inl _ \<Rightarrow> Inl ''too long''
      | Inr h \<Rightarrow> Inr (payload_length h, message_type h))"
proof (intro conjI)
  show "EncodeHeader l t f =
     encode_header BigEndian \<lparr>payload_length = l, message_type = t, flags = f, reserved = 0\<rparr>"
    by (rule EncodeHeader_eq)
  show "EncodeHeader l t f =
     encode_header LittleEndian \<lparr>payload_length = bswap32 l, message_type = bswap16 t, flags = f, reserved = 0\<rparr>"
    by (simp add: EncodeHeader_def encode_header_def htonl_def htons_def wire_rules Let_def)
  show "ui_decode [b0, b1, b2, b3, b4, b5, b6, b7] =
     (case decode_header BigEndian [b0, b1, b2, b3, b4, b5, b6, b7] of
        Inl _ \<Rightarrow> Inl ''too long''
      | Inr h \<Rightarrow> Inr (payload_length h, message_type h))"
    by (simp add: ui_decode_def DecodeHeader_def decode_header_def ntohl_def ntohs_def htonl_def htons_def
        kMaxPayload_eq Let_def)
qed

end
