(* ===== verification/Ui_Text.thy ===== *)
theory Ui_Text
  imports Prelude Binary64
begin

text \<open>
  The texts of \<^verbatim>\<open>ui_client/src/MainDlg.cpp\<close> as lists of UTF-16 code units: wide literals, which are
  ASCII but for a few signs and the box characters, the wide conversions and the time stamp, and the
  clock readings that end up in a text. What Windows does is a parameter, the record \<open>win_env\<close>: the
  conversions between UTF-8 and UTF-16, the conversion of a text to a number, and the clocks.
\<close>

section \<open>Literals\<close>

type_synonym wstring = "u16 list"

definition wide :: "string \<Rightarrow> wstring" where
  "wide s = map (\<lambda>c. of_nat (of_char c)) s"

abbreviation check_mark :: u16 where "check_mark \<equiv> 0x2713"
abbreviation cross_mark :: u16 where "cross_mark \<equiv> 0x2717"
abbreviation en_dash :: u16 where "en_dash \<equiv> 0x2013"
abbreviation black_dot :: u16 where "black_dot \<equiv> 0x25CF"
abbreviation black_star :: u16 where "black_star \<equiv> 0x2605"

lemma wide_simps [simp]: "wide [] = []" "length (wide s) = length s"
  by (simp_all add: wide_def)

lemma wide_nonempty [simp]: "wide s = [] \<longleftrightarrow> s = []"
  by (simp add: wide_def)

text \<open>The blank line, the ruler, the title and the ruler that open the log of a command, and the boxes.\<close>

definition ruler :: wstring where
  "ruler = replicate 59 0x2550"

definition heading :: "string \<Rightarrow> wstring list" where
  "heading t = [[], ruler, wide (''  '' @ t), ruler]"

definition box_top :: wstring where
  "box_top = 0x2554 # replicate 58 0x2550 @ [0x2557]"

definition box_bottom :: wstring where
  "box_bottom = 0x255A # replicate 58 0x2550 @ [0x255D]"

definition box_row :: "wstring \<Rightarrow> wstring" where
  "box_row t = 0x2551 # t @ [0x2551]"

section \<open>What Windows provides\<close>

text \<open>
  \<open>MultiByteToWideChar\<close> with \<open>CP_UTF8\<close> (the converted text; no text when it fails), \<open>CT2A\<close> with \<open>CP_UTF8\<close>,
  \<open>_ttoi\<close>, and the n-th reading of a clock: of \<open>steady_clock\<close> in nanoseconds and of \<open>GetTickCount64\<close>.
\<close>

record win_env =
  mb_to_wide :: "string \<Rightarrow> wstring"
  wide_to_mb :: "wstring \<Rightarrow> string"
  ttoi :: "wstring \<Rightarrow> int"
  steady_ns :: "nat \<Rightarrow> int"
  tick_count :: "nat \<Rightarrow> u64"

text \<open>\<open>if (needed <= 0) return {};\<close>\<close>

definition Utf8ToWide :: "win_env \<Rightarrow> string \<Rightarrow> wstring" where
  "Utf8ToWide E s =
     (if s = [] then []
      else (let needed = length (mb_to_wide E s) in if needed = 0 then [] else mb_to_wide E s))"

text \<open>An environment that converts ASCII, as documented, for the examples.\<close>

definition ascii_env :: win_env where
  "ascii_env = \<lparr>mb_to_wide = wide, wide_to_mb = map (\<lambda>u. char_of (unat u)), ttoi = (\<lambda>t. 0),
     steady_ns = (\<lambda>n. 250500 * int n), tick_count = of_nat\<rparr>"

lemma Utf8ToWide_ascii [simp]: "Utf8ToWide ascii_env s = wide s"
  by (simp add: Utf8ToWide_def ascii_env_def)

section \<open>Numbers\<close>

text \<open>
  \<open>duration_cast\<close> to microseconds, which drops the fraction, then the division by 1000.0 in doubles;
  the stream prints the result with six significant digits.
\<close>

definition elapsed_ms :: "int \<Rightarrow> int \<Rightarrow> double" where
  "elapsed_ms t0 t1 =
     (let d = t1 - t0; us = (if 0 \<le> d then d div 1000 else - (- d div 1000))
      in rnd64 (rnd64 (of_int us) / 1000))"

definition ms_text :: "int \<Rightarrow> int \<Rightarrow> wstring" where
  "ms_text t0 t1 = wide (fmt_g6 (elapsed_ms t0 t1))"

text \<open>\<open>s.substr(0, std::min(s.size(), size_t(7)))\<close>, on the wide text.\<close>

definition trunc7 :: "wstring \<Rightarrow> wstring" where
  "trunc7 s = take (min (length s) 7) s"

text \<open>\<open>[%02u:%02u:%02u]\<close>\<close>

definition pad02 :: "nat \<Rightarrow> string" where
  "pad02 n = (if n < 10 then CHR ''0'' # nat_str n else nat_str n)"

definition Timestamp :: "nat \<times> nat \<times> nat \<Rightarrow> wstring" where
  "Timestamp st = (case st of (h, m, s) \<Rightarrow> wide (''['' @ pad02 h @ '':'' @ pad02 m @ '':'' @ pad02 s @ '']''))"

lemma length_nat_str_two: "10 \<le> n \<Longrightarrow> n < 100 \<Longrightarrow> length (nat_str n) = 2"
  by (subst nat_str.simps, subst nat_str.simps) (auto simp: not_less)

lemma length_Timestamp: "h < 24 \<Longrightarrow> m < 60 \<Longrightarrow> s < 60 \<Longrightarrow> length (Timestamp (h, m, s)) = 10"
proof -
  have p: "length (pad02 n) = 2" if "n < 100" for n
    using that length_nat_str_two [of n] by (cases "n < 10") (auto simp: pad02_def nat_str.simps [of n])
  assume "h < 24" "m < 60" "s < 60"
  then show ?thesis by (simp add: Timestamp_def p)
qed

text \<open>An unsigned number after \<open>std::hex\<close>\<close>

definition hex_char :: "nat \<Rightarrow> char" where
  "hex_char d = (if d < 10 then digit_char d else char_of (d + 87))"

fun hex_str :: "nat \<Rightarrow> string" where
  "hex_str n = (if n < 16 then [hex_char n] else hex_str (n div 16) @ [hex_char (n mod 16)])"

declare hex_str.simps [simp del]

lemma length_hex_str: "n < 16 ^ k \<Longrightarrow> 0 < k \<Longrightarrow> length (hex_str n) \<le> k"
proof (induction k arbitrary: n)
  case (Suc k)
  show ?case
  proof (cases "n < 16")
    case True
    then show ?thesis by (simp add: hex_str.simps [of n])
  next
    case False
    then have "k \<noteq> 0" using Suc.prems by (cases k) auto
    moreover have "n div 16 < 16 ^ k" using Suc.prems(1) by (simp add: less_mult_imp_div_less mult.commute)
    ultimately show ?thesis using Suc.IH [of "n div 16"] False by (simp add: hex_str.simps [of n])
  qed
qed simp

text \<open>A wide text handed on as a C string ends at its first zero unit.\<close>

definition c_str :: "wstring \<Rightarrow> wstring" where
  "c_str t = takeWhile (\<lambda>u. u \<noteq> 0) t"

end
