(* ===== verification/Ui_Commands.thy ===== *)
theory Ui_Commands
  imports Ui_Protocol Json_Fields Ui_Text
begin

text \<open>
  The commands of \<^verbatim>\<open>ui_client/src/MainDlg.cpp\<close>, which the worker thread runs: each logs its heading,
  builds a request, exchanges it for a response over the blocking socket and logs what it read. The
  log is the list of all lines in order, each with its exact text. The static counter of \<open>RunPing\<close> is
  part of the state, and so are the environment and the number of clock readings so far; \<open>Sleep\<close> has
  no effect on either.
\<close>

section \<open>State and log\<close>

record 'k ui =
  win :: win_env
  clock_reads :: nat
  m_socket :: "'k option"
  m_connected :: bool
  s_seq :: int
  log_lines :: "wstring list"

definition initial_ui :: "win_env \<Rightarrow> 'k ui" where
  "initial_ui E =
     \<lparr>win = E, clock_reads = 0, m_socket = None, m_connected = False, s_seq = 100, log_lines = []\<rparr>"

definition Log :: "wstring \<Rightarrow> 'k ui \<Rightarrow> 'k ui" where
  "Log line u = u\<lparr>log_lines := log_lines u @ [line]\<rparr>"

definition LogA :: "string \<Rightarrow> 'k ui \<Rightarrow> 'k ui" where
  "LogA line u = Log (Utf8ToWide (win u) line) u"

text \<open>Several calls of \<open>Log\<close> in a row.\<close>

definition Logs :: "wstring list \<Rightarrow> 'k ui \<Rightarrow> 'k ui" where
  "Logs ls u = fold Log ls u"

lemma Logs_eq: "Logs ls u = u\<lparr>log_lines := log_lines u @ ls\<rparr>"
  unfolding Logs_def by (induction ls arbitrary: u) (simp_all add: Log_def)

lemma Log_Logs: "Log l u = Logs [l] u"
  by (simp add: Logs_def)

lemma Logs_Logs: "Logs ms (Logs ls u) = Logs (ls @ ms) u"
  by (simp add: Logs_def)

lemma Logs_sel [simp]:
  "log_lines (Logs ls u) = log_lines u @ ls" "m_connected (Logs ls u) = m_connected u"
  "m_socket (Logs ls u) = m_socket u" "s_seq (Logs ls u) = s_seq u" "win (Logs ls u) = win u"
  "clock_reads (Logs ls u) = clock_reads u"
  by (simp_all add: Logs_eq)

text \<open>\<open>steady_clock::now()\<close> and \<open>GetTickCount64()\<close>\<close>

definition read_steady :: "'k ui \<Rightarrow> int \<times> 'k ui" where
  "read_steady u = (steady_ns (win u) (clock_reads u), u\<lparr>clock_reads := Suc (clock_reads u)\<rparr>)"

definition read_ticks :: "'k ui \<Rightarrow> u64 \<times> 'k ui" where
  "read_ticks u = (tick_count (win u) (clock_reads u), u\<lparr>clock_reads := Suc (clock_reads u)\<rparr>)"

section \<open>Connection\<close>

text \<open>
  What resolving gives: nothing, or the addresses in order, each with the outcome of creating and
  connecting a socket for it.
\<close>

fun first_connected :: "'k option list \<Rightarrow> 'k option" where
  "first_connected [] = None"
| "first_connected (None # ps) = first_connected ps"
| "first_connected (Some k # ps) = Some k"

definition DoConnect :: "'k option list option \<Rightarrow> 'k ui \<Rightarrow> bool \<times> 'k ui" where
  "DoConnect res u =
     (case res of
        None \<Rightarrow> (False, u)
      | Some ps \<Rightarrow>
          (case first_connected ps of
             Some s \<Rightarrow> (True, u\<lparr>m_socket := Some s, m_connected := True\<rparr>)
           | None \<Rightarrow> (False, u)))"

definition DoDisconnect :: "'k ui \<Rightarrow> 'k ui" where
  "DoDisconnect u = (if m_socket u \<noteq> None then u\<lparr>m_socket := None, m_connected := False\<rparr> else u)"

text \<open>The calls on an invalid socket fail.\<close>

definition ui_send :: "'k sock_api \<Rightarrow> u16 \<Rightarrow> string \<Rightarrow> 'k ui \<Rightarrow> bool \<times> 'k ui" where
  "ui_send api ty pl u =
     (case m_socket u of
        None \<Rightarrow> (False, u)
      | Some k \<Rightarrow> (case SendMsg api k ty pl of (ok, k') \<Rightarrow> (ok, u\<lparr>m_socket := Some k'\<rparr>)))"

definition ui_recv :: "'k sock_api \<Rightarrow> 'k ui \<Rightarrow> (u16 \<times> string) option \<times> 'k ui" where
  "ui_recv api u =
     (case m_socket u of
        None \<Rightarrow> (None, u)
      | Some k \<Rightarrow> (case RecvMsg api k of (r, k') \<Rightarrow> (r, u\<lparr>m_socket := Some k'\<rparr>)))"

text \<open>\<open>if (!SendMsg(...) || !RecvMsg(...))\<close>\<close>

definition ui_exchange ::
  "'k sock_api \<Rightarrow> u16 \<Rightarrow> string \<Rightarrow> 'k ui \<Rightarrow> (u16 \<times> string) option \<times> 'k ui" where
  "ui_exchange api ty pl u =
     (case ui_send api ty pl u of (False, u') \<Rightarrow> (None, u') | (True, u') \<Rightarrow> ui_recv api u')"

section \<open>Loops over a response\<close>

text \<open>\<open>while ((p = s.find(needle, p)) != npos) { ++count; ++p; }\<close>\<close>

function count_from :: "string \<Rightarrow> string \<Rightarrow> nat \<Rightarrow> nat" where
  "count_from needle s p =
     (case str_find s needle p of None \<Rightarrow> 0 | Some i \<Rightarrow> Suc (count_from needle s (Suc i)))"
  by pat_completeness auto
termination
  by (relation "measure (\<lambda>(needle, s, p). Suc (length s) - p)") (auto dest: str_find_bounds)

declare count_from.simps [simp del]

text \<open>The objects that start with \<open>opener\<close>, each up to its first closing brace.\<close>

function entries_from :: "string \<Rightarrow> string \<Rightarrow> nat \<Rightarrow> string list" where
  "entries_from opener s p =
     (case str_find s opener p of
        None \<Rightarrow> []
      | Some st \<Rightarrow>
          (case str_find s ''}'' st of
             None \<Rightarrow> []
           | Some en \<Rightarrow> str_substr s st (en - st + 1) # entries_from opener s (en + 1)))"
  by pat_completeness auto
termination
  by (relation "measure (\<lambda>(opener, s, p). Suc (length s) - p)") (auto dest!: str_find_bounds)

declare entries_from.simps [simp del]

text \<open>The same loop with the counter \<open>shown < limit\<close>.\<close>

fun entries_upto :: "nat \<Rightarrow> string \<Rightarrow> string \<Rightarrow> nat \<Rightarrow> string list" where
  "entries_upto 0 opener s p = []"
| "entries_upto (Suc n) opener s p =
     (case str_find s opener p of
        None \<Rightarrow> []
      | Some st \<Rightarrow>
          (case str_find s ''}'' st of
             None \<Rightarrow> []
           | Some en \<Rightarrow> str_substr s st (en - st + 1) # entries_upto n opener s (en + 1)))"

lemma entries_upto_take: "entries_upto n opener s p = take n (entries_from opener s p)"
proof (induction n opener s p rule: entries_upto.induct)
  case (2 n opener s p)
  then show ?case
    by (subst entries_from.simps) (auto split: option.split)
qed simp

section \<open>Commands\<close>

definition login_payload :: string where
  \<open>login_payload = ''{"seq":1,"client":"HS-UI-Client-v1.0"}''\<close>

definition RunLogin :: "'k sock_api \<Rightarrow> 'k ui \<Rightarrow> 'k ui" where
  "RunLogin api u =
     (let u = Logs (heading ''LOGIN'') u
      in if \<not> m_connected u then
           Logs [wide ''Not connected.  Please use the [Connect] button first, then re-run Login.'', []] u
         else
           (let u = Log (wide ''Sending authentication ping to verify session...'') u
            in case ui_exchange api kMsgPing login_payload u of
                 (None, u) \<Rightarrow> Logs [cross_mark # wide ''  Login failed: server did not respond to ping.'', []] u
               | (Some (respType, respPayload), u) \<Rightarrow>
                   (let u = Logs [wide ''Server responded: '' @ Utf8ToWide (win u) respPayload, [],
                          check_mark # wide ''  Login successful.  Authenticated as: demo_user@hs-bank.com''] u;
                        (ticks, u) = read_ticks u
                    in Logs [wide ''   Session token  : SESS-'' @ wide (nat_str (unat (ticks AND 0xFFFFFF))),
                         wide ''   Account access : ACC-001, ACC-002'',
                         wide ''   Permissions    : TRADING, REPORTING, MARKET_DATA'', []] u)))"

definition logout_payload :: string where
  \<open>logout_payload = ''{"seq":0,"reason":"user_logout"}''\<close>

definition RunLogout :: "'k sock_api \<Rightarrow> 'k ui \<Rightarrow> 'k ui" where
  "RunLogout api u =
     (let u = Logs (heading ''LOGOUT'') u
      in if \<not> m_connected u then Logs [wide ''Not currently connected to the server.'', []] u
         else
           (let u = Log (wide ''Sending logout notification...'') u;
                u = snd (ui_send api kMsgPing logout_payload u);
                u = DoDisconnect u
            in Logs [[], check_mark # wide ''  Logout successful.  Goodbye, demo_user@hs-bank.com'',
                 wide ''   Session closed.  All pending orders retained on the server.'', []] u))"

text \<open>\<open>if (!m_connected) { Log(...); Log(L""); return; }\<close> of the other commands\<close>

definition not_connected :: "'k ui \<Rightarrow> 'k ui" where
  "not_connected u = Logs [cross_mark # wide ''  Not connected.'', []] u"

definition ping_payload :: "int \<Rightarrow> string" where
  \<open>ping_payload n = ''{"seq":'' @ int_str n @ ''}''\<close>

definition RunPing :: "'k sock_api \<Rightarrow> 'k ui \<Rightarrow> 'k ui" where
  "RunPing api u =
     (let u = Logs (heading ''PING'') u
      in if \<not> m_connected u then not_connected u
         else
           (let u = u\<lparr>s_seq := s_seq u + 1\<rparr>;
                pl = ping_payload (s_seq u);
                u = Log (wide ''Sending: '' @ Utf8ToWide (win u) pl) u;
                (t0, u) = read_steady u
            in case ui_exchange api kMsgPing pl u of
                 (None, u) \<Rightarrow> Logs [cross_mark # wide ''  Ping failed (socket error).'', []] u
               | (Some (respType, respPayload), u) \<Rightarrow>
                   (let (t1, u) = read_steady u
                    in Logs [wide ''Response: '' @ Utf8ToWide (win u) respPayload,
                         check_mark # wide ''  Pong received in '' @ ms_text t0 t1 @ wide '' ms'', []] u)))"

text \<open>
  The common shape of the other commands: a failed exchange and an error response are logged, any
  other response, whatever its type, is shown, with the time the exchange took.
\<close>

definition run_request ::
  "'k sock_api \<Rightarrow> u16 \<Rightarrow> string \<Rightarrow> (string \<Rightarrow> wstring \<Rightarrow> wstring list) \<Rightarrow> 'k ui \<Rightarrow> 'k ui" where
  "run_request api ty pl show_response u =
     (let (t0, u) = read_steady u
      in case ui_exchange api ty pl u of
           (None, u) \<Rightarrow> Logs [cross_mark # wide ''  Request failed (socket error).'', []] u
         | (Some (respType, respPayload), u) \<Rightarrow>
             (let (t1, u) = read_steady u
              in if respType = kRespError then
                   Logs [cross_mark # wide ''  Server error: '' @ Utf8ToWide (win u) respPayload, []] u
                 else Logs (show_response respPayload (ms_text t0 t1)) u))"

definition sql_request :: "string \<Rightarrow> string" where
  \<open>sql_request sql = ''{"sql":"'' @ sql @ ''"}''\<close>

definition show_sql :: "win_env \<Rightarrow> string \<Rightarrow> wstring \<Rightarrow> wstring list" where
  \<open>show_sql E resp ms =
     [wide ''Response payload:'', wide ''  '' @ Utf8ToWide E resp,
      check_mark # wide ''  Query complete '' @ en_dash # wide ''  '' @
        wide (nat_str (count_from ''"symbol":'' resp 0)) @ wide '' row(s) returned in '' @ ms @ wide '' ms'',
      []]\<close>

definition RunSqlQuery :: "'k sock_api \<Rightarrow> string \<Rightarrow> 'k ui \<Rightarrow> 'k ui" where
  "RunSqlQuery api sql u =
     (let u = Logs (heading ''SQL QUERY'') u
      in if \<not> m_connected u then not_connected u
         else
           (let u = Logs [wide ''SQL : '' @ Utf8ToWide (win u) sql, wide ''Sending request...''] u
            in run_request api kMsgSqlQuery (sql_request sql) (show_sql (win u)) u))"

definition order_request :: "string \<Rightarrow> int \<Rightarrow> double \<Rightarrow> string \<Rightarrow> string" where
  \<open>order_request symb qty price account =
     ''{"symbol":"'' @ symb @ ''","qty":'' @ int_str qty @ '',"price":'' @ fmt_g6 price @
     '',"account":"'' @ account @ ''"}''\<close>

definition order_line :: "win_env \<Rightarrow> string \<Rightarrow> int \<Rightarrow> double \<Rightarrow> string \<Rightarrow> wstring" where
  "order_line E symb qty price account =
     wide ''  Symbol  : '' @ Utf8ToWide E symb @ wide ''   Qty: '' @ wide (int_str qty) @
     wide ''   Price: $'' @ wide (fmt_g6 price) @ wide ''   Account: '' @ Utf8ToWide E account"

definition show_ack :: "win_env \<Rightarrow> string \<Rightarrow> string \<Rightarrow> string \<Rightarrow> wstring \<Rightarrow> wstring list" where
  "show_ack E verb symb resp ms =
     (let orderId = ExtractField resp ''order_id'';
          status = ExtractField resp ''status'';
          side = ExtractField resp ''side'';
          qtyField = ExtractField resp ''qty'';
          priceF = ExtractField resp ''price''
      in [wide ''Order Acknowledgement:'',
          wide ''  Order ID : '' @ Utf8ToWide E orderId,
          wide ''  Side     : '' @ Utf8ToWide E side,
          wide ''  Symbol   : '' @ Utf8ToWide E symb,
          wide ''  Qty      : '' @ Utf8ToWide E qtyField,
          wide ''  Price    : $'' @ Utf8ToWide E priceF,
          wide ''  Status   : '' @ Utf8ToWide E status,
          check_mark # wide (''  '' @ verb @ '' order '') @ Utf8ToWide E orderId @
            wide '' acknowledged in '' @ ms @ wide '' ms'',
          []])"

definition RunBuyOrder ::
  "'k sock_api \<Rightarrow> string \<Rightarrow> int \<Rightarrow> double \<Rightarrow> string \<Rightarrow> 'k ui \<Rightarrow> 'k ui" where
  "RunBuyOrder api symb qty price account u =
     (let u = Logs (heading ''BUY ORDER'') u
      in if \<not> m_connected u then not_connected u
         else
           (let u = Logs [order_line (win u) symb qty price account, wide ''Sending BUY request...''] u
            in run_request api kMsgBuyOrder (order_request symb qty price account) (show_ack (win u) ''BUY'' symb) u))"

definition RunSellOrder ::
  "'k sock_api \<Rightarrow> string \<Rightarrow> int \<Rightarrow> double \<Rightarrow> string \<Rightarrow> 'k ui \<Rightarrow> 'k ui" where
  "RunSellOrder api symb qty price account u =
     (let u = Logs (heading ''SELL ORDER'') u
      in if \<not> m_connected u then not_connected u
         else
           (let u = Logs [order_line (win u) symb qty price account, wide ''Sending SELL request...''] u
            in run_request api kMsgSellOrder (order_request symb qty price account) (show_ack (win u) ''SELL'' symb) u))"

definition position_request :: "string \<Rightarrow> string" where
  \<open>position_request account = ''{"account":"'' @ account @ ''"}''\<close>

definition show_position :: "win_env \<Rightarrow> nat \<Rightarrow> string \<Rightarrow> wstring" where
  "show_position E idx entry =
     wide ''  ['' @ wide (nat_str idx) @ wide ''] '' @ Utf8ToWide E (ExtractField entry ''symbol'') @
     wide ''  qty='' @ Utf8ToWide E (ExtractField entry ''qty'') @
     wide ''  avg=$'' @ Utf8ToWide E (ExtractField entry ''avg_cost'') @
     wide ''  cur=$'' @ Utf8ToWide E (ExtractField entry ''current'') @
     wide ''  P&L=$'' @ Utf8ToWide E (ExtractField entry ''pnl'')"

definition show_positions :: "win_env \<Rightarrow> string \<Rightarrow> wstring \<Rightarrow> wstring list" where
  \<open>show_positions E resp ms =
     (let entries = entries_from ''{"symbol":'' resp 0
      in wide ''Portfolio Snapshot:''
         # map (\<lambda>(i, e). show_position E (i + 1) e) (zip [0..<length entries] entries)
         @ [wide ''  Cash balance : $'' @ Utf8ToWide E (ExtractField resp ''cash''),
            check_mark # wide ''  Position query complete '' @ en_dash # wide ''  '' @
              wide (nat_str (length entries)) @ wide '' position(s) in '' @ ms @ wide '' ms'',
            []])\<close>

definition RunGetPosition :: "'k sock_api \<Rightarrow> string \<Rightarrow> 'k ui \<Rightarrow> 'k ui" where
  "RunGetPosition api account u =
     (let u = Logs (heading ''GET POSITION'') u
      in if \<not> m_connected u then not_connected u
         else
           (let u = Logs [wide ''Account : '' @ Utf8ToWide (win u) account,
                  wide ''Sending GET POSITION request...''] u
            in run_request api kMsgGetPos (position_request account) (show_positions (win u)) u))"

definition history_request :: "string \<Rightarrow> int \<Rightarrow> string" where
  \<open>history_request symb days = ''{"symbol":"'' @ symb @ ''","days":'' @ int_str days @ ''}''\<close>

definition show_candle :: "win_env \<Rightarrow> string \<Rightarrow> wstring" where
  "show_candle E entry =
     wide ''  '' @ Utf8ToWide E (ExtractField entry ''date'') @
     wide ''  O='' @ trunc7 (Utf8ToWide E (ExtractField entry ''open'')) @
     wide ''  H='' @ trunc7 (Utf8ToWide E (ExtractField entry ''high'')) @
     wide ''  L='' @ trunc7 (Utf8ToWide E (ExtractField entry ''low'')) @
     wide ''  C='' @ trunc7 (Utf8ToWide E (ExtractField entry ''close'')) @
     wide ''  Vol='' @ Utf8ToWide E (ExtractField entry ''volume'')"

definition show_history :: "win_env \<Rightarrow> string \<Rightarrow> wstring \<Rightarrow> wstring list" where
  \<open>show_history E resp ms =
     (let candles = count_from ''"date":'' resp 0
      in wide ''OHLCV Data (first 5 candles):''
         # map (show_candle E) (entries_upto 5 ''{"date":'' resp 0)
         @ (if candles > 5 then
              [wide ''  ... ('' @ wide (nat_str (candles - 5)) @ wide '' more candles omitted) ...''] else [])
         @ [check_mark # wide ''  Price history complete '' @ en_dash # wide ''  '' @
              wide (nat_str candles) @ wide '' candles received in '' @ ms @ wide '' ms'',
            []])\<close>

definition RunGetPriceHistory :: "'k sock_api \<Rightarrow> string \<Rightarrow> int \<Rightarrow> 'k ui \<Rightarrow> 'k ui" where
  "RunGetPriceHistory api symb days u =
     (let u = Logs (heading ''PRICE HISTORY'') u
      in if \<not> m_connected u then not_connected u
         else
           (let u = Logs [wide ''  Symbol: '' @ Utf8ToWide (win u) symb @ wide ''  Period: '' @
                    wide (int_str days) @ wide '' days'', wide ''Sending PRICE HISTORY request...''] u
            in run_request api kMsgPriceHist (history_request symb days) (show_history (win u)) u))"

definition batch_title :: "wstring list" where
  "batch_title =
     [[], box_top, box_row (wide ''               BATCH TEST  '' @ en_dash # wide ''  All Services               ''),
      box_bottom]"

definition batch_end :: "wstring list" where
  "batch_end =
     [[], box_top, box_row (wide ''               BATCH TEST COMPLETE                       ''), box_bottom, []]"

definition RunBatchTest :: "'k sock_api \<Rightarrow> 'k ui \<Rightarrow> 'k ui" where
  "RunBatchTest api u =
     (let u = Logs batch_title u
      in if \<not> m_connected u then
           Logs [cross_mark # wide ''  Not connected to the server.  Please connect first.'', []] u
         else
           (let u = Logs [wide ''Running all 12 service tests sequentially...'', []] u;
                u = RunPing api u;
                u = RunSqlQuery api (''SELECT symbol, price FROM quotes WHERE symbol='' @
                      [CHR 0x27] @ ''AAPL'' @ [CHR 0x27]) u;
                u = RunSqlQuery api ''SELECT symbol, price, volume FROM quotes ORDER BY volume DESC'' u;
                u = RunBuyOrder api ''AAPL'' 100 (rnd64 (18250 / 100)) ''ACC-001'' u;
                u = RunBuyOrder api ''MSFT'' 50 (rnd64 (31010 / 100)) ''ACC-001'' u;
                u = RunSellOrder api ''AAPL'' 75 (rnd64 183) ''ACC-002'' u;
                u = RunSellOrder api ''TSLA'' 200 (rnd64 (24550 / 100)) ''ACC-002'' u;
                u = RunGetPosition api ''ACC-001'' u;
                u = RunGetPosition api ''ACC-002'' u;
                u = RunGetPriceHistory api ''AAPL'' 30 u;
                u = RunGetPriceHistory api ''MSFT'' 7 u;
                u = RunGetPriceHistory api ''GOOGL'' 14 u
            in Logs batch_end u))"

section \<open>Helpers without a caller\<close>

definition ExtractString :: "string \<Rightarrow> string \<Rightarrow> string" where
  "ExtractString json key = ExtractField json key"

definition SummariseResponse :: "win_env \<Rightarrow> u16 \<Rightarrow> string \<Rightarrow> wstring" where
  "SummariseResponse E ty json =
     wide ''[type=0x'' @ wide (hex_str (unat ty)) @ wide ''] '' @
     Utf8ToWide E (if length json > 200 then str_substr json 0 200 @ ''...'' else json)"

text \<open>The summary of an ASCII response has at most 217 characters.\<close>

lemma length_summary: "length (SummariseResponse ascii_env ty json) \<le> 217"
proof -
  have "length (hex_str (unat ty)) \<le> 4"
    using unsigned_less [of ty] by (intro length_hex_str) simp_all
  then show ?thesis by (simp add: SummariseResponse_def str_substr_def)
qed

end
