(* ===== verification/Ui_Menu.thy ===== *)
theory Ui_Menu
  imports Ui_Commands
begin

text \<open>
  The command menu of the user interface: \<open>CmdId\<close> of \<^verbatim>\<open>ui_client/src/MainDlg.h\<close>, the table
  \<open>kCommands\<close> and the switch of \<open>OnBnClickedRun\<close> in \<^verbatim>\<open>ui_client/src/MainDlg.cpp\<close>, which the worker
  thread executes. The table is what the combo box shows: each entry has a label and the identifier
  that becomes the item's data.
\<close>

datatype CmdId =
    Login | Logout | Ping | SqlQueryAapl | SqlQueryMsft | SqlQueryAll | BuyAapl | BuyMsft | SellAapl
  | SellTsla | GetPositionAcc001 | GetPositionAcc002 | PriceHistAapl30 | PriceHistMsft7
  | PriceHistGoogl14 | BatchTest

definition all_commands :: "CmdId list" where
  "all_commands =
     [Login, Logout, Ping, SqlQueryAapl, SqlQueryMsft, SqlQueryAll, BuyAapl, BuyMsft, SellAapl,
      SellTsla, GetPositionAcc001, GetPositionAcc002, PriceHistAapl30, PriceHistMsft7,
      PriceHistGoogl14, BatchTest]"

fun cmd_code :: "CmdId \<Rightarrow> int" where
  "cmd_code Login = 0"
| "cmd_code Logout = 1"
| "cmd_code Ping = 2"
| "cmd_code SqlQueryAapl = 3"
| "cmd_code SqlQueryMsft = 4"
| "cmd_code SqlQueryAll = 5"
| "cmd_code BuyAapl = 6"
| "cmd_code BuyMsft = 7"
| "cmd_code SellAapl = 8"
| "cmd_code SellTsla = 9"
| "cmd_code GetPositionAcc001 = 10"
| "cmd_code GetPositionAcc002 = 11"
| "cmd_code PriceHistAapl30 = 12"
| "cmd_code PriceHistMsft7 = 13"
| "cmd_code PriceHistGoogl14 = 14"
| "cmd_code BatchTest = 15"

lemma cmd_code_inj: "cmd_code c = cmd_code d \<longleftrightarrow> c = d"
  by (cases c; cases d) simp_all

text \<open>Commands are ordered as their enumeration constants are.\<close>

instantiation CmdId :: linorder
begin

definition less_eq_CmdId :: "CmdId \<Rightarrow> CmdId \<Rightarrow> bool" where
  "less_eq_CmdId c d \<longleftrightarrow> cmd_code c \<le> cmd_code d"

definition less_CmdId :: "CmdId \<Rightarrow> CmdId \<Rightarrow> bool" where
  "less_CmdId c d \<longleftrightarrow> cmd_code c < cmd_code d"

instance
  by standard (auto simp: less_eq_CmdId_def less_CmdId_def cmd_code_inj)

end

record command_entry =
  label :: wstring
  entry_id :: int

abbreviation menu_entry :: "wstring \<Rightarrow> CmdId \<Rightarrow> command_entry" where
  "menu_entry t c \<equiv> \<lparr>label = t, entry_id = cmd_code c\<rparr>"

text \<open>Separators have the identifier -1.\<close>

abbreviation menu_separator :: command_entry where
  "menu_separator \<equiv> \<lparr>label = wide (replicate 59 CHR ''-''), entry_id = - 1\<rparr>"

definition kCommands :: "command_entry list" where
  "kCommands =
     [menu_entry (wide ''[1]  Login  '' @ en_dash # wide ''  Connect and authenticate'') Login,
      menu_entry (wide ''[2]  Logout '' @ en_dash # wide ''  Disconnect from server'') Logout,
      menu_separator,
      menu_entry (wide ''[3]  Ping server'') Ping,
      menu_separator,
      menu_entry (wide ''[4]  SQL Query '' @ en_dash # wide ''  SELECT AAPL quotes'') SqlQueryAapl,
      menu_entry (wide ''[5]  SQL Query '' @ en_dash # wide ''  SELECT MSFT quotes'') SqlQueryMsft,
      menu_entry (wide ''[6]  SQL Query '' @ en_dash # wide ''  SELECT all tickers'') SqlQueryAll,
      menu_separator,
      menu_entry (wide ''[7]  Buy Order  '' @ en_dash # wide ''  AAPL 100 @ $182.50 (ACC-001)'') BuyAapl,
      menu_entry (wide ''[8]  Buy Order  '' @ en_dash # wide ''  MSFT  50 @ $310.10 (ACC-001)'') BuyMsft,
      menu_entry (wide ''[9]  Sell Order '' @ en_dash # wide ''  AAPL  75 @ $183.00 (ACC-002)'') SellAapl,
      menu_entry (wide ''[10] Sell Order '' @ en_dash # wide ''  TSLA 200 @ $245.50 (ACC-002)'') SellTsla,
      menu_separator,
      menu_entry (wide ''[11] Get Position '' @ en_dash # wide ''  Account ACC-001'') GetPositionAcc001,
      menu_entry (wide ''[12] Get Position '' @ en_dash # wide ''  Account ACC-002'') GetPositionAcc002,
      menu_separator,
      menu_entry (wide ''[13] Price History '' @ en_dash # wide ''  AAPL (30 days)'') PriceHistAapl30,
      menu_entry (wide ''[14] Price History '' @ en_dash # wide ''  MSFT  (7 days)'') PriceHistMsft7,
      menu_entry (wide ''[15] Price History '' @ en_dash # wide ''  GOOGL (14 days)'') PriceHistGoogl14,
      menu_separator,
      menu_entry (wide ''[16] '' @ black_star # wide '' BATCH TEST '' @ en_dash # wide ''  Run all services sequentially'') BatchTest]"

text \<open>The cast of an item's data to \<open>CmdId\<close>; other values take the \<open>default\<close> branch of the switch.\<close>

definition cmd_of_code :: "int \<Rightarrow> CmdId option" where
  "cmd_of_code i = find (\<lambda>c. cmd_code c = i) all_commands"

lemma cmd_of_code: "cmd_of_code (cmd_code c) = Some c"
  by (cases c) (simp_all add: cmd_of_code_def all_commands_def)

text \<open>
  What pressing Run starts: nothing without a selection (\<open>CB_ERR\<close>) or on a separator, else the
  worker with this identifier.
\<close>

definition selected_command :: "command_entry list \<Rightarrow> nat option \<Rightarrow> int option" where
  "selected_command items sel =
     (case sel of
        None \<Rightarrow> None
      | Some i \<Rightarrow> (let cmdId = entry_id (items ! i) in if cmdId < 0 then None else Some cmdId))"

definition run_command :: "'k sock_api \<Rightarrow> CmdId \<Rightarrow> 'k ui \<Rightarrow> 'k ui" where
  "run_command api c u =
     (case c of
        Login \<Rightarrow> RunLogin api u
      | Logout \<Rightarrow> RunLogout api u
      | Ping \<Rightarrow> RunPing api u
      | SqlQueryAapl \<Rightarrow> RunSqlQuery api
          (''SELECT symbol, price FROM quotes WHERE symbol='' @ [CHR 0x27] @ ''AAPL'' @ [CHR 0x27]) u
      | SqlQueryMsft \<Rightarrow> RunSqlQuery api
          (''SELECT symbol, price FROM quotes WHERE symbol='' @ [CHR 0x27] @ ''MSFT'' @ [CHR 0x27]) u
      | SqlQueryAll \<Rightarrow> RunSqlQuery api ''SELECT symbol, price, volume FROM quotes ORDER BY volume DESC'' u
      | BuyAapl \<Rightarrow> RunBuyOrder api ''AAPL'' 100 (rnd64 (18250 / 100)) ''ACC-001'' u
      | BuyMsft \<Rightarrow> RunBuyOrder api ''MSFT'' 50 (rnd64 (31010 / 100)) ''ACC-001'' u
      | SellAapl \<Rightarrow> RunSellOrder api ''AAPL'' 75 (rnd64 183) ''ACC-002'' u
      | SellTsla \<Rightarrow> RunSellOrder api ''TSLA'' 200 (rnd64 (24550 / 100)) ''ACC-002'' u
      | GetPositionAcc001 \<Rightarrow> RunGetPosition api ''ACC-001'' u
      | GetPositionAcc002 \<Rightarrow> RunGetPosition api ''ACC-002'' u
      | PriceHistAapl30 \<Rightarrow> RunGetPriceHistory api ''AAPL'' 30 u
      | PriceHistMsft7 \<Rightarrow> RunGetPriceHistory api ''MSFT'' 7 u
      | PriceHistGoogl14 \<Rightarrow> RunGetPriceHistory api ''GOOGL'' 14 u
      | BatchTest \<Rightarrow> RunBatchTest api u)"

text \<open>The body of the worker: the switch on the identifier.\<close>

definition worker_body :: "'k sock_api \<Rightarrow> int \<Rightarrow> 'k ui \<Rightarrow> 'k ui" where
  "worker_body api cmdId u = (case cmd_of_code cmdId of Some c \<Rightarrow> run_command api c u | None \<Rightarrow> u)"

text \<open>Every entry of the table that is not a separator runs a command, and each command has one entry.\<close>

lemma menu_codes: "filter (\<lambda>i. 0 \<le> i) (map entry_id kCommands) = map cmd_code all_commands"
  by (simp add: kCommands_def all_commands_def)

lemma all_commands: "c \<in> set all_commands" "distinct all_commands" "sorted all_commands"
  by (cases c) (simp_all add: all_commands_def less_eq_CmdId_def)

lemma selected_command_code:
  assumes "\<And>i. sel = Some i \<Longrightarrow> i < length kCommands" and "selected_command kCommands sel = Some cmdId"
  shows "\<exists>c. cmdId = cmd_code c"
proof -
  obtain i where i: "sel = Some i" "cmdId = entry_id (kCommands ! i)" "0 \<le> cmdId"
    using assms(2) by (auto simp: selected_command_def Let_def split: option.splits if_splits)
  then have "cmdId \<in> set (map entry_id kCommands)" using assms(1) by auto
  with i(3) have "cmdId \<in> set (filter (\<lambda>i. 0 \<le> i) (map entry_id kCommands))" by (simp del: set_map)
  then show ?thesis unfolding menu_codes by auto
qed

text \<open>The labels number the commands in the order of the enumeration, from 1.\<close>

lemma cmd_numbers:
  "map (\<lambda>c. int_str (cmd_code c + 1)) all_commands =
     [''1'', ''2'', ''3'', ''4'', ''5'', ''6'', ''7'', ''8'', ''9'', ''10'', ''11'', ''12'', ''13'', ''14'', ''15'', ''16'']"
  by code_simp

lemma menu_labels:
  "list_all2 (\<lambda>e c. entry_id e = cmd_code c \<and> prefix (wide (''['' @ int_str (cmd_code c + 1) @ '']'')) (label e))
     (filter (\<lambda>e. 0 \<le> entry_id e) kCommands) all_commands"
  using cmd_numbers by (simp add: kCommands_def all_commands_def wide_def)

text \<open>The batch test runs twelve of the commands in a row.\<close>

definition batch_commands :: "CmdId list" where
  "batch_commands =
     [Ping, SqlQueryAapl, SqlQueryAll, BuyAapl, BuyMsft, SellAapl, SellTsla, GetPositionAcc001,
      GetPositionAcc002, PriceHistAapl30, PriceHistMsft7, PriceHistGoogl14]"

definition batch_start :: "wstring list" where
  "batch_start = batch_title @ [wide ''Running all 12 service tests sequentially...'', []]"

lemma RunBatchTest_fold:
  "m_connected u \<Longrightarrow>
     RunBatchTest api u = Logs batch_end (fold (run_command api) batch_commands (Logs batch_start u))"
  by (simp add: RunBatchTest_def Let_def Logs_Logs batch_commands_def batch_start_def run_command_def)

end
