(* ===== verification/Ui_Responses.thy ===== *)
theory Ui_Responses
  imports Ui_Commands Sql_Service Trade_Service Position_Service Price_History_Service
begin

text \<open>
  What the loops of the user interface make of the responses the server writes: the row and candle
  counts of \<open>RunSqlQuery\<close> and \<open>RunGetPriceHistory\<close>, the entries shown by \<open>RunGetPosition\<close>, and the
  acknowledgements. The index loops are first shown equal to recursions over the text.
\<close>

section \<open>Counting\<close>

fun count_occ :: "string \<Rightarrow> string \<Rightarrow> nat" where
  "count_occ nd [] = 0"
| "count_occ nd (c # cs) = (if prefix nd (c # cs) then 1 else 0) + count_occ nd cs"

lemma count_occ_find:
  assumes "nd \<noteq> []"
  shows "count_occ nd s = (case find_idx nd s of None \<Rightarrow> 0 | Some i \<Rightarrow> Suc (count_occ nd (drop (Suc i) s)))"
  using assms by (induction s) (auto split: option.split)

lemma count_from_eq: "nd \<noteq> [] \<Longrightarrow> count_from nd s p = count_occ nd (drop p s)"
proof (induction nd s p rule: count_from.induct)
  case (1 nd s p)
  show ?case
  proof (cases "str_find s nd p")
    case None
    then have "find_idx nd (drop p s) = None \<or> length s < p"
      by (auto simp: str_find_def split: if_splits)
    with None 1(2) show ?thesis
      by (subst count_from.simps) (auto simp: count_occ_find [of nd "drop p s"])
  next
    case (Some i)
    then obtain k where "find_idx nd (drop p s) = Some k" "i = p + k"
      by (auto simp: str_find_def split: if_splits)
    with Some 1 show ?thesis
      by (subst count_from.simps) (simp add: count_occ_find [of nd "drop p s"] add.commute)
  qed
qed

lemma count_occ_skip: "q \<notin> set xs \<Longrightarrow> count_occ (q # nd) (xs @ ys) = count_occ (q # nd) ys"
  by (induction xs) auto

lemma count_occ_skip_end: "q \<notin> set xs \<Longrightarrow> count_occ (q # nd) xs = 0"
  using count_occ_skip [of q xs nd "[]"] by simp

section \<open>Entries\<close>

function entries :: "string \<Rightarrow> string \<Rightarrow> string list" where
  "entries opener s =
     (case find_idx opener s of
        None \<Rightarrow> []
      | Some i \<Rightarrow>
          (case find_idx ''}'' (drop i s) of
             None \<Rightarrow> []
           | Some e \<Rightarrow> take (e + 1) (drop i s) # entries opener (drop (e + 1) (drop i s))))"
  by pat_completeness auto
termination
  by (relation "measure (\<lambda>(opener, s). length s)") (auto dest!: find_idx_SomeD dest: prefix_length_le)

declare entries.simps [simp del]

lemma entries_from_eq: "entries_from opener s p = entries opener (drop p s)"
proof (induction opener s p rule: entries_from.induct)
  case (1 opener s p)
  show ?case
  proof (cases "str_find s opener p")
    case None
    then have "find_idx opener (drop p s) = None \<or> length s < p"
      by (auto simp: str_find_def split: if_splits)
    moreover have "entries opener [] = []"
      by (subst entries.simps) (simp split: option.split)
    ultimately show ?thesis
      using None by (subst entries_from.simps, auto) (subst entries.simps, simp)
  next
    case (Some st)
    then obtain i where i: "find_idx opener (drop p s) = Some i" "st = p + i" and p: "p \<le> length s"
      by (auto simp: str_find_def split: if_splits)
    have le: "st \<le> length s" using str_find_bounds [OF Some] by simp
    show ?thesis
    proof (cases "str_find s ''}'' st")
      case None
      with le have "find_idx ''}'' (drop i (drop p s)) = None"
        using i(2) by (simp add: str_find_def add.commute)
      with None Some i(1) show ?thesis
        by (subst entries_from.simps, subst entries.simps) simp
    next
      case (Some en)
      then obtain e where e: "find_idx ''}'' (drop i (drop p s)) = Some e" "en = st + e"
        using le i(2) by (auto simp: str_find_def add.commute split: if_splits)
      from 1 [OF \<open>str_find s opener p = Some st\<close> Some]
      have "entries_from opener s (en + 1) = entries opener (drop (e + 1) (drop i (drop p s)))"
        using e(2) i(2) by (simp add: ac_simps)
      with Some \<open>str_find s opener p = Some st\<close> i e show ?thesis
        by (subst entries_from.simps, subst entries.simps)
          (simp add: str_substr_def add.commute)
    qed
  qed
qed

text \<open>One entry: text without an opening brace, then the opener, then text without a closing brace.\<close>

lemma entries_step:
  assumes "CHR ''{'' \<notin> set pre" and "CHR ''}'' \<notin> set body" and "prefix nd body"
  shows "entries (CHR ''{'' # nd) (pre @ CHR ''{'' # body @ CHR ''}'' # rest) =
     (CHR ''{'' # body @ ''}'') # entries (CHR ''{'' # nd) rest"
proof -
  let ?op = "CHR ''{'' # nd"
  have "prefix ?op (CHR ''{'' # body @ CHR ''}'' # rest)"
    using assms(3) by (auto simp: prefix_def)
  then have i: "find_idx ?op (pre @ CHR ''{'' # body @ CHR ''}'' # rest) = Some (length pre)"
    using assms(1) by (simp add: find_idx_skip find_idx_prefix del: find_idx.simps)
  have e: "find_idx ''}'' (CHR ''{'' # body @ CHR ''}'' # rest) = Some (Suc (length body))"
    using assms(2) find_idx_skip [of "CHR ''}''" "CHR ''{'' # body" "[]" "CHR ''}'' # rest"]
    by (simp add: find_idx_prefix del: find_idx.simps)
  show ?thesis
    by (subst entries.simps) (simp add: i e del: find_idx.simps)
qed

lemma entries_none: "CHR ''{'' \<notin> set s \<Longrightarrow> entries (CHR ''{'' # nd) s = []"
  by (subst entries.simps) (simp add: find_idx_absent)

lemma entries_miss: "\<not> prefix op (c # s) \<Longrightarrow> entries op (c # s) = entries op s"
  by (subst entries.simps, subst (2) entries.simps) (cases "find_idx op s", auto split: option.split)

lemma entries_skip:
  "CHR ''{'' \<notin> set xs \<Longrightarrow> entries (CHR ''{'' # nd) (xs @ ys) = entries (CHR ''{'' # nd) ys"
  by (induction xs) (simp_all add: entries_miss)

section \<open>SQL responses\<close>

lemma quote_notin_escape: "quote \<notin> set s \<Longrightarrow> quote \<notin> set (json_escape s)"
  by (induction s) auto

lemma sql_request_obj: "sql_request sql = render_obj [(''sql'', JStr sql)]"
  by (simp add: sql_request_def)

lemma count_sql_rows:
  assumes "quote \<notin> set x"
  shows \<open>count_occ ''"symbol":'' (sql_rows_json @ x @ ''"}'') = 3\<close>
proof -
  have x: \<open>count_occ ''"symbol":'' (x @ ''"}'') = 0\<close>
    using assms by (simp add: count_occ_skip)
  have \<open>\<not> prefix ''symbol":'' (x @ ''"}'')\<close>
    using assms prefix_cut [of quote "''symbol''" x "'':''" "''}''"] by simp
  then show ?thesis
    unfolding sql_rows_json_def by (simp add: x)
qed

text \<open>The lines that show the server's answer to an SQL query: the response and its three rows.\<close>

definition sql_answer :: "win_env \<Rightarrow> string \<Rightarrow> wstring \<Rightarrow> wstring list" where
  "sql_answer E sql ms =
     [wide ''Response payload:'', wide ''  '' @ Utf8ToWide E (handle_sql_query (sql_request sql)),
      check_mark # wide ''  Query complete '' @ en_dash # wide ''  '' @ wide ''3'' @
        wide '' row(s) returned in '' @ ms @ wide '' ms'', []]"

lemma nat_str_small: "nat_str 3 = ''3''"
  by code_simp

lemma show_sql_response:
  assumes "quote \<notin> set sql" and "sql \<noteq> []"
  shows "show_sql E (handle_sql_query (sql_request sql)) ms = sql_answer E sql ms"
proof -
  have "handle_sql_query (sql_request sql) = sql_rows_json @ json_escape sql @ ''\"}''"
    using extract_sql_request [OF assms(1)] assms(2) by (simp add: handle_sql_query_def sql_request_obj)
  then show ?thesis
    using count_sql_rows [OF quote_notin_escape [OF assms(1)]]
    by (simp add: show_sql_def sql_answer_def count_from_eq nat_str_small del: count_occ.simps)
qed

section \<open>Positions\<close>

lemma position_request_obj: "position_request acct = render_obj [(''account'', JStr acct)]"
  by (simp add: position_request_def)

lemma positions_json_entries:
  \<open>entries ''{"symbol":'' positions_json =
     [''{"symbol":"AAPL","qty":500,"avg_cost":178.30,"current":182.50,"pnl":2100.00}'',
      ''{"symbol":"MSFT","qty":200,"avg_cost":305.10,"current":310.10,"pnl":1000.00}'',
      ''{"symbol":"GOOGL","qty":50,"avg_cost":138.20,"current":140.75,"pnl":127.50}'']\<close>
  by code_simp

lemma positions_json_cash:
  "after (string_needle ''cash'') positions_json = None"
  "after (number_needle ''cash'') positions_json = Some ''12345.67}''"
  by code_simp+

definition position_line :: "win_env \<Rightarrow> nat \<Rightarrow> string \<Rightarrow> string \<Rightarrow> string \<Rightarrow> string \<Rightarrow> string \<Rightarrow> wstring" where
  "position_line E i symb qty avg cur pnl =
     wide ''  ['' @ wide (nat_str i) @ wide ''] '' @ Utf8ToWide E symb @ wide ''  qty='' @ Utf8ToWide E qty @
     wide ''  avg=$'' @ Utf8ToWide E avg @ wide ''  cur=$'' @ Utf8ToWide E cur @
     wide ''  P&L=$'' @ Utf8ToWide E pnl"

definition positions_answer :: "win_env \<Rightarrow> wstring \<Rightarrow> wstring list" where
  "positions_answer E ms =
     [wide ''Portfolio Snapshot:'',
      position_line E 1 ''AAPL'' ''500'' ''178.30'' ''182.50'' ''2100.00'',
      position_line E 2 ''MSFT'' ''200'' ''305.10'' ''310.10'' ''1000.00'',
      position_line E 3 ''GOOGL'' ''50'' ''138.20'' ''140.75'' ''127.50'',
      wide ''  Cash balance : $'' @ Utf8ToWide E ''12345.67'',
      check_mark # wide ''  Position query complete '' @ en_dash # wide ''  '' @ wide ''3'' @
        wide '' position(s) in '' @ ms @ wide '' ms'', []]"

lemma entry_fields:
  \<open>ExtractField ''{"symbol":"AAPL","qty":500,"avg_cost":178.30,"current":182.50,"pnl":2100.00}'' ''symbol'' = ''AAPL''\<close>
  \<open>ExtractField ''{"symbol":"AAPL","qty":500,"avg_cost":178.30,"current":182.50,"pnl":2100.00}'' ''qty'' = ''500''\<close>
  \<open>ExtractField ''{"symbol":"AAPL","qty":500,"avg_cost":178.30,"current":182.50,"pnl":2100.00}'' ''avg_cost'' = ''178.30''\<close>
  \<open>ExtractField ''{"symbol":"AAPL","qty":500,"avg_cost":178.30,"current":182.50,"pnl":2100.00}'' ''current'' = ''182.50''\<close>
  \<open>ExtractField ''{"symbol":"AAPL","qty":500,"avg_cost":178.30,"current":182.50,"pnl":2100.00}'' ''pnl'' = ''2100.00''\<close>
  \<open>ExtractField ''{"symbol":"MSFT","qty":200,"avg_cost":305.10,"current":310.10,"pnl":1000.00}'' ''symbol'' = ''MSFT''\<close>
  \<open>ExtractField ''{"symbol":"MSFT","qty":200,"avg_cost":305.10,"current":310.10,"pnl":1000.00}'' ''qty'' = ''200''\<close>
  \<open>ExtractField ''{"symbol":"MSFT","qty":200,"avg_cost":305.10,"current":310.10,"pnl":1000.00}'' ''avg_cost'' = ''305.10''\<close>
  \<open>ExtractField ''{"symbol":"MSFT","qty":200,"avg_cost":305.10,"current":310.10,"pnl":1000.00}'' ''current'' = ''310.10''\<close>
  \<open>ExtractField ''{"symbol":"MSFT","qty":200,"avg_cost":305.10,"current":310.10,"pnl":1000.00}'' ''pnl'' = ''1000.00''\<close>
  \<open>ExtractField ''{"symbol":"GOOGL","qty":50,"avg_cost":138.20,"current":140.75,"pnl":127.50}'' ''symbol'' = ''GOOGL''\<close>
  \<open>ExtractField ''{"symbol":"GOOGL","qty":50,"avg_cost":138.20,"current":140.75,"pnl":127.50}'' ''qty'' = ''50''\<close>
  \<open>ExtractField ''{"symbol":"GOOGL","qty":50,"avg_cost":138.20,"current":140.75,"pnl":127.50}'' ''avg_cost'' = ''138.20''\<close>
  \<open>ExtractField ''{"symbol":"GOOGL","qty":50,"avg_cost":138.20,"current":140.75,"pnl":127.50}'' ''current'' = ''140.75''\<close>
  \<open>ExtractField ''{"symbol":"GOOGL","qty":50,"avg_cost":138.20,"current":140.75,"pnl":127.50}'' ''pnl'' = ''127.50''\<close>
  by code_simp+

lemma shown_entries:
  \<open>show_position E i ''{"symbol":"AAPL","qty":500,"avg_cost":178.30,"current":182.50,"pnl":2100.00}'' =
     position_line E i ''AAPL'' ''500'' ''178.30'' ''182.50'' ''2100.00''\<close>
  \<open>show_position E i ''{"symbol":"MSFT","qty":200,"avg_cost":305.10,"current":310.10,"pnl":1000.00}'' =
     position_line E i ''MSFT'' ''200'' ''305.10'' ''310.10'' ''1000.00''\<close>
  \<open>show_position E i ''{"symbol":"GOOGL","qty":50,"avg_cost":138.20,"current":140.75,"pnl":127.50}'' =
     position_line E i ''GOOGL'' ''50'' ''138.20'' ''140.75'' ''127.50''\<close>
  unfolding show_position_def position_line_def entry_fields by (rule refl)+

lemma show_position_response:
  assumes "quote \<notin> set acct" and "CHR ''{'' \<notin> set acct" and "acct \<noteq> []"
  shows "show_positions E (handle_get_position (position_request acct)) ms = positions_answer E ms"
proof -
  have x: "extract_string (position_request acct) ''account'' = acct"
    using assms(1) unfolding position_request_obj
    by (subst extract_string_obj) (simp_all add: good_key_def field_stop_def)
  have r: \<open>handle_get_position (position_request acct) =
      ''{"account":"'' @ acct @ CHR 0x22 # CHR '','' # positions_json\<close>
    using handle_get_position_account [OF x assms(3)] by simp
  have e: \<open>entries ''{"symbol":'' (handle_get_position (position_request acct)) =
      entries ''{"symbol":'' positions_json\<close>
    unfolding r using assms(2) by (simp add: entries_miss entries_skip)
  have c: "after (quote # nd) (handle_get_position (position_request acct)) = after (quote # nd) positions_json"
    if "nd = ''cash'' @ quote # v" "v \<noteq> []" "hd v = CHR '':''" for nd v
  proof -
    have "\<not> prefix nd (acct @ quote # CHR '','' # positions_json)"
      using that assms(1) prefix_cut [of quote "''cash''" acct v "CHR '','' # positions_json"]
      by (cases v) auto
    then show ?thesis
      unfolding r using assms(1) that by (cases v) (simp_all add: after_miss after_skip)
  qed
  have cash: "ExtractField (handle_get_position (position_request acct)) ''cash'' = ''12345.67''"
    using c [of "''cash'' @ quote # '':'' @ [quote]" "'':'' @ [quote]"] c [of "''cash'' @ quote # '':''" "'':''"]
      positions_json_cash
    by (simp add: ExtractField_eq string_needle_def number_needle_def is_blank_def field_stop_def)
  show ?thesis
    unfolding show_positions_def Let_def entries_from_eq drop_0 e positions_json_entries cash
    by (simp add: shown_entries positions_answer_def nat_str_small [unfolded numeral_3_eq_3] numeral_2_eq_2 numeral_3_eq_3 upt_rec)
qed

section \<open>Price history\<close>

lemma special_chars:
  "\<not> float_char quote" "\<not> float_char CHR ''{''" "\<not> float_char CHR ''}''" "\<not> float_char CHR '',''"
  "\<not> float_char CHR '' ''" "\<not> float_char CHR 0x09"
  by (simp_all add: float_char_def is_digit_def)

lemma not_in_float: "\<forall>c \<in> set s. float_char c \<Longrightarrow> \<not> float_char q \<Longrightarrow> q \<notin> set s"
  by blast

lemma int_str_float: "\<forall>c \<in> set (int_str i). float_char c"
  using int_str_chars by (auto simp: float_char_def)

lemma format_date_float: "\<forall>c \<in> set (format_date t). float_char c"
  using format_date_chars by (auto simp: float_char_def)

lemmas value_chars = fmt_g6_text int_str_float format_date_float

lemmas value_clean = value_chars [THEN not_in_float, OF special_chars(1)]
  value_chars [THEN not_in_float, OF special_chars(2)] value_chars [THEN not_in_float, OF special_chars(3)]

lemma float_plain: "\<forall>c \<in> set s. float_char c \<Longrightarrow> plain_val (JRaw s) \<and> dropWhile is_blank s = s"
  using special_chars by (cases s) (auto simp: field_stop_def is_blank_def)

lemma not_date_key:
  "quote \<notin> set s \<Longrightarrow> c \<noteq> CHR '':'' \<Longrightarrow>
     \<not> prefix [CHR ''d'', CHR ''a'', CHR ''t'', CHR ''e'', quote, CHR '':''] (s @ quote # c # r)"
  using prefix_cut [of quote "''date''" s "'':''" "c # r"] by simp

lemma count_candle: \<open>count_occ ''"date":'' (candle_json L b now i @ rest) = Suc (count_occ ''"date":'' rest)\<close>
  by (simp add: candle_json_def Let_def count_occ_skip not_date_key value_clean)

lemma count_candles:
  \<open>count_occ ''"date":'' (concat (map (\<lambda>y. CHR '','' # candle_json L b now y) is) @ rest) =
     length is + count_occ ''"date":'' rest\<close>
  by (induction "is") (simp_all add: count_candle [simplified])

lemma candle_text: "\<exists>body. candle_json L b now i = CHR ''{'' # body @ ''}'' \<and> CHR ''}'' \<notin> set body
    \<and> prefix (quote # ''date'' @ quote # '':'') body"
  by (rule exI [of _ "tl (butlast (candle_json L b now i))"])
    (simp add: candle_json_def Let_def value_clean butlast_append)

lemma entries_candle:
  "CHR ''{'' \<notin> set pre \<Longrightarrow>
   entries (CHR ''{'' # quote # ''date'' @ quote # '':'') (pre @ candle_json L b now i @ rest) =
     candle_json L b now i # entries (CHR ''{'' # quote # ''date'' @ quote # '':'') rest"
  using candle_text [of L b now i] entries_step [of pre _ "quote # ''date'' @ quote # '':''" rest] by fastforce

lemma entries_candles:
  "entries (CHR ''{'' # quote # ''date'' @ quote # '':'')
       (concat (map (\<lambda>y. CHR '','' # candle_json L b now y) is) @ '']}'') =
     map (candle_json L b now) is"
proof (induction "is")
  case Nil
  then show ?case by (simp add: entries_none)
next
  case (Cons i "is")
  with entries_candle [of "'',''" L b now i] show ?case by simp
qed

text \<open>The line shown for the candle \<open>i\<close> days before \<open>now\<close>.\<close>

definition candle_line :: "win_env \<Rightarrow> libm \<Rightarrow> double \<Rightarrow> int \<Rightarrow> nat \<Rightarrow> wstring" where
  "candle_line E L b now i =
     (let c = candle_at L b (int i)
      in wide ''  '' @ Utf8ToWide E (format_date (now - int i * kSecsPerDay)) @
         wide ''  O='' @ trunc7 (Utf8ToWide E (fmt_g6 (c_open c))) @
         wide ''  H='' @ trunc7 (Utf8ToWide E (fmt_g6 (c_high c))) @
         wide ''  L='' @ trunc7 (Utf8ToWide E (fmt_g6 (c_low c))) @
         wide ''  C='' @ trunc7 (Utf8ToWide E (fmt_g6 (c_close c))) @
         wide ''  Vol='' @ Utf8ToWide E (int_str (c_volume c)))"

lemma show_candle_json: "show_candle E (candle_json L b now i) = candle_line E L b now i"
proof -
  let ?c = "candle_at L b (int i)"
  let ?fs = "[(''date'', JStr (format_date (now - int i * kSecsPerDay))), (''open'', JRaw (fmt_g6 (c_open ?c))),
      (''high'', JRaw (fmt_g6 (c_high ?c))), (''low'', JRaw (fmt_g6 (c_low ?c))),
      (''close'', JRaw (fmt_g6 (c_close ?c))), (''volume'', JRaw (int_str (c_volume ?c)))]"
  have p: "\<forall>f \<in> set ?fs. plain f"
    using float_plain [OF value_chars(1)] float_plain [OF value_chars(2)] value_clean(3)
    by (simp add: good_key_def field_stop_def)
  have j: "candle_json L b now i = render_obj ?fs"
    by (simp only: candle_json_obj Let_def)
  have k: "good_key ''date''" "good_key ''open''" "good_key ''high''" "good_key ''low''" "good_key ''close''"
    "good_key ''volume''"
    by (simp_all add: good_key_def field_stop_def)
  show ?thesis
    unfolding show_candle_def candle_line_def j Let_def
    using float_plain [OF value_chars(1)] float_plain [OF value_chars(2)]
    by (simp only: ExtractField_obj [OF k(1) p] ExtractField_obj [OF k(2) p] ExtractField_obj [OF k(3) p]
        ExtractField_obj [OF k(4) p] ExtractField_obj [OF k(5) p] ExtractField_obj [OF k(6) p]) simp
qed

lemma history_request_obj:
  "history_request symb (int d) = render_obj [(''symbol'', JStr symb), (''days'', JRaw (nat_str d))]"
  by (simp add: history_request_def int_str_def)

lemma history_request_fields:
  assumes "quote \<notin> set symb" and "1 \<le> d" and "d \<le> 365"
  shows "extract_string (history_request symb (int d)) ''symbol'' = symb"
    and "requested_days (history_request symb (int d)) = Some (int d)"
proof -
  have p: "\<forall>f \<in> set [(''symbol'', JStr symb), (''days'', JRaw (nat_str d))]. plain f"
    using assms(1) nat_str_digits [of d] by (auto simp: good_key_def field_stop_def is_digit_def)
  have k: "good_key ''symbol''" "good_key ''days''"
    by (simp_all add: good_key_def field_stop_def)
  show "extract_string (history_request symb (int d)) ''symbol'' = symb"
    unfolding history_request_obj by (subst extract_string_obj [OF k(1) p]) simp
  have "extract_int (history_request symb (int d)) ''days'' 30 = Some (int d)"
    unfolding history_request_obj using assms(3) by (intro extract_int_obj [OF k(2) p]) (simp_all add: INT_MAX_def)
  then show "requested_days (history_request symb (int d)) = Some (int d)"
    using assms(2,3) by (simp add: requested_days_def)
qed

lemma history_response:
  assumes "quote \<notin> set symb" and "symb \<noteq> []" and "1 \<le> d" and "d \<le> 365"
  shows \<open>handle_get_price_history L sg now (history_request symb (int d)) =
     Some (''{"symbol":"'' @ symb @ quote # '',"history":['' @
       join_comma (map (candle_json L (base_price sg (365 / 2) symb) now) (rev [0..<d])) @ '']}'')\<close>
proof -
  have "nat (int d) = d" by simp
  moreover have "candles_json L b now d d = join_comma (map (candle_json L b now) (rev [0..<d]))" for b
    using assms(3) by (intro candles_json_join) simp
  ultimately show ?thesis
    using assms(2) history_request_fields [OF assms(1,3,4)]
    by (simp add: handle_get_price_history_def Let_def)
qed

definition history_answer :: "win_env \<Rightarrow> libm \<Rightarrow> double \<Rightarrow> int \<Rightarrow> nat \<Rightarrow> wstring \<Rightarrow> wstring list" where
  "history_answer E L b now d ms =
     wide ''OHLCV Data (first 5 candles):''
     # map (candle_line E L b now) (take 5 (rev [0..<d]))
     @ (if 5 < d then
          [wide ''  ... ('' @ wide (nat_str (d - 5)) @ wide '' more candles omitted) ...''] else [])
     @ [check_mark # wide ''  Price history complete '' @ en_dash # wide ''  '' @
          wide (nat_str d) @ wide '' candles received in '' @ ms @ wide '' ms'', []]"

lemma show_history_response:
  assumes "quote \<notin> set symb" and "symb \<noteq> []" and "CHR ''{'' \<notin> set symb" and "1 \<le> d" and "d \<le> 365"
    and resp: "handle_get_price_history L sg now (history_request symb (int d)) = Some resp"
  shows "show_history E resp ms = history_answer E L (base_price sg (365 / 2) symb) now d ms"
proof -
  let ?b = "base_price sg (365 / 2) symb"
  obtain i "is" where "is": "rev [0..<d] = i # is" "length is = d - 1"
    using assms(4) by (cases "rev [0..<d]") (auto dest: arg_cong [where f = length])
  have r: \<open>resp = ''{"symbol":"'' @ symb @ quote # '',"history":['' @ candle_json L ?b now i @
      concat (map (\<lambda>y. CHR '','' # candle_json L ?b now y) is) @ '']}''\<close>
    using resp history_response [OF assms(1,2,4,5)] "is"(1)
    by (simp add: join_comma_Cons comp_def)
  have n: \<open>count_occ ''"date":'' resp = d\<close>
    unfolding r using assms(1,4) "is"(2)
    by (simp add: count_occ_skip not_date_key count_candle [simplified] count_candles [simplified])
  let ?op = "CHR ''{'' # quote # ''date'' @ quote # '':''"
  have pre: \<open>CHR ''{'' \<notin> set (''"symbol":"'' @ symb @ quote # '',"history":['')\<close>
    using assms(3) by simp
  have "entries ?op resp = entries ?op (tl resp)"
    unfolding r by (simp add: entries_miss)
  also have "\<dots> = candle_json L ?b now i # map (candle_json L ?b now) is"
    unfolding r using entries_candle [OF pre, of L ?b now i] entries_candles [of L ?b now "is"]
    by simp
  finally have e: "entries ?op resp = map (candle_json L ?b now) (rev [0..<d])"
    using "is"(1) by simp
  show ?thesis
    unfolding show_history_def Let_def entries_upto_take entries_from_eq
    using n e by (simp add: count_from_eq take_map show_candle_json history_answer_def del: count_occ.simps)
qed

section \<open>Order acknowledgements\<close>

lemma order_request_obj:
  "order_request symb qty price acct =
     render_obj [(''symbol'', JStr symb), (''qty'', JRaw (int_str qty)), (''price'', JRaw (fmt_g6 price)),
       (''account'', JStr acct)]"
  by (simp add: order_request_def)

definition ack_answer :: "win_env \<Rightarrow> string \<Rightarrow> u64 \<Rightarrow> string \<Rightarrow> int \<Rightarrow> double \<Rightarrow> wstring \<Rightarrow> wstring list" where
  "ack_answer E verb g symb qty price ms =
     [wide ''Order Acknowledgement:'',
      wide ''  Order ID : '' @ Utf8ToWide E (order_id_str g),
      wide ''  Side     : '' @ Utf8ToWide E verb,
      wide ''  Symbol   : '' @ Utf8ToWide E symb,
      wide ''  Qty      : '' @ Utf8ToWide E (int_str qty),
      wide ''  Price    : $'' @ Utf8ToWide E (fmt_g6 price),
      wide ''  Status   : '' @ Utf8ToWide E ''FILLED'',
      check_mark # wide (''  '' @ verb @ '' order '') @ Utf8ToWide E (order_id_str g) @
        wide '' acknowledged in '' @ ms @ wide '' ms'',
      []]"

text \<open>An order whose quantity and price print as plain numbers is acknowledged with its own data.\<close>

lemma show_ack_response:
  assumes "quote \<notin> set symb" and "symb \<noteq> []" and "quote \<notin> set acct"
    and "\<forall>c \<in> set (int_str qty). is_numeric c" and "\<forall>c \<in> set (fmt_g6 price). is_numeric c"
    and "fmt_g6 price \<noteq> []" and "quote \<notin> set side"
  shows "show_ack E side symb (fst (build_order_ack g (order_request symb qty price acct) side)) ms =
     ack_answer E side g symb qty price ms"
proof -
  let ?fs = "[(''symbol'', JStr symb), (''qty'', JRaw (int_str qty)), (''price'', JRaw (fmt_g6 price)),
       (''account'', JStr acct)]"
  have k: "good_key ''qty''" "good_key ''price''"
    by (simp_all add: good_key_def field_stop_def)
  have p: "\<forall>f \<in> set ?fs. plain f"
    using assms(1,3) is_numeric_plain [OF assms(4)] is_numeric_plain [OF assms(5)]
    by (simp add: good_key_def field_stop_def)
  have q: "extract_number (order_request symb qty price acct) ''qty'' = int_str qty"
    unfolding order_request_obj by (rule extract_number_obj [OF k(1) p _ assms(4)]) simp
  have r: "extract_number (order_request symb qty price acct) ''price'' = fmt_g6 price"
    unfolding order_request_obj by (rule extract_number_obj [OF k(2) p _ assms(5)]) simp
  have "int_str qty \<noteq> []" by (simp add: int_str_def)
  then show ?thesis
    using q r assms(6) by (simp add: show_ack_def ack_answer_def ack_ExtractField [OF assms(7)] or_default_def Let_def)
qed

end
