(* ===== verification/Ui_Loopback.thy ===== *)
theory Ui_Loopback
  imports Ui_Responses Session_Link
begin

text \<open>
  The user-interface client connected to a session of the server. The bytes the client will receive
  are what the session writes for the bytes it was sent; sends and receives may be cut into pieces
  of at most \<open>acc\<close> and \<open>del\<close> bytes. This is the provider that discharges the locale
  \<open>reliable_socket\<close>, and with it the client's commands are shown to work against a server on a
  big-endian host and to fail against one on a little-endian host.
\<close>

section \<open>A socket whose peer is a server session\<close>

text \<open>At most \<open>acc\<close> bytes are taken by one send and at most \<open>del\<close> delivered by one receive, but at
  least one; a receive with nothing to deliver times out.\<close>

definition loop_send_fun :: "nat \<Rightarrow> loop \<Rightarrow> bytes \<Rightarrow> nat option \<times> loop" where
  "loop_send_fun acc k data =
     (Some (min (length data) (Suc acc)), k\<lparr>lp_sent := lp_sent k @ take (min (length data) (Suc acc)) data\<rparr>)"

definition loop_recv_fun ::
  "endianness \<Rightarrow> 'w dispatch_fun \<Rightarrow> 'w \<Rightarrow> nat \<Rightarrow> loop \<Rightarrow> nat \<Rightarrow> bytes option \<times> loop" where
  "loop_recv_fun E disp w del k len =
     (let bs = take (min len (Suc del)) (loop_arrived E disp w k)
      in if loop_arrived E disp w k = [] then (None, k)
         else (Some bs, k\<lparr>lp_read := lp_read k + length bs\<rparr>))"

definition loop_api :: "endianness \<Rightarrow> 'w dispatch_fun \<Rightarrow> 'w \<Rightarrow> nat \<Rightarrow> nat \<Rightarrow> loop sock_api" where
  "loop_api E disp w acc del = \<lparr>api_send = loop_send_fun acc, api_recv = loop_recv_fun E disp w del\<rparr>"

lemma loop_send:
  "api_send (loop_api E disp w acc del) k data =
     (Some (min (length data) (Suc acc)), k\<lparr>lp_sent := lp_sent k @ take (min (length data) (Suc acc)) data\<rparr>)"
  unfolding loop_api_def sock_api.select_convs loop_send_fun_def ..

lemma loop_recv_nothing:
  assumes "loop_arrived E disp w k = []"
  shows "api_recv (loop_api E disp w acc del) k len = (None, k)"
  unfolding loop_api_def sock_api.select_convs loop_recv_fun_def using assms by (simp only: Let_def if_True simp_thms)

lemma loop_recv_bytes:
  assumes "loop_arrived E disp w k \<noteq> []" and "bs = take (min len (Suc del)) (loop_arrived E disp w k)"
  shows "api_recv (loop_api E disp w acc del) k len = (Some bs, k\<lparr>lp_read := lp_read k + length bs\<rparr>)"
  unfolding loop_api_def sock_api.select_convs loop_recv_fun_def assms(2) Let_def
  using assms(1) by (simp only: if_False)

lemma loop_recv_some:
  assumes r: "api_recv (loop_api E disp w acc del) k len = (Some bs, k')"
  shows "length bs \<le> len \<and> loop_arrived E disp w k = bs @ loop_arrived E disp w k'"
proof (cases "loop_arrived E disp w k = []")
  case True
  with r show ?thesis by (simp add: loop_recv_nothing)
next
  case False
  define m where "m = min len (Suc del)"
  define A where "A = loop_arrived E disp w k"
  from r have bs: "bs = take m A" and k': "k' = k\<lparr>lp_read := lp_read k + length bs\<rparr>"
    using loop_recv_bytes [OF False refl, of acc del len] by (auto simp: m_def A_def)
  have "take m A @ drop (length (take m A)) A = A"
    by (cases "m \<le> length A") simp_all
  then show ?thesis
    unfolding k' loop_arrived_read bs by (simp add: A_def m_def)
qed

lemma loop_recv_error:
  "api_recv (loop_api E disp w acc del) k len = (None, k') \<Longrightarrow> k' = k"
  by (cases "loop_arrived E disp w k = []") (auto simp: loop_recv_nothing loop_recv_bytes [OF _ refl])

lemma loop_recv_delivers:
  "api_recv (loop_api E disp w acc del) k len = (r, k') \<Longrightarrow> 0 < len \<Longrightarrow> loop_arrived E disp w k \<noteq> [] \<Longrightarrow>
     \<exists>bs. r = Some bs \<and> bs \<noteq> []"
  by (auto simp: loop_recv_bytes [OF _ refl])

interpretation loop_sock: reliable_socket "loop_api E disp w acc del" lp_sent "loop_arrived E disp w"
  for E :: endianness and disp :: "'w dispatch_fun" and w :: 'w and acc del :: nat
  by unfold_locales
    (auto simp: loop_send loop_recv_some intro: loop_recv_delivers dest: loop_recv_error)

lemma loop_SendAll:
  "SendAll (loop_api E disp w acc del) k data = (True, k\<lparr>lp_sent := lp_sent k @ data\<rparr>)"
proof (induction "length data" arbitrary: k data rule: less_induct)
  case less
  show ?case
  proof (cases "data = []")
    case True
    then show ?thesis by (subst SendAll.simps) simp
  next
    case False
    let ?n = "min (length data) (Suc acc)"
    have s: "api_send (loop_api E disp w acc del) k data = (Some ?n, k\<lparr>lp_sent := lp_sent k @ take ?n data\<rparr>)"
      by (rule loop_send)
    have "length (drop ?n data) < length data" using False by simp
    note ih = less.hyps [OF this, of "k\<lparr>lp_sent := lp_sent k @ take ?n data\<rparr>"]
    show ?thesis
      using False ih by (subst SendAll.simps) (simp add: s)
  qed
qed

lemma loop_RecvAll_keeps:
  "RecvAll (loop_api E disp w acc del) k len = (r, k') \<Longrightarrow>
   lp_read k \<le> length (session_output E disp w (lp_sent k)) \<Longrightarrow>
     lp_sent k' = lp_sent k \<and> lp_read k' \<le> length (session_output E disp w (lp_sent k))"
proof (induction len arbitrary: k r rule: less_induct)
  case (less len)
  show ?case
  proof (cases "len = 0")
    case True
    with less.prems show ?thesis by (simp add: RecvAll.simps)
  next
    case False
    show ?thesis
    proof (cases "loop_arrived E disp w k = []")
      case True
      with False less.prems show ?thesis
        by (subst (asm) RecvAll.simps) (simp add: loop_recv_nothing)
    next
      case ne: False
      define bs where "bs = take (min len (Suc del)) (loop_arrived E disp w k)"
      let ?k1 = "k\<lparr>lp_read := lp_read k + length bs\<rparr>"
      have s: "api_recv (loop_api E disp w acc del) k len = (Some bs, ?k1)"
        by (rule loop_recv_bytes [OF ne bs_def])
      have b: "bs \<noteq> []" using ne False by (simp add: bs_def)
      obtain q k2 where rec: "RecvAll (loop_api E disp w acc del) ?k1 (len - length bs) = (q, k2)"
        by (cases "RecvAll (loop_api E disp w acc del) ?k1 (len - length bs)")
      have "RecvAll (loop_api E disp w acc del) k len = (map_option (\<lambda>rest. bs @ rest) q, k2)"
        using False by (subst RecvAll.simps) (simp add: s b rec)
      then have k2: "k' = k2" using less.prems(1) by simp
      have "len - length bs < len" using b False by simp
      moreover have "lp_read ?k1 \<le> length (session_output E disp w (lp_sent ?k1))"
        using less.prems(2) by (simp add: bs_def loop_arrived_def)
      ultimately show ?thesis
        using less.IH [OF _ rec [folded k2]] by simp
    qed
  qed
qed

lemma loop_RecvMsg_keeps:
  assumes "RecvMsg (loop_api E disp w acc del) k = (r, k')"
    and "lp_read k \<le> length (session_output E disp w (lp_sent k))"
  shows "lp_sent k' = lp_sent k \<and> lp_read k' \<le> length (session_output E disp w (lp_sent k))"
proof -
  obtain r1 k1 where h: "RecvAll (loop_api E disp w acc del) k kHeaderSize = (r1, k1)"
    by (cases "RecvAll (loop_api E disp w acc del) k kHeaderSize")
  note k1 = loop_RecvAll_keeps [OF h assms(2)]
  have "lp_sent k2 = lp_sent k1 \<and> lp_read k2 \<le> length (session_output E disp w (lp_sent k1))"
    if "RecvAll (loop_api E disp w acc del) k1 n = (q, k2)" for n q k2
    using loop_RecvAll_keeps [OF that] k1 by simp
  with assms(1) h k1 show ?thesis
    by (auto simp: RecvMsg_def Let_def split: option.splits if_splits prod.splits)
qed

section \<open>Exchanges with the session\<close>

lemma loop_SendMsg:
  "SendMsg (loop_api E disp w acc del) k ty pl =
     (True, k\<lparr>lp_sent := lp_sent k @ frames_bytes BigEndian [frame_of ty pl]\<rparr>)"
proof -
  have "EncodeHeader (of_nat (length pl)) ty 0 = encode_header BigEndian (header (make_message ty pl 0))"
    by (simp add: EncodeHeader_eq make_message_def default_header_def)
  then show ?thesis
    by (simp add: SendMsg_def loop_SendAll frames_bytes_def frame_of_def)
qed

lemma take_frame_response:
  assumes "wire_ok (header r)" and "wire_len (header r) = length (payload r)"
  shows "take_frame ui_decode (\<lambda>(l, t). unat l) (message_bytes BigEndian r @ rest) =
     Some ((payload_length (header r), message_type (header r)), bytes_of_string (payload r), rest)"
proof -
  have e: "encode_header BigEndian (header r) =
      EncodeHeader (payload_length (header r)) (message_type (header r)) (flags (header r))"
    by (simp add: EncodeHeader_eq encode_header_def)
  have len: "length (EncodeHeader l t f) = kHeaderSize" for l t f
    by (simp add: EncodeHeader_def kHeaderSize_def)
  show ?thesis
    using assms
    by (simp add: take_frame_def message_bytes_def e len ui_decode_def DecodeHeader_EncodeHeader
        wire_ok_def wire_len_def kMaxPayload_eq not_less)
qed

lemma loop_exchange:
  assumes sync: "in_sync BigEndian disp w fs k" and pl: "length pl \<le> 16777216"
    and d: "disp (snd (serve disp w fs)) \<lparr>header = header (make_message ty pl 0), payload = pl\<rparr> = (r, w')"
    and r: "wire_ok (header r)" "wire_len (header r) = length (payload r)"
  shows "\<exists>k'. RecvMsg (loop_api BigEndian disp w acc del)
        (k\<lparr>lp_sent := lp_sent k @ frames_bytes BigEndian [frame_of ty pl]\<rparr>) =
          (Some (message_type (header r), payload r), k')
     \<and> in_sync BigEndian disp w (fs @ [frame_of ty pl]) k'"
proof -
  let ?api = "loop_api BigEndian disp w acc del"
  let ?k1 = "k\<lparr>lp_sent := lp_sent k @ frames_bytes BigEndian [frame_of ty pl]\<rparr>"
  let ?fs = "fs @ [frame_of ty pl]"
  have good: "good_frames ?fs"
    using sync make_message_ok [OF pl, of ty 0] by (auto simp: in_sync_def good_frames_def frame_of_def)
  have sent: "lp_sent ?k1 = frames_bytes BigEndian ?fs"
    using sync by (simp add: in_sync_def frames_bytes_def)
  have out: "session_output BigEndian disp w (lp_sent ?k1) =
      session_output BigEndian disp w (lp_sent k) @ message_bytes BigEndian r"
    using sync d unfolding sent session_output_frames [OF good]
    by (simp add: in_sync_def session_output_frames serve_append frame_of_def)
  have arr: "loop_arrived BigEndian disp w ?k1 = message_bytes BigEndian r @ []"
    using sync out by (simp add: loop_arrived_def in_sync_def)
  from loop_sock.RecvMsg_complete [of BigEndian disp w ?k1, unfolded arr, OF take_frame_response [OF r]]
  obtain k' where k': "RecvMsg ?api ?k1 = (Some (message_type (header r), string_of_bytes (bytes_of_string (payload r))), k')"
    and a: "loop_arrived BigEndian disp w k' = []" by blast
  have "lp_sent k' = lp_sent ?k1 \<and> lp_read k' \<le> length (session_output BigEndian disp w (lp_sent ?k1))"
    using loop_RecvMsg_keeps [OF k'] sync out by (simp add: in_sync_def)
  with a have "in_sync BigEndian disp w ?fs k'"
    using good sent by (simp add: in_sync_def loop_arrived_def)
  with k' show ?thesis by auto
qed

end
