(* ===== verification/Ui_Interop.thy ===== *)
theory Ui_Interop
  imports Ui_Menu Ui_Loopback
begin

text \<open>
  The commands of the user interface against the server: on a big-endian host every command gets its
  answer and the log shows the server's data; on a little-endian host, where the server reads a
  header's octets in the reverse order, the session refuses the first request and no command ever
  gets an answer.
\<close>

section \<open>The menu's requests\<close>

lemma price_range:
  "1 \<le> rnd64 (18250 / 100) \<and> rnd64 (18250 / 100) < 10 ^ 5"
  "1 \<le> rnd64 (31010 / 100) \<and> rnd64 (31010 / 100) < 10 ^ 5"
  "1 \<le> rnd64 183 \<and> rnd64 183 < 10 ^ 5"
  "1 \<le> rnd64 (24550 / 100) \<and> rnd64 (24550 / 100) < 10 ^ 5"
  using rnd64_between [of 1 1000 "18250 / 100"] rnd64_between [of 1 1000 "31010 / 100"]
    rnd64_between [of 1 1000 183] rnd64_between [of 1 1000 "24550 / 100"]
  by simp_all

lemmas price_length = price_range [THEN conjE, OF length_fmt_g6]

lemma fmt_g6_nonempty: "fmt_g6 x \<noteq> []"
proof -
  have "g6_body X ds \<noteq> []" if "ds \<noteq> []" for X ds
    using that by (simp add: g6_body_def with_point_def)
  then show ?thesis by (auto simp: fmt_g6_def Let_def)
qed

lemma int_str_small: "int_str 100 = ''100''" "int_str 50 = ''50''" "int_str 75 = ''75''" "int_str 200 = ''200''"
  "int_str 30 = ''30''" "int_str 7 = ''7''" "int_str 14 = ''14''"
  by code_simp+

section \<open>A little-endian server\<close>

text \<open>A link on which the session has closed without an answer, or has been sent nothing yet.\<close>

definition deaf :: "'w dispatch_fun \<Rightarrow> 'w \<Rightarrow> loop \<Rightarrow> bool" where
  "deaf disp w k \<longleftrightarrow> (\<forall>x. session_output LittleEndian disp w (lp_sent k @ x) = [])"

definition unanswered :: "'w dispatch_fun \<Rightarrow> 'w \<Rightarrow> loop ui \<Rightarrow> bool" where
  "unanswered disp w u \<longleftrightarrow> m_connected u
     \<and> (\<exists>k. m_socket u = Some k \<and> (lp_sent k = [] \<or> deaf disp w k))"

lemma refused_header:
  assumes "2 \<le> length pl mod 256"
  shows "session_output LittleEndian disp w (frames_bytes BigEndian [frame_of ty pl] @ x) = []"
proof -
  let ?h = "header (make_message ty pl 0)"
  let ?inp = "frames_bytes BigEndian [frame_of ty pl] @ x"
  have "unat (of_nat (length pl) :: u32) mod 256 = length pl mod 256"
    by (simp add: unsigned_of_nat take_bit_eq_mod mod_mod_cancel)
  then have "kMaxPayloadSize < bswap32 (payload_length ?h)"
    using assms by (intro bswap32_over_limit) simp
  then have "take_frame (decode_header LittleEndian) wire_len ?inp = None"
    by (simp add: take_frame_def frames_bytes_def frame_of_def decode_header_swapped)
  then have "split_frames (decode_header LittleEndian) wire_len ?inp = ([], ?inp)"
    by (subst split_frames.simps) simp
  moreover have "awaiting_header (start (make_session 1))"
    by (simp add: awaiting_header_def start_def do_read_header_def make_session_def)
  ultimately show ?thesis
    using run_session_refines [of "start (make_session 1)" LittleEndian disp w ?inp]
    by (auto simp: session_output_def)
qed

lemma exchange_refused:
  assumes u: "unanswered disp w u" and pl: "2 \<le> length pl mod 256"
  shows "\<exists>k'. ui_exchange (loop_api LittleEndian disp w acc del) ty pl u = (None, u\<lparr>m_socket := Some k'\<rparr>)
     \<and> deaf disp w k'"
proof -
  let ?api = "loop_api LittleEndian disp w acc del"
  obtain k where k: "m_socket u = Some k" "lp_sent k = [] \<or> deaf disp w k"
    using u by (auto simp: unanswered_def)
  let ?k = "k\<lparr>lp_sent := lp_sent k @ frames_bytes BigEndian [frame_of ty pl]\<rparr>"
  have d: "deaf disp w ?k"
    using k(2) refused_header [OF pl, of disp w ty] by (auto simp: deaf_def)
  then have "loop_arrived LittleEndian disp w ?k = []"
    unfolding deaf_def loop_arrived_def by (metis append_Nil2 drop_Nil)
  from loop_recv_nothing [OF this] have "RecvAll ?api ?k kHeaderSize = (None, ?k)"
    by (subst RecvAll.simps) (simp add: kHeaderSize_def)
  then have "RecvMsg ?api ?k = (None, ?k)" by (simp add: RecvMsg_def)
  with k(1) d show ?thesis
    by (auto simp: ui_exchange_def ui_send_def ui_recv_def loop_SendMsg)
qed

text \<open>A step that left the requests it made without an answer: the lines it logged and the state after it.\<close>

definition went_unanswered :: "'w dispatch_fun \<Rightarrow> 'w \<Rightarrow> loop ui \<Rightarrow> wstring list \<Rightarrow> int \<Rightarrow> loop ui \<Rightarrow> bool" where
  "went_unanswered disp w u ls n u' \<longleftrightarrow> unanswered disp w u' \<and> log_lines u' = log_lines u @ ls
     \<and> win u' = win u \<and> s_seq u' = s_seq u + n"

lemma unanswered_Logs [simp]: "unanswered disp w (Logs ls u) = unanswered disp w u"
  by (simp add: unanswered_def)

lemma unanswered_clock [simp]:
  "unanswered disp w (u\<lparr>clock_reads := n\<rparr>) = unanswered disp w u"
  "unanswered disp w (u\<lparr>s_seq := i\<rparr>) = unanswered disp w u"
  by (simp_all add: unanswered_def)

lemma unanswered_connected: "unanswered disp w u \<Longrightarrow> m_connected u"
  by (simp add: unanswered_def)

definition request_failed :: "wstring list" where
  "request_failed = [cross_mark # wide ''  Request failed (socket error).'', []]"

lemma run_request_refused:
  assumes "unanswered disp w u" and "2 \<le> length pl mod 256"
  shows "went_unanswered disp w u request_failed 0 (run_request (loop_api LittleEndian disp w acc del) ty pl sh u)"
  using exchange_refused [OF _ assms(2), of disp w "u\<lparr>clock_reads := Suc (clock_reads u)\<rparr>" acc del ty] assms(1)
  by (auto simp: run_request_def read_steady_def went_unanswered_def unanswered_def request_failed_def)

lemma went_after_Logs:
  "went_unanswered disp w (Logs ms u) ls n u' \<Longrightarrow> went_unanswered disp w u (ms @ ls) n u'"
  by (simp add: went_unanswered_def)

lemmas request_refused = went_after_Logs [OF run_request_refused, unfolded unanswered_Logs]

text \<open>What the commands log before their exchange; the number is the next one of \<open>RunPing\<close>.\<close>

definition sql_asked :: "win_env \<Rightarrow> string \<Rightarrow> wstring list" where
  "sql_asked E sql = heading ''SQL QUERY'' @ [wide ''SQL : '' @ Utf8ToWide E sql, wide ''Sending request...'']"

definition buy_asked :: "win_env \<Rightarrow> string \<Rightarrow> int \<Rightarrow> double \<Rightarrow> string \<Rightarrow> wstring list" where
  "buy_asked E symb qty price acct =
     heading ''BUY ORDER'' @ [order_line E symb qty price acct, wide ''Sending BUY request...'']"

definition sell_asked :: "win_env \<Rightarrow> string \<Rightarrow> int \<Rightarrow> double \<Rightarrow> string \<Rightarrow> wstring list" where
  "sell_asked E symb qty price acct =
     heading ''SELL ORDER'' @ [order_line E symb qty price acct, wide ''Sending SELL request...'']"

definition position_asked :: "win_env \<Rightarrow> string \<Rightarrow> wstring list" where
  "position_asked E acct =
     heading ''GET POSITION'' @ [wide ''Account : '' @ Utf8ToWide E acct, wide ''Sending GET POSITION request...'']"

definition history_asked :: "win_env \<Rightarrow> string \<Rightarrow> int \<Rightarrow> wstring list" where
  "history_asked E symb days =
     heading ''PRICE HISTORY'' @ [wide ''  Symbol: '' @ Utf8ToWide E symb @ wide ''  Period: '' @ wide (int_str days) @
       wide '' days'', wide ''Sending PRICE HISTORY request...'']"

definition ping_asked :: "win_env \<Rightarrow> int \<Rightarrow> wstring list" where
  "ping_asked E n = heading ''PING'' @ [wide ''Sending: '' @ Utf8ToWide E (ping_payload n)]"

definition login_asked :: "wstring list" where
  "login_asked = heading ''LOGIN'' @ [wide ''Sending authentication ping to verify session...'']"

definition logout_lines :: "wstring list" where
  "logout_lines =
     heading ''LOGOUT'' @ [wide ''Sending logout notification...'', [],
       check_mark # wide ''  Logout successful.  Goodbye, demo_user@hs-bank.com'',
       wide ''   Session closed.  All pending orders retained on the server.'', []]"

lemma sql_refused:
  assumes "unanswered disp w u" and "length sql \<le> 200"
  shows "went_unanswered disp w u (sql_asked (win u) sql @ request_failed) 0
     (RunSqlQuery (loop_api LittleEndian disp w acc del) sql u)"
proof -
  have "2 \<le> length (sql_request sql) mod 256"
    using assms(2) by (simp add: sql_request_def)
  from request_refused [OF assms(1) this] show ?thesis
    by (simp add: RunSqlQuery_def Let_def Logs_Logs unanswered_connected [OF assms(1)] flip: sql_asked_def)
qed

lemma order_refused:
  assumes "unanswered disp w u" and "length symb \<le> 20" and "length acct \<le> 20"
    and "0 \<le> qty" and "qty < 10 ^ 9" and "1 \<le> price \<and> price < 10 ^ 5"
  shows "went_unanswered disp w u (buy_asked (win u) symb qty price acct @ request_failed) 0
      (RunBuyOrder (loop_api LittleEndian disp w acc del) symb qty price acct u)"
    and "went_unanswered disp w u (sell_asked (win u) symb qty price acct @ request_failed) 0
      (RunSellOrder (loop_api LittleEndian disp w acc del) symb qty price acct u)"
proof -
  have "2 \<le> length (order_request symb qty price acct) mod 256"
    using assms(2,3) length_int_str [OF assms(4,5)] length_fmt_g6 [of price] assms(6)
    by (simp add: order_request_def)
  note r = request_refused [OF assms(1) this]
  show "went_unanswered disp w u (buy_asked (win u) symb qty price acct @ request_failed) 0
      (RunBuyOrder (loop_api LittleEndian disp w acc del) symb qty price acct u)"
    and "went_unanswered disp w u (sell_asked (win u) symb qty price acct @ request_failed) 0
      (RunSellOrder (loop_api LittleEndian disp w acc del) symb qty price acct u)"
    using r
    by (simp_all add: RunBuyOrder_def RunSellOrder_def Let_def Logs_Logs unanswered_connected [OF assms(1)]
        flip: buy_asked_def sell_asked_def)
qed

lemma position_refused:
  assumes "unanswered disp w u" and "length acct \<le> 20"
  shows "went_unanswered disp w u (position_asked (win u) acct @ request_failed) 0
      (RunGetPosition (loop_api LittleEndian disp w acc del) acct u)"
proof -
  have "2 \<le> length (position_request acct) mod 256"
    using assms(2) by (simp add: position_request_def)
  from request_refused [OF assms(1) this] show ?thesis
    by (simp add: RunGetPosition_def Let_def Logs_Logs unanswered_connected [OF assms(1)] flip: position_asked_def)
qed

lemma history_refused:
  assumes "unanswered disp w u" and "length symb \<le> 20" and "0 \<le> days" and "days < 10 ^ 9"
  shows "went_unanswered disp w u (history_asked (win u) symb days @ request_failed) 0
      (RunGetPriceHistory (loop_api LittleEndian disp w acc del) symb days u)"
proof -
  have "2 \<le> length (history_request symb days) mod 256"
    using assms(2) length_int_str [OF assms(3,4)] by (simp add: history_request_def)
  from request_refused [OF assms(1) this] show ?thesis
    by (simp add: RunGetPriceHistory_def Let_def Logs_Logs unanswered_connected [OF assms(1)] flip: history_asked_def)
qed

definition ping_failed :: "wstring list" where
  "ping_failed = [cross_mark # wide ''  Ping failed (socket error).'', []]"

lemma ping_refused:
  assumes "unanswered disp w u" and "0 \<le> s_seq u" and "s_seq u + 1 \<le> INT_MAX"
  shows "went_unanswered disp w u (ping_asked (win u) (s_seq u + 1) @ ping_failed) 1
      (RunPing (loop_api LittleEndian disp w acc del) u)"
proof -
  let ?u = "Log (wide ''Sending: '' @ Utf8ToWide (win u) (ping_payload (s_seq u + 1)))
    ((Logs (heading ''PING'') u)\<lparr>s_seq := s_seq u + 1\<rparr>)\<lparr>clock_reads := Suc (clock_reads u)\<rparr>"
  have "length (int_str (s_seq u + 1)) \<le> 10"
    using assms(2,3) by (intro length_int_str) (simp_all add: INT_MAX_def)
  then have len: "2 \<le> length (ping_payload (s_seq u + 1)) mod 256"
    by (simp add: ping_payload_def)
  have "unanswered disp w ?u"
    using assms(1) by (simp add: Log_Logs)
  from exchange_refused [OF this len, of acc del kMsgPing] obtain k' where "ui_exchange (loop_api LittleEndian disp w acc del) kMsgPing
        (ping_payload (s_seq u + 1)) ?u = (None, ?u\<lparr>m_socket := Some k'\<rparr>)" "deaf disp w k'"
    by blast
  then show ?thesis
    using assms(1) by (simp add: RunPing_def read_steady_def Log_Logs went_unanswered_def unanswered_def Let_def
        ping_asked_def ping_failed_def)
qed

definition login_failed :: "wstring list" where
  "login_failed = [cross_mark # wide ''  Login failed: server did not respond to ping.'', []]"

lemma login_refused:
  assumes "unanswered disp w u"
  shows "went_unanswered disp w u (login_asked @ login_failed) 0 (RunLogin (loop_api LittleEndian disp w acc del) u)"
proof -
  have "2 \<le> length login_payload mod 256" by (simp add: login_payload_def)
  from exchange_refused [OF _ this, of disp w "Logs login_asked u" acc del kMsgPing] assms
  show ?thesis
    by (auto simp: RunLogin_def Let_def Log_Logs Logs_Logs went_unanswered_def unanswered_def login_asked_def
        login_failed_def)
qed

text \<open>Every command of the menu: what it logs before its exchange, and after an exchange that failed.\<close>

definition symbol_query :: "string \<Rightarrow> string" where
  "symbol_query symb = ''SELECT symbol, price FROM quotes WHERE symbol='' @ [CHR 0x27] @ symb @ [CHR 0x27]"

definition all_query :: string where
  "all_query = ''SELECT symbol, price, volume FROM quotes ORDER BY volume DESC''"

definition asked :: "win_env \<Rightarrow> int \<Rightarrow> CmdId \<Rightarrow> wstring list" where
  "asked E n c =
     (case c of
        Login \<Rightarrow> login_asked
      | Ping \<Rightarrow> ping_asked E n
      | SqlQueryAapl \<Rightarrow> sql_asked E (symbol_query ''AAPL'')
      | SqlQueryMsft \<Rightarrow> sql_asked E (symbol_query ''MSFT'')
      | SqlQueryAll \<Rightarrow> sql_asked E all_query
      | BuyAapl \<Rightarrow> buy_asked E ''AAPL'' 100 (rnd64 (18250 / 100)) ''ACC-001''
      | BuyMsft \<Rightarrow> buy_asked E ''MSFT'' 50 (rnd64 (31010 / 100)) ''ACC-001''
      | SellAapl \<Rightarrow> sell_asked E ''AAPL'' 75 (rnd64 183) ''ACC-002''
      | SellTsla \<Rightarrow> sell_asked E ''TSLA'' 200 (rnd64 (24550 / 100)) ''ACC-002''
      | GetPositionAcc001 \<Rightarrow> position_asked E ''ACC-001''
      | GetPositionAcc002 \<Rightarrow> position_asked E ''ACC-002''
      | PriceHistAapl30 \<Rightarrow> history_asked E ''AAPL'' 30
      | PriceHistMsft7 \<Rightarrow> history_asked E ''MSFT'' 7
      | PriceHistGoogl14 \<Rightarrow> history_asked E ''GOOGL'' 14
      | _ \<Rightarrow> [])"

definition failure_lines :: "CmdId \<Rightarrow> wstring list" where
  "failure_lines c = (if c = Login then login_failed else if c = Ping then ping_failed else request_failed)"

text \<open>The commands that make one request and read its answer; the pings advance the sequence number.\<close>

definition single :: "CmdId \<Rightarrow> bool" where
  "single c \<longleftrightarrow> c \<noteq> Logout \<and> c \<noteq> BatchTest"

definition seq_step :: "CmdId \<Rightarrow> int" where
  "seq_step c = (if c = Ping then 1 else 0)"

lemma batch_single: "list_all single batch_commands"
  by (simp add: batch_commands_def single_def)

lemma command_refused:
  assumes "unanswered disp w u" and "0 \<le> s_seq u" and "s_seq u + seq_step c \<le> INT_MAX" and "single c"
  shows "went_unanswered disp w u (asked (win u) (s_seq u + 1) c @ failure_lines c) (seq_step c)
     (run_command (loop_api LittleEndian disp w acc del) c u)"
proof -
  have "length (symbol_query ''AAPL'') \<le> 200" "length (symbol_query ''MSFT'') \<le> 200" "length all_query \<le> 200"
    by (simp_all add: symbol_query_def all_query_def)
  note r = sql_refused [OF assms(1) this(1), of acc del] sql_refused [OF assms(1) this(2), of acc del]
    sql_refused [OF assms(1) this(3), of acc del] order_refused [OF assms(1)] position_refused [OF assms(1)]
    history_refused [OF assms(1)] ping_refused [OF assms(1,2)] login_refused [OF assms(1)]
  show ?thesis
    using assms(3,4) r price_range
    by (cases c) (simp_all add: run_command_def asked_def failure_lines_def seq_step_def single_def
        symbol_query_def all_query_def)
qed

fun refused_seq :: "win_env \<Rightarrow> int \<Rightarrow> CmdId list \<Rightarrow> wstring list" where
  "refused_seq E n [] = []"
| "refused_seq E n (c # cs) = asked E n c @ failure_lines c @ refused_seq E (n + seq_step c) cs"

lemma seq_step_nonneg: "0 \<le> seq_step c" "0 \<le> (\<Sum>c\<leftarrow>cs. seq_step c)"
  by (simp add: seq_step_def) (induction cs, simp_all add: seq_step_def)

lemma commands_refused:
  "unanswered disp w u \<Longrightarrow> 0 \<le> s_seq u \<Longrightarrow> s_seq u + (\<Sum>c\<leftarrow>cs. seq_step c) \<le> INT_MAX \<Longrightarrow> list_all single cs \<Longrightarrow>
     went_unanswered disp w u (refused_seq (win u) (s_seq u + 1) cs) (\<Sum>c\<leftarrow>cs. seq_step c)
       (fold (run_command (loop_api LittleEndian disp w acc del)) cs u)"
proof (induction cs arbitrary: u)
  case Nil
  then show ?case by (simp add: went_unanswered_def)
next
  case (Cons c cs)
  let ?u = "run_command (loop_api LittleEndian disp w acc del) c u"
  have st: "went_unanswered disp w u (asked (win u) (s_seq u + 1) c @ failure_lines c) (seq_step c) ?u"
    using Cons.prems seq_step_nonneg(2) [of cs] by (intro command_refused) simp_all
  then have "0 \<le> s_seq ?u" "s_seq ?u + (\<Sum>c\<leftarrow>cs. seq_step c) \<le> INT_MAX" "unanswered disp w ?u"
    using Cons.prems seq_step_nonneg(1) [of c] by (simp_all add: went_unanswered_def)
  with Cons.IH [of ?u] Cons.prems(4) st show ?case
    by (simp add: went_unanswered_def ac_simps)
qed

text \<open>What each command logs when no request is answered; a logout does not wait for an answer.\<close>

definition refused_lines :: "win_env \<Rightarrow> int \<Rightarrow> CmdId \<Rightarrow> wstring list" where
  "refused_lines E n c =
     (if c = Logout then logout_lines
      else if c = BatchTest then batch_start @ refused_seq E n batch_commands @ batch_end
      else asked E n c @ failure_lines c)"

lemma batch_seq: "(\<Sum>c\<leftarrow>batch_commands. seq_step c) = 1"
  by (simp add: batch_commands_def seq_step_def)

lemma batch_refused:
  assumes "unanswered disp w u" and "0 \<le> s_seq u" and "s_seq u < INT_MAX"
  shows "log_lines (RunBatchTest (loop_api LittleEndian disp w acc del) u) =
     log_lines u @ refused_lines (win u) (s_seq u + 1) BatchTest"
proof -
  have "went_unanswered disp w (Logs batch_start u) (refused_seq (win u) (s_seq u + 1) batch_commands) 1
     (fold (run_command (loop_api LittleEndian disp w acc del)) batch_commands (Logs batch_start u))"
    using commands_refused [of disp w "Logs batch_start u" batch_commands acc del] assms batch_single
    by (simp add: batch_seq)
  with assms(1) show ?thesis
    by (simp add: RunBatchTest_fold unanswered_connected went_unanswered_def refused_lines_def)
qed

lemma logout_log:
  "m_connected u \<Longrightarrow> log_lines (RunLogout (loop_api E disp w acc del) u) = log_lines u @ logout_lines"
  by (cases "m_socket u") (simp_all add: RunLogout_def DoDisconnect_def ui_send_def Let_def loop_SendMsg
      Log_Logs Logs_Logs logout_lines_def)

text \<open>C9: On a little-endian server no command of the user interface works: over a fresh connection every
  request of every menu command is refused with its header and the session answers nothing, so that the
  command logs its heading, what it asks for and the failure, and no line of data: all twelve requests
  of the batch test fail in turn.\<close>

theorem little_endian_server_refuses:
  assumes "m_connected u" and "m_socket u = Some k" and "lp_sent k = []"
    and "0 \<le> s_seq u" and "s_seq u < INT_MAX"
  shows "log_lines (run_command (loop_api LittleEndian disp w acc del) c u) =
     log_lines u @ refused_lines (win u) (s_seq u + 1) c"
proof -
  have u: "unanswered disp w u" using assms by (simp add: unanswered_def)
  have "s_seq u + seq_step c \<le> INT_MAX" using assms(5) by (simp add: seq_step_def)
  from command_refused [OF u assms(4) this, of acc del] show ?thesis
    using batch_refused [OF u assms(4,5), of acc del] logout_log [OF assms(1), of LittleEndian disp w acc del]
    by (cases "c = Logout"; cases "c = BatchTest")
      (simp_all add: run_command_def went_unanswered_def refused_lines_def single_def)
qed

theorem little_endian_server_refuses_witness:
  "let u = snd (DoConnect (Some [Some \<lparr>lp_sent = [], lp_read = 0\<rparr>]) (initial_ui ascii_env));
       P = \<lparr>plat_libm = \<lparr>sin_d = (\<lambda>x. 0), cos_d = (\<lambda>x. 1)\<rparr>, plat_char_signed = True, plat_overflow = Inr\<rparr>
   in log_lines (run_command (loop_api LittleEndian (dispatch (server_router P)) (initial_world 0) 3 5) BatchTest u)
      = log_lines u @ refused_lines (win u) (s_seq u + 1) BatchTest"
  unfolding Let_def
  by (rule little_endian_server_refuses [where k = "\<lparr>lp_sent = [], lp_read = 0\<rparr>"])
    (simp_all add: DoConnect_def initial_ui_def INT_MAX_def)

section \<open>A big-endian server\<close>

text \<open>
  A connected client whose socket is in step with a session of the server: the session has answered
  everything and the client has read it. The server, started in world \<open>w0\<close>, is now in world \<open>w\<close>.
\<close>

definition live :: "platform \<Rightarrow> world \<Rightarrow> world \<Rightarrow> loop ui \<Rightarrow> bool" where
  "live P w0 w u \<longleftrightarrow> m_connected u
     \<and> (\<exists>k fs. m_socket u = Some k \<and> in_sync BigEndian (dispatch (server_router P)) w0 fs k
           \<and> w = snd (serve (dispatch (server_router P)) w0 fs))"

lemma live_fresh:
  assumes "m_connected u" and "m_socket u = Some \<lparr>lp_sent = [], lp_read = 0\<rparr>"
  shows "live P w w u"
proof -
  have "in_sync BigEndian (dispatch (server_router P)) w [] \<lparr>lp_sent = [], lp_read = 0\<rparr>"
    using session_output_frames [of "[]" BigEndian "dispatch (server_router P)" w]
    by (simp add: in_sync_def good_frames_def frames_bytes_def)
  with assms show ?thesis
    unfolding live_def by (intro conjI exI [of _ "[]"] exI [of _ "\<lparr>lp_sent = [], lp_read = 0\<rparr>"]) simp_all
qed

lemma live_exchange:
  assumes live: "live P w0 w u" and pl: "length pl \<le> 16777216"
    and a: "answer P w t pl = Some (s, w')" and s: "length s \<le> 16777216"
  shows "\<exists>k'. ui_exchange (loop_api BigEndian (dispatch (server_router P)) w0 acc del) t pl u =
       (Some (t OR 0x8000, s), u\<lparr>m_socket := Some k'\<rparr>)
     \<and> live P w0 w' (u\<lparr>m_socket := Some k'\<rparr>)"
proof -
  let ?disp = "dispatch (server_router P)"
  obtain k fs where k: "m_socket u = Some k" and sync: "in_sync BigEndian ?disp w0 fs k"
    and w: "w = snd (serve ?disp w0 fs)" and c: "m_connected u"
    using live by (auto simp: live_def)
  let ?m = "\<lparr>header = header (make_message t pl 0), payload = pl\<rparr>"
  let ?r = "make_message (t OR 0x8000) s 0"
  have d: "?disp w ?m = (?r, w')"
    using a by (simp add: server_dispatch_answer)
  have r: "wire_ok (header ?r)" "wire_len (header ?r) = length (payload ?r)"
    by (simp_all add: make_message_ok [OF s])
  from loop_exchange [OF sync pl d [unfolded w] r, of acc del] obtain k' where k': "RecvMsg (loop_api BigEndian ?disp w0 acc del)
        (k\<lparr>lp_sent := lp_sent k @ frames_bytes BigEndian [frame_of t pl]\<rparr>) = (Some (t OR 0x8000, s), k')"
    and sync': "in_sync BigEndian ?disp w0 (fs @ [frame_of t pl]) k'"
    by (auto simp del: of_nat_numeral)
  have "snd (serve ?disp w0 (fs @ [frame_of t pl])) = w'"
    using d unfolding w by (simp add: serve_append frame_of_def case_prod_unfold Let_def)
  with sync' c have "live P w0 w' (u\<lparr>m_socket := Some k'\<rparr>)"
    by (auto simp: live_def)
  moreover have "ui_exchange (loop_api BigEndian ?disp w0 acc del) t pl u =
      (Some (t OR 0x8000, s), u\<lparr>m_socket := Some k'\<rparr>)"
    using k k' by (simp add: ui_exchange_def ui_send_def ui_recv_def loop_SendMsg)
  ultimately show ?thesis by blast
qed

text \<open>
  A step that was answered: the server is in step and in world \<open>w'\<close>, the lines \<open>ls\<close> were logged, the
  clocks were read \<open>t\<close> times, and the sequence number of the pings advanced by \<open>n\<close>.
\<close>

definition answered :: "platform \<Rightarrow> world \<Rightarrow> world \<Rightarrow> loop ui \<Rightarrow> wstring list \<Rightarrow> nat \<Rightarrow> int \<Rightarrow> loop ui \<Rightarrow> bool" where
  "answered P w0 w' u ls t n u' \<longleftrightarrow> live P w0 w' u' \<and> log_lines u' = log_lines u @ ls
     \<and> win u' = win u \<and> clock_reads u' = clock_reads u + t \<and> s_seq u' = s_seq u + n"

lemma live_updates [simp]:
  "live P w0 w (Logs ls u) = live P w0 w u" "live P w0 w (u\<lparr>clock_reads := t\<rparr>) = live P w0 w u"
  "live P w0 w (u\<lparr>s_seq := n\<rparr>) = live P w0 w u"
  "live P w0 w ((Logs ls u)\<lparr>m_socket := k\<rparr>) = live P w0 w (u\<lparr>m_socket := k\<rparr>)"
  "live P w0 w (u\<lparr>clock_reads := t, m_socket := k\<rparr>) = live P w0 w (u\<lparr>m_socket := k\<rparr>)"
  by (simp_all add: live_def)

lemma live_connected: "live P w0 w u \<Longrightarrow> m_connected u"
  by (simp add: live_def)

text \<open>The time a request took whose two clock readings are the ones from \<open>t\<close> on.\<close>

definition time_text :: "win_env \<Rightarrow> nat \<Rightarrow> wstring" where
  "time_text E t = ms_text (steady_ns E t) (steady_ns E (Suc t))"

lemma request_answered:
  assumes l: "live P w0 w u" and pl: "length pl \<le> 16777216"
    and a: "answer P w t pl = Some (s, w')" and s: "length s \<le> 16777216" and t: "t OR 0x8000 \<noteq> kRespError"
  shows "answered P w0 w' u (ls @ sh s (time_text (win u) (clock_reads u))) 2 0
     (run_request (loop_api BigEndian (dispatch (server_router P)) w0 acc del) t pl sh (Logs ls u))"
proof -
  let ?u = "(Logs ls u)\<lparr>clock_reads := Suc (clock_reads u)\<rparr>"
  have "live P w0 w ?u" using l by simp
  from live_exchange [OF this pl a s, of acc del] obtain k' where
    x: "ui_exchange (loop_api BigEndian (dispatch (server_router P)) w0 acc del) t pl ?u =
       (Some (t OR 0x8000, s), ?u\<lparr>m_socket := Some k'\<rparr>)" and l': "live P w0 w' (?u\<lparr>m_socket := Some k'\<rparr>)"
    by blast
  from t x l' show ?thesis
    by (simp add: run_request_def read_steady_def Let_def answered_def time_text_def)
qed

lemma sql_answered:
  assumes "live P w0 w u" and "quote \<notin> set sql" and "sql \<noteq> []" and "length sql \<le> 1000"
  shows "answered P w0 w u (sql_asked (win u) sql @ sql_answer (win u) sql (time_text (win u) (clock_reads u))) 2 0
     (RunSqlQuery (loop_api BigEndian (dispatch (server_router P)) w0 acc del) sql u)"
proof -
  let ?s = "handle_sql_query (sql_request sql)"
  have "?s = sql_rows_json @ json_escape sql @ ''\"}''"
    using extract_sql_request [OF assms(2)] assms(3) by (simp add: handle_sql_query_def sql_request_obj)
  then have len: "length ?s \<le> 16777216"
    using length_json_escape [of sql] assms(4) by (simp add: sql_rows_json_def)
  have a: "answer P w kMsgSqlQuery (sql_request sql) = Some (?s, w)"
    by (simp add: answer_def kMsgSqlQuery_def)
  have pl: "length (sql_request sql) \<le> 16777216"
    using assms(4) by (simp add: sql_request_def)
  from request_answered [OF assms(1) pl a len, of "sql_asked (win u) sql" "show_sql (win u)" acc del] show ?thesis
    by (simp add: RunSqlQuery_def Let_def Logs_Logs live_connected [OF assms(1)] kMsgSqlQuery_def kRespError_def
        show_sql_response [OF assms(2,3)] flip: sql_asked_def)
qed

abbreviation count_order :: "world \<Rightarrow> world" where
  "count_order w \<equiv> w\<lparr>g_order_counter := g_order_counter w + 1\<rparr>"

lemma order_answer:
  assumes "quote \<notin> set symb" and "symb \<noteq> []" and "quote \<notin> set acct" and "0 \<le> qty" and "qty < 10 ^ 9"
    and "1 \<le> price \<and> price < 10 ^ 5" and "length symb \<le> 100" and "length acct \<le> 100" and "side \<in> {''BUY'', ''SELL''}"
  defines "pl \<equiv> order_request symb qty price acct"
  shows "length pl \<le> 16777216"
    and "length (fst (build_order_ack g pl side)) \<le> 16777216"
    and "show_ack E side symb (fst (build_order_ack g pl side)) ms = ack_answer E side g symb qty price ms"
proof -
  have len: "length pl \<le> 300"
    using assms(7,8) length_int_str [OF assms(4,5)] length_fmt_g6 [of price] assms(6)
    by (simp add: pl_def order_request_def)
  then show "length pl \<le> 16777216" by simp
  show "length (fst (build_order_ack g pl side)) \<le> 16777216"
    using length_build_order_ack [of g pl side] len assms(9) by auto
  have "\<forall>c \<in> set (int_str qty). is_numeric c" "\<forall>c \<in> set (fmt_g6 price). is_numeric c"
    using int_str_chars [of _ qty] fmt_g6_chars [of price] assms(6) by (auto simp: is_numeric_def)
  then show "show_ack E side symb (fst (build_order_ack g pl side)) ms = ack_answer E side g symb qty price ms"
    unfolding pl_def using assms(1-3,9) fmt_g6_nonempty by (intro show_ack_response) auto
qed

lemma order_answered:
  assumes l: "live P w0 w u" and o: "quote \<notin> set symb" "symb \<noteq> []" "quote \<notin> set acct" "0 \<le> qty"
    "qty < 10 ^ 9" "1 \<le> price \<and> price < 10 ^ 5" "length symb \<le> 100" "length acct \<le> 100"
  defines "ms \<equiv> time_text (win u) (clock_reads u)" and "g \<equiv> g_order_counter w"
  shows "answered P w0 (count_order w) u
     (buy_asked (win u) symb qty price acct @ ack_answer (win u) ''BUY'' g symb qty price ms) 2 0
     (RunBuyOrder (loop_api BigEndian (dispatch (server_router P)) w0 acc del) symb qty price acct u)"
    and "answered P w0 (count_order w) u
     (sell_asked (win u) symb qty price acct @ ack_answer (win u) ''SELL'' g symb qty price ms) 2 0
     (RunSellOrder (loop_api BigEndian (dispatch (server_router P)) w0 acc del) symb qty price acct u)"
proof -
  let ?pl = "order_request symb qty price acct"
  note b = order_answer [OF o, of "''BUY''"] and s = order_answer [OF o, of "''SELL''"]
  have a: "answer P w kMsgBuyOrder ?pl = Some (fst (build_order_ack (g_order_counter w) ?pl ''BUY''), count_order w)"
    "answer P w kMsgSellOrder ?pl = Some (fst (build_order_ack (g_order_counter w) ?pl ''SELL''), count_order w)"
    by (simp_all add: answer_def kMsgBuyOrder_def kMsgSellOrder_def)
  show "answered P w0 (count_order w) u
     (buy_asked (win u) symb qty price acct @ ack_answer (win u) ''BUY'' g symb qty price ms) 2 0
     (RunBuyOrder (loop_api BigEndian (dispatch (server_router P)) w0 acc del) symb qty price acct u)"
    using b request_answered [OF l b(1) a(1) b(2), of "buy_asked (win u) symb qty price acct" "show_ack (win u) ''BUY'' symb"]
    by (simp add: RunBuyOrder_def Let_def Logs_Logs live_connected [OF l] kMsgBuyOrder_def kRespError_def
        ms_def g_def flip: buy_asked_def)
  show "answered P w0 (count_order w) u
     (sell_asked (win u) symb qty price acct @ ack_answer (win u) ''SELL'' g symb qty price ms) 2 0
     (RunSellOrder (loop_api BigEndian (dispatch (server_router P)) w0 acc del) symb qty price acct u)"
    using s request_answered [OF l s(1) a(2) s(2), of "sell_asked (win u) symb qty price acct" "show_ack (win u) ''SELL'' symb"]
    by (simp add: RunSellOrder_def Let_def Logs_Logs live_connected [OF l] kMsgSellOrder_def kRespError_def
        ms_def g_def flip: sell_asked_def)
qed

lemma position_answered:
  assumes l: "live P w0 w u" and q: "quote \<notin> set acct" "CHR ''{'' \<notin> set acct" "acct \<noteq> []"
    and len: "length acct \<le> 1000"
  shows "answered P w0 w u
     (position_asked (win u) acct @ positions_answer (win u) (time_text (win u) (clock_reads u))) 2 0
     (RunGetPosition (loop_api BigEndian (dispatch (server_router P)) w0 acc del) acct u)"
proof -
  let ?s = "handle_get_position (position_request acct)"
  have "extract_string (position_request acct) ''account'' = acct"
    using q(1) unfolding position_request_obj
    by (subst extract_string_obj) (simp_all add: good_key_def field_stop_def)
  from handle_get_position_account [OF this q(3)] have rl: "length ?s \<le> 16777216"
    using len by (simp add: positions_json_def)
  have a: "answer P w kMsgGetPos (position_request acct) = Some (?s, w)"
    by (simp add: answer_def kMsgGetPos_def)
  have pl: "length (position_request acct) \<le> 16777216"
    using len by (simp add: position_request_def)
  from request_answered [OF l pl a rl, of "position_asked (win u) acct" "show_positions (win u)" acc del] show ?thesis
    by (simp add: RunGetPosition_def Let_def Logs_Logs live_connected [OF l] kMsgGetPos_def kRespError_def
        show_position_response [OF q] flip: position_asked_def)
qed

definition price_answer :: "platform \<Rightarrow> win_env \<Rightarrow> world \<Rightarrow> string \<Rightarrow> nat \<Rightarrow> wstring \<Rightarrow> wstring list" where
  "price_answer P E w symb d ms =
     history_answer E (plat_libm P) (base_price (plat_char_signed P) (365 / 2) symb) (wall_clock w) d ms"

lemma history_answered:
  assumes l: "live P w0 w u" and q: "quote \<notin> set symb" "symb \<noteq> []" "CHR ''{'' \<notin> set symb" "1 \<le> d" "d \<le> 365"
    and len: "length symb \<le> 80" and L: "libm_bounded (plat_libm P)" and wok: "world_ok w"
  shows "answered P w0 w u
     (history_asked (win u) symb (int d) @ price_answer P (win u) w symb d (time_text (win u) (clock_reads u))) 2 0
     (RunGetPriceHistory (loop_api BigEndian (dispatch (server_router P)) w0 acc del) symb (int d) u)"
proof -
  let ?pl = "history_request symb (int d)"
  have pl: "length ?pl \<le> 200"
    using len length_int_str [of "int d" 3] q(5) by (simp add: history_request_def)
  obtain s where s: "handle_get_price_history (plat_libm P) (plat_char_signed P) (wall_clock w) ?pl = Some s"
    using history_response [OF q(1,2,4,5)] by blast
  have "shown_symbol ?pl = symb"
    using history_request_fields(1) [OF q(1,4,5)] q(2) by (simp add: shown_symbol_def)
  then have "length s \<le> length ?pl + 45000"
    using len wok by (intro history_response_size [OF L _ _ _ s]) (simp_all add: world_ok_def)
  then have rl: "length s \<le> 16777216" using pl by simp
  have a: "answer P w kMsgPriceHist ?pl = Some (s, w)"
    using s by (simp add: answer_def kMsgPriceHist_def)
  have pl': "length ?pl \<le> 16777216" using pl by simp
  from request_answered [OF l pl' a rl, of "history_asked (win u) symb (int d)" "show_history (win u)" acc del]
  show ?thesis
    by (simp add: RunGetPriceHistory_def Let_def Logs_Logs live_connected [OF l] kMsgPriceHist_def kRespError_def
        show_history_response [OF q(1-3) q(4,5) s] flip: history_asked_def price_answer_def)
qed

definition ping_answer :: "win_env \<Rightarrow> int \<Rightarrow> wstring \<Rightarrow> wstring list" where
  "ping_answer E n ms =
     [wide ''Response: '' @ Utf8ToWide E (ping_payload n),
      check_mark # wide ''  Pong received in '' @ ms @ wide '' ms'', []]"

lemma ping_answered:
  assumes l: "live P w0 w u" and seq: "0 \<le> s_seq u" "s_seq u + 1 \<le> INT_MAX"
  shows "answered P w0 w u
     (ping_asked (win u) (s_seq u + 1) @ ping_answer (win u) (s_seq u + 1) (time_text (win u) (clock_reads u))) 2 1
     (RunPing (loop_api BigEndian (dispatch (server_router P)) w0 acc del) u)"
proof -
  let ?pl = "ping_payload (s_seq u + 1)" and ?api = "loop_api BigEndian (dispatch (server_router P)) w0 acc del"
  let ?u = "Log (wide ''Sending: '' @ Utf8ToWide (win u) ?pl)
    ((Logs (heading ''PING'') u)\<lparr>s_seq := s_seq u + 1\<rparr>)\<lparr>clock_reads := Suc (clock_reads u)\<rparr>"
  have "length (int_str (s_seq u + 1)) \<le> 10"
    using seq by (intro length_int_str) (simp_all add: INT_MAX_def)
  then have pl: "length ?pl \<le> 16777216"
    by (simp add: ping_payload_def)
  have a: "answer P w kMsgPing ?pl = Some (?pl, w)"
    by (simp add: answer_def kMsgPing_def ping_payload_def)
  have "live P w0 w ?u" using l by (simp add: Log_Logs)
  from live_exchange [OF this pl a pl, of acc del] obtain k' where
    x: "ui_exchange ?api kMsgPing ?pl ?u = (Some (kMsgPing OR 0x8000, ?pl), ?u\<lparr>m_socket := Some k'\<rparr>)"
    and l': "live P w0 w (?u\<lparr>m_socket := Some k'\<rparr>)"
    by blast
  from x l' show ?thesis
    by (simp add: RunPing_def Let_def read_steady_def Log_Logs live_connected [OF l] answered_def ping_asked_def
        ping_answer_def time_text_def)
qed

definition login_answer :: "win_env \<Rightarrow> nat \<Rightarrow> wstring list" where
  "login_answer E t =
     [wide ''Server responded: '' @ Utf8ToWide E login_payload, [],
      check_mark # wide ''  Login successful.  Authenticated as: demo_user@hs-bank.com'',
      wide ''   Session token  : SESS-'' @ wide (nat_str (unat (tick_count E t AND 0xFFFFFF))),
      wide ''   Account access : ACC-001, ACC-002'', wide ''   Permissions    : TRADING, REPORTING, MARKET_DATA'', []]"

lemma login_answered:
  assumes l: "live P w0 w u"
  shows "answered P w0 w u (login_asked @ login_answer (win u) (clock_reads u)) 1 0
     (RunLogin (loop_api BigEndian (dispatch (server_router P)) w0 acc del) u)"
proof -
  have pl: "length login_payload \<le> 16777216" by (simp add: login_payload_def)
  have a: "answer P w kMsgPing login_payload = Some (login_payload, w)"
    by (simp add: answer_def kMsgPing_def login_payload_def)
  have "live P w0 w (Logs login_asked u)" using l by simp
  from live_exchange [OF this pl a pl, of acc del] obtain k' where
    x: "ui_exchange (loop_api BigEndian (dispatch (server_router P)) w0 acc del) kMsgPing login_payload (Logs login_asked u) =
       (Some (kMsgPing OR 0x8000, login_payload), (Logs login_asked u)\<lparr>m_socket := Some k'\<rparr>)"
    and l': "live P w0 w ((Logs login_asked u)\<lparr>m_socket := Some k'\<rparr>)" by blast
  from x l' show ?thesis
    by (simp add: RunLogin_def Let_def read_ticks_def Log_Logs Logs_Logs live_connected [OF l] answered_def
        login_answer_def flip: login_asked_def)
qed
text \<open>What each command is expected to log after its exchange, and the orders it places.\<close>

definition answer_lines :: "platform \<Rightarrow> win_env \<Rightarrow> world \<Rightarrow> nat \<Rightarrow> int \<Rightarrow> CmdId \<Rightarrow> wstring list" where
  "answer_lines P E w t n c =
     (let ms = time_text E t; g = g_order_counter w
      in case c of
           Login \<Rightarrow> login_answer E t
         | Ping \<Rightarrow> ping_answer E n ms
         | SqlQueryAapl \<Rightarrow> sql_answer E (symbol_query ''AAPL'') ms
         | SqlQueryMsft \<Rightarrow> sql_answer E (symbol_query ''MSFT'') ms
         | SqlQueryAll \<Rightarrow> sql_answer E all_query ms
         | BuyAapl \<Rightarrow> ack_answer E ''BUY'' g ''AAPL'' 100 (rnd64 (18250 / 100)) ms
         | BuyMsft \<Rightarrow> ack_answer E ''BUY'' g ''MSFT'' 50 (rnd64 (31010 / 100)) ms
         | SellAapl \<Rightarrow> ack_answer E ''SELL'' g ''AAPL'' 75 (rnd64 183) ms
         | SellTsla \<Rightarrow> ack_answer E ''SELL'' g ''TSLA'' 200 (rnd64 (24550 / 100)) ms
         | GetPositionAcc001 \<Rightarrow> positions_answer E ms
         | GetPositionAcc002 \<Rightarrow> positions_answer E ms
         | PriceHistAapl30 \<Rightarrow> price_answer P E w ''AAPL'' 30 ms
         | PriceHistMsft7 \<Rightarrow> price_answer P E w ''MSFT'' 7 ms
         | PriceHistGoogl14 \<Rightarrow> price_answer P E w ''GOOGL'' 14 ms
         | _ \<Rightarrow> [])"

definition is_order :: "CmdId \<Rightarrow> bool" where
  "is_order c \<longleftrightarrow> c \<in> {BuyAapl, BuyMsft, SellAapl, SellTsla}"

definition order_step :: "CmdId \<Rightarrow> world \<Rightarrow> world" where
  "order_step c w = (if is_order c then count_order w else w)"

definition clock_step :: "CmdId \<Rightarrow> nat" where
  "clock_step c = (if c = Login then 1 else 2)"

lemma command_answered:
  assumes l: "live P w0 w u" and seq: "0 \<le> s_seq u" "s_seq u + seq_step c \<le> INT_MAX"
    and L: "libm_bounded (plat_libm P)" "world_ok w" and c: "single c"
  shows "answered P w0 (order_step c w) u
     (asked (win u) (s_seq u + 1) c @ answer_lines P (win u) w (clock_reads u) (s_seq u + 1) c)
     (clock_step c) (seq_step c)
     (run_command (loop_api BigEndian (dispatch (server_router P)) w0 acc del) c u)"
proof -
  have q: "quote \<notin> set (symbol_query ''AAPL'')" "quote \<notin> set (symbol_query ''MSFT'')" "quote \<notin> set all_query"
    "symbol_query x \<noteq> []" "all_query \<noteq> []" "length (symbol_query ''AAPL'') \<le> 1000"
    "length (symbol_query ''MSFT'') \<le> 1000" "length all_query \<le> 1000" for x
    by (simp_all add: symbol_query_def all_query_def)
  note defs = run_command_def asked_def answer_lines_def Let_def CmdId.case
  note steps = order_step_def is_order_def clock_step_def seq_step_def
  note sql = sql_answered [OF l q(1,4,6), of acc del] sql_answered [OF l q(2,4,7), of acc del]
    sql_answered [OF l q(3,5,8), of acc del]
  note hist = history_answered [OF l _ _ _ _ _ _ L, where d = "numeral n" for n, unfolded of_nat_numeral]
  show ?thesis
  proof (cases c)
    case Login
    with login_answered [OF l] show ?thesis by (simp add: defs steps)
  next
    case Ping
    with ping_answered [OF l seq(1)] seq(2) show ?thesis by (simp add: defs steps)
  qed (use c sql order_answered [OF l] position_answered [OF l] hist price_range in
      \<open>simp_all add: defs steps single_def symbol_query_def all_query_def\<close>)
qed

lemma world_ok_order [simp]: "world_ok (order_step c w) = world_ok w"
  by (simp add: order_step_def world_ok_def)

fun answered_seq :: "platform \<Rightarrow> win_env \<Rightarrow> world \<Rightarrow> nat \<Rightarrow> int \<Rightarrow> CmdId list \<Rightarrow> wstring list" where
  "answered_seq P E w t n [] = []"
| "answered_seq P E w t n (c # cs) =
     asked E n c @ answer_lines P E w t n c
     @ answered_seq P E (order_step c w) (t + clock_step c) (n + seq_step c) cs"

lemma commands_answered:
  "live P w0 w u \<Longrightarrow> 0 \<le> s_seq u \<Longrightarrow> s_seq u + (\<Sum>c\<leftarrow>cs. seq_step c) \<le> INT_MAX \<Longrightarrow> libm_bounded (plat_libm P) \<Longrightarrow>
   world_ok w \<Longrightarrow> list_all single cs \<Longrightarrow>
     answered P w0 (fold order_step cs w) u (answered_seq P (win u) w (clock_reads u) (s_seq u + 1) cs)
       (\<Sum>c\<leftarrow>cs. clock_step c) (\<Sum>c\<leftarrow>cs. seq_step c)
       (fold (run_command (loop_api BigEndian (dispatch (server_router P)) w0 acc del)) cs u)"
proof (induction cs arbitrary: u w)
  case Nil
  then show ?case by (simp add: answered_def)
next
  case (Cons c cs)
  let ?u = "run_command (loop_api BigEndian (dispatch (server_router P)) w0 acc del) c u"
  have st: "answered P w0 (order_step c w) u
     (asked (win u) (s_seq u + 1) c @ answer_lines P (win u) w (clock_reads u) (s_seq u + 1) c)
     (clock_step c) (seq_step c) ?u"
    using Cons.prems seq_step_nonneg(2) [of cs] by (intro command_answered) simp_all
  then have "0 \<le> s_seq ?u" "s_seq ?u + (\<Sum>c\<leftarrow>cs. seq_step c) \<le> INT_MAX" "live P w0 (order_step c w) ?u"
    using Cons.prems seq_step_nonneg(1) [of c] by (simp_all add: answered_def)
  with Cons.IH [of "order_step c w" ?u] Cons.prems(4-6) st show ?case
    by (simp add: answered_def ac_simps)
qed

definition expected_lines :: "platform \<Rightarrow> win_env \<Rightarrow> world \<Rightarrow> nat \<Rightarrow> int \<Rightarrow> CmdId \<Rightarrow> wstring list" where
  "expected_lines P E w t n c =
     (if c = Logout then logout_lines
      else if c = BatchTest then batch_start @ answered_seq P E w t n batch_commands @ batch_end
      else asked E n c @ answer_lines P E w t n c)"

definition orders_placed :: "CmdId \<Rightarrow> u64" where
  "orders_placed c = (if c = BatchTest then 4 else if is_order c then 1 else 0)"

lemma batch_orders: "fold order_step batch_commands w = w\<lparr>g_order_counter := g_order_counter w + 4\<rparr>"
  by (simp add: batch_commands_def order_step_def is_order_def)

lemma batch_answered:
  assumes l: "live P w0 w u" and seq: "0 \<le> s_seq u" "s_seq u < INT_MAX"
    and L: "libm_bounded (plat_libm P)" "world_ok w"
    and u': "u' = RunBatchTest (loop_api BigEndian (dispatch (server_router P)) w0 acc del) u"
  shows "log_lines u' = log_lines u @ expected_lines P (win u) w (clock_reads u) (s_seq u + 1) BatchTest
     \<and> live P w0 (w\<lparr>g_order_counter := g_order_counter w + 4\<rparr>) u'"
proof -
  let ?u = "Logs batch_start u"
  have "live P w0 w ?u" "0 \<le> s_seq ?u" "s_seq ?u + (\<Sum>c\<leftarrow>batch_commands. seq_step c) \<le> INT_MAX"
    using l seq by (simp_all add: batch_seq)
  from commands_answered [OF this L batch_single, of acc del] show ?thesis
    by (simp add: u' RunBatchTest_fold live_connected [OF l] answered_def batch_orders expected_lines_def)
qed

lemma command_served:
  assumes "live P w0 w u" and "0 \<le> s_seq u" and "s_seq u < INT_MAX"
    and "libm_bounded (plat_libm P)" and "world_ok w"
    and u': "u' = run_command (loop_api BigEndian (dispatch (server_router P)) w0 acc del) c u"
  shows "log_lines u' = log_lines u @ expected_lines P (win u) w (clock_reads u) (s_seq u + 1) c
     \<and> (m_connected u' \<longleftrightarrow> c \<noteq> Logout)
     \<and> (c = Logout \<or> live P w0 (w\<lparr>g_order_counter := g_order_counter w + orders_placed c\<rparr>) u')"
proof -
  have conn: "m_connected u" by (rule live_connected [OF assms(1)])
  consider "c = Logout" | "c = BatchTest" | "single c" by (auto simp: single_def)
  then show ?thesis
  proof cases
    case 1
    with conn logout_log [OF conn, of BigEndian "dispatch (server_router P)" w0 acc del] assms(1)
    show ?thesis
      by (auto simp: u' run_command_def expected_lines_def RunLogout_def Let_def DoDisconnect_def ui_send_def
          loop_SendMsg live_def Log_Logs)
  next
    case 2
    with batch_answered [OF assms(1-5) refl, of acc del] show ?thesis
      by (auto simp: u' run_command_def orders_placed_def dest: live_connected)
  next
    case 3
    have "s_seq u + seq_step c \<le> INT_MAX" using assms(3) by (simp add: seq_step_def)
    from command_answered [OF assms(1,2) this assms(4,5) 3, of acc del] 3
    have "live P w0 (order_step c w) u'" "log_lines u' = log_lines u @ expected_lines P (win u) w (clock_reads u) (s_seq u + 1) c"
      by (simp_all add: answered_def u' expected_lines_def single_def)
    moreover have "w\<lparr>g_order_counter := g_order_counter w + orders_placed c\<rparr> = order_step c w"
      using 3 by (simp add: orders_placed_def order_step_def single_def)
    ultimately show ?thesis using 3 live_connected by (auto simp: single_def)
  qed
qed

text \<open>C8: Against a server on a big-endian host every command of the menu works: over a connection that is
  in step with its session it logs, line by line, what it asks for and the answers of the services (the
  echoed ping, the three quotes, an acknowledgement with the next order number, the three positions
  and the cash, the first five candles of the price history and the number left out) with the time
  each took, the batch test all twelve in a row, and the connection is in step again, the server's order
  counter advanced by the orders placed.\<close>

theorem big_endian_server_answers:
  assumes "live P w0 w u" and "0 \<le> s_seq u" and "s_seq u < INT_MAX"
    and "libm_bounded (plat_libm P)" and "world_ok w"
    and "u' = run_command (loop_api BigEndian (dispatch (server_router P)) w0 acc del) c u"
  shows "log_lines u' = log_lines u @ expected_lines P (win u) w (clock_reads u) (s_seq u + 1) c
     \<and> (m_connected u' \<longleftrightarrow> c \<noteq> Logout)
     \<and> (c = Logout \<or> live P w0 (w\<lparr>g_order_counter := g_order_counter w + orders_placed c\<rparr>) u')"
  using assms by (rule command_served)

theorem big_endian_server_answers_witness:
  "let P = \<lparr>plat_libm = \<lparr>sin_d = (\<lambda>x. 0), cos_d = (\<lambda>x. 1)\<rparr>, plat_char_signed = True, plat_overflow = Inr\<rparr>;
       w = initial_world 1700000000;
       u = snd (DoConnect (Some [None, Some \<lparr>lp_sent = [], lp_read = 0\<rparr>]) (initial_ui ascii_env));
       u' = run_command (loop_api BigEndian (dispatch (server_router P)) w 3 5) BatchTest u
   in log_lines u' = log_lines u @ expected_lines P (win u) w (clock_reads u) (s_seq u + 1) BatchTest
     \<and> (m_connected u' \<longleftrightarrow> BatchTest \<noteq> Logout)
     \<and> (BatchTest = Logout \<or> live P w (w\<lparr>g_order_counter := g_order_counter w + orders_placed BatchTest\<rparr>) u')"
  unfolding Let_def
  by (rule big_endian_server_answers [OF live_fresh _ _ _ _ refl])
    (simp_all add: DoConnect_def initial_ui_def initial_world_def world_ok_def libm_bounded_def INT_MAX_def)

section \<open>A response that came too late\<close>

text \<open>
  The client sets a time-out for receives (\<open>SO_RCVTIMEO\<close>). A response that has not begun to arrive when it
  strikes makes the first receive fail, with nothing read; the response still comes, later. What is
  assumed here is that the socket goes on working after that, as it does in practice; the
  documentation of Winsock calls its state indeterminate. \<open>late_api\<close> is the session's connection during
  such a command: it takes what is sent, and its receives time out.
\<close>

definition late_api :: "nat \<Rightarrow> loop sock_api" where
  "late_api acc = \<lparr>api_send = loop_send_fun acc, api_recv = (\<lambda>k len. (None, k))\<rparr>"

lemma SendAll_same: "api_send api = api_send api' \<Longrightarrow> SendAll api k data = SendAll api' k data"
proof (induction "length data" arbitrary: k data rule: less_induct)
  case less
  show ?case
    using less.hyps [OF _ less.prems] less.prems
    by (subst (1 2) SendAll.simps) (auto split: option.split prod.split)
qed

lemma late_exchange:
  assumes "m_socket u = Some k"
  shows "ui_exchange (late_api acc) t pl u =
     (None, u\<lparr>m_socket := Some (k\<lparr>lp_sent := lp_sent k @ frames_bytes BigEndian [frame_of t pl]\<rparr>)\<rparr>)"
proof -
  have "api_send (late_api acc) = api_send (loop_api BigEndian (\<lambda>w m. (m, w)) () acc 0)"
    by (simp add: late_api_def loop_api_def)
  note same = SendAll_same [OF this]
  have "SendAll (late_api acc) = SendAll (loop_api BigEndian (\<lambda>w m. (m, w)) () acc 0)"
    by (intro ext) (rule same)
  then have s: "SendMsg (late_api acc) k t pl =
      (True, k\<lparr>lp_sent := lp_sent k @ frames_bytes BigEndian [frame_of t pl]\<rparr>)"
    using loop_SendMsg [of BigEndian "\<lambda>w m. (m, w)" "()" acc 0 k t pl] by (simp only: SendMsg_def)
  have "RecvAll (late_api acc) k' kHeaderSize = (None, k')" for k'
    by (subst RecvAll.simps) (simp add: late_api_def kHeaderSize_def)
  then have "RecvMsg (late_api acc) k' = (None, k')" for k'
    by (simp add: RecvMsg_def)
  with s assms show ?thesis by (simp add: ui_exchange_def ui_send_def ui_recv_def)
qed

text \<open>After it the client is one response behind; \<open>f\<close> is the request whose response was not read.\<close>

definition one_behind :: "platform \<Rightarrow> world \<Rightarrow> world \<Rightarrow> u16 \<times> string \<Rightarrow> loop ui \<Rightarrow> bool" where
  "one_behind P w0 w f u \<longleftrightarrow> m_connected u \<and> length (snd f) \<le> 16777216
     \<and> (\<exists>k fs. m_socket u = Some k \<and> good_frames fs
           \<and> lp_sent k = frames_bytes BigEndian (fs @ [frame_of (fst f) (snd f)])
           \<and> lp_read k = length (session_output BigEndian (dispatch (server_router P)) w0 (frames_bytes BigEndian fs))
           \<and> w = snd (serve (dispatch (server_router P)) w0 fs))"

lemma behind_exchange:
  assumes b: "one_behind P w0 w (t1, pl1) u" and pl: "length pl2 \<le> 16777216"
    and a1: "answer P w t1 pl1 = Some (s1, w1)" and s1: "length s1 \<le> 16777216"
    and a2: "answer P w1 t2 pl2 = Some (s2, w2)"
  shows "\<exists>k'. ui_exchange (loop_api BigEndian (dispatch (server_router P)) w0 acc del) t2 pl2 u =
       (Some (t1 OR 0x8000, s1), u\<lparr>m_socket := Some k'\<rparr>)
     \<and> one_behind P w0 w1 (t2, pl2) (u\<lparr>m_socket := Some k'\<rparr>)"
proof -
  let ?disp = "dispatch (server_router P)" and ?api = "loop_api BigEndian (dispatch (server_router P)) w0 acc del"
  from b obtain k fs where k: "m_socket u = Some k" and g: "good_frames fs" and c: "m_connected u"
    and pl1: "length pl1 \<le> 16777216"
    and sent: "lp_sent k = frames_bytes BigEndian (fs @ [frame_of t1 pl1])"
    and rd: "lp_read k = length (session_output BigEndian ?disp w0 (frames_bytes BigEndian fs))"
    and w: "w = snd (serve ?disp w0 fs)" by (auto simp: one_behind_def)
  let ?fs = "fs @ [frame_of t1 pl1]"
  let ?k = "k\<lparr>lp_sent := lp_sent k @ frames_bytes BigEndian [frame_of t2 pl2]\<rparr>"
  let ?r1 = "make_message (t1 OR 0x8000) s1 0" and ?r2 = "make_message (t2 OR 0x8000) s2 0"
  note o1 = session_output_snoc [OF g pl1 a1 [unfolded w]]
  note o2 = session_output_snoc [OF o1(3) pl a2 [folded o1(2)]]
  have sk: "lp_sent ?k = frames_bytes BigEndian (?fs @ [frame_of t2 pl2])"
    by (simp add: sent frames_bytes_def)
  have out: "session_output BigEndian ?disp w0 (lp_sent ?k) =
      session_output BigEndian ?disp w0 (frames_bytes BigEndian fs) @ message_bytes BigEndian ?r1 @ message_bytes BigEndian ?r2"
    unfolding sk o2(1) o1(1) by simp
  have arr: "loop_arrived BigEndian ?disp w0 ?k = message_bytes BigEndian ?r1 @ message_bytes BigEndian ?r2"
    unfolding loop_arrived_def out by (simp add: rd)
  have r: "wire_ok (header ?r1)" "wire_len (header ?r1) = length (payload ?r1)"
    by (simp_all add: make_message_ok [OF s1])
  from loop_sock.RecvMsg_complete [of BigEndian ?disp w0 ?k, unfolded arr, OF take_frame_response [OF r]]
  obtain k' where k': "RecvMsg ?api ?k = (Some (t1 OR 0x8000, s1), k')"
    and a': "loop_arrived BigEndian ?disp w0 k' = message_bytes BigEndian ?r2" by auto
  have keep: "lp_sent k' = lp_sent ?k \<and> lp_read k' \<le> length (session_output BigEndian ?disp w0 (lp_sent ?k))"
    using loop_RecvMsg_keeps [OF k'] out by (simp add: rd)
  have "length (session_output BigEndian ?disp w0 (lp_sent ?k)) - lp_read k' = length (message_bytes BigEndian ?r2)"
    using arg_cong [OF a', of length] keep by (simp add: loop_arrived_def)
  with keep [THEN conjunct2]
  have rk: "lp_read k' = length (session_output BigEndian ?disp w0 (frames_bytes BigEndian ?fs))"
    unfolding out o1(1) length_append by linarith
  have "one_behind P w0 w1 (t2, pl2) (u\<lparr>m_socket := Some k'\<rparr>)"
    unfolding one_behind_def using c pl o1(3) keep rk sk o1(2)
    by (intro conjI exI [of _ k'] exI [of _ ?fs]) simp_all
  moreover have "ui_exchange ?api t2 pl2 u = (Some (t1 OR 0x8000, s1), u\<lparr>m_socket := Some k'\<rparr>)"
    using k k' by (simp add: ui_exchange_def ui_send_def ui_recv_def loop_SendMsg)
  ultimately show ?thesis by blast
qed

lemma late_leaves_behind:
  assumes l: "live P w0 w u" and pl: "length pl \<le> 16777216"
  shows "\<exists>u'. run_request (late_api acc) t pl sh u =
       Logs [cross_mark # wide ''  Request failed (socket error).'', []] u'
     \<and> one_behind P w0 w (t, pl) u' \<and> log_lines u' = log_lines u \<and> win u' = win u
     \<and> clock_reads u' = Suc (clock_reads u)"
proof -
  obtain k fs where k: "m_socket u = Some k" "m_connected u" "w = snd (serve (dispatch (server_router P)) w0 fs)"
    and f: "good_frames fs" "lp_sent k = frames_bytes BigEndian fs"
      "lp_read k = length (session_output BigEndian (dispatch (server_router P)) w0 (lp_sent k))"
    using l by (auto simp: live_def in_sync_def)
  let ?k = "k\<lparr>lp_sent := lp_sent k @ frames_bytes BigEndian [frame_of t pl]\<rparr>"
  let ?u = "u\<lparr>clock_reads := Suc (clock_reads u), m_socket := Some ?k\<rparr>"
  have "one_behind P w0 w (t, pl) ?u"
    unfolding one_behind_def using k f pl
    by (intro conjI exI [of _ ?k] exI [of _ fs]) (simp_all add: frames_bytes_def)
  moreover have "run_request (late_api acc) t pl sh u =
      Logs [cross_mark # wide ''  Request failed (socket error).'', []] ?u"
    using late_exchange [of "u\<lparr>clock_reads := Suc (clock_reads u)\<rparr>" k acc t pl] k(1)
    by (simp add: run_request_def read_steady_def)
  ultimately show ?thesis by (intro exI [of _ ?u]) simp
qed

lemma behind_request:
  assumes "one_behind P w0 w (t1, pl1) u" and "length pl2 \<le> 16777216"
    and "answer P w t1 pl1 = Some (s1, w1)" and "length s1 \<le> 16777216"
    and "answer P w1 t2 pl2 = Some (s2, w2)" and "t1 OR 0x8000 \<noteq> kRespError"
  shows "\<exists>u'. run_request (loop_api BigEndian (dispatch (server_router P)) w0 acc del) t2 pl2 sh u =
       Logs (sh s1 (time_text (win u) (clock_reads u))) u'
     \<and> one_behind P w0 w1 (t2, pl2) u' \<and> log_lines u' = log_lines u \<and> win u' = win u
     \<and> clock_reads u' = Suc (Suc (clock_reads u))"
proof -
  let ?u = "u\<lparr>clock_reads := Suc (clock_reads u)\<rparr>"
  have "one_behind P w0 w (t1, pl1) ?u" using assms(1) by (simp add: one_behind_def)
  from behind_exchange [OF this assms(2-5), of acc del] obtain k' where
    x: "ui_exchange (loop_api BigEndian (dispatch (server_router P)) w0 acc del) t2 pl2 ?u =
       (Some (t1 OR 0x8000, s1), ?u\<lparr>m_socket := Some k'\<rparr>)"
    and b: "one_behind P w0 w1 (t2, pl2) (?u\<lparr>m_socket := Some k'\<rparr>)" by blast
  then show ?thesis
    using assms(6)
    by (intro exI [of _ "?u\<lparr>m_socket := Some k', clock_reads := Suc (Suc (clock_reads u))\<rparr>"])
      (simp add: run_request_def read_steady_def x time_text_def one_behind_def)
qed

lemma one_behind_Logs [simp]: "one_behind P w0 w f (Logs ls u) = one_behind P w0 w f u"
  by (simp add: one_behind_def)

text \<open>
  A sequence of requests with the way each one's response is shown; what the server would answer to
  each, in order; and what the client shows when each one gets the answer of the one before.
\<close>

type_synonym shown_request = "u16 \<times> string \<times> (string \<Rightarrow> wstring \<Rightarrow> wstring list)"

fun all_answered :: "platform \<Rightarrow> world \<Rightarrow> shown_request list \<Rightarrow> bool" where
  "all_answered P w [] = True"
| "all_answered P w ((t, pl, sh) # rs) \<longleftrightarrow>
     length pl \<le> 16777216 \<and> t OR 0x8000 \<noteq> kRespError
     \<and> (case answer P w t pl of None \<Rightarrow> False | Some (s, w') \<Rightarrow> length s \<le> 16777216 \<and> all_answered P w' rs)"

fun answers_of :: "platform \<Rightarrow> world \<Rightarrow> shown_request list \<Rightarrow> string list" where
  "answers_of P w [] = []"
| "answers_of P w ((t, pl, sh) # rs) =
     (case answer P w t pl of None \<Rightarrow> [] | Some (s, w') \<Rightarrow> s # answers_of P w' rs)"

fun late_shows :: "win_env \<Rightarrow> nat \<Rightarrow> shown_request list \<Rightarrow> string list \<Rightarrow> wstring list" where
  "late_shows E n ((t, pl, sh) # rs) (s # ss) = sh s (time_text E n) @ late_shows E (n + 2) rs ss"
| "late_shows E n _ _ = []"

abbreviation run_all :: "loop sock_api \<Rightarrow> shown_request list \<Rightarrow> loop ui \<Rightarrow> loop ui" where
  "run_all api rs u \<equiv> fold (\<lambda>(t, pl, sh). run_request api t pl sh) rs u"

lemma behind_all:
  assumes "one_behind P w0 w (t, pl) u" and "all_answered P w ((t, pl, sh) # rs)"
  shows "log_lines (run_all (loop_api BigEndian (dispatch (server_router P)) w0 acc del) rs u) =
     log_lines u @ late_shows (win u) (clock_reads u) rs (answers_of P w ((t, pl, sh) # rs))"
  using assms
proof (induction rs arbitrary: w t pl sh u)
  case Nil
  then show ?case by (auto split: option.splits)
next
  case (Cons r rs)
  obtain t2 pl2 sh2 where r: "r = (t2, pl2, sh2)" by (cases r)
  from Cons.prems(2) obtain s1 w1 where a: "answer P w t pl = Some (s1, w1)" "length s1 \<le> 16777216"
    "t OR 0x8000 \<noteq> kRespError" "all_answered P w1 ((t2, pl2, sh2) # rs)"
    by (auto simp: r split: option.splits)
  then obtain s2 w2 where a2: "answer P w1 t2 pl2 = Some (s2, w2)" "length pl2 \<le> 16777216"
    by (auto split: option.splits)
  from behind_request [OF Cons.prems(1) a2(2) a(1,2) a2(1) a(3), of acc del sh2] obtain u' where
    u': "run_request (loop_api BigEndian (dispatch (server_router P)) w0 acc del) t2 pl2 sh2 u =
       Logs (sh2 s1 (time_text (win u) (clock_reads u))) u'"
    "one_behind P w0 w1 (t2, pl2) u'" "log_lines u' = log_lines u" "win u' = win u"
    "clock_reads u' = Suc (Suc (clock_reads u))" by blast
  from u'(2) have "one_behind P w0 w1 (t2, pl2) (Logs (sh2 s1 (time_text (win u) (clock_reads u))) u')" by simp
  from Cons.IH [OF this a(4)] show ?case
    by (simp add: r u' a(1) del: answers_of.simps(2)) (simp add: a)
qed

text \<open>C32: One response that comes after the receive timed out shifts all that follow. The command that timed
  out reports a socket error and leaves the connection open; from then on every command (SQL, order,
  position, history, in any sequence) takes the response of the command before it for its own,
  whatever its type, and shows that: nothing resynchronises the connection. Assumed is a server that
  answers every request, after the time-out in the first case, and a socket that goes on working after
  a receive timed out, which Winsock does not promise.\<close>

theorem late_response_misread:
  assumes "live P w0 w u" and "all_answered P w ((t, pl, sh) # rs)"
    and "u' = run_request (late_api acc) t pl sh u"
  shows "log_lines u' = log_lines u @ [cross_mark # wide ''  Request failed (socket error).'', []]
     \<and> m_connected u'
     \<and> log_lines (run_all (loop_api BigEndian (dispatch (server_router P)) w0 acc del) rs u') =
         log_lines u' @ late_shows (win u) (Suc (clock_reads u)) rs (answers_of P w ((t, pl, sh) # rs))"
proof -
  have "length pl \<le> 16777216" using assms(2) by simp
  from late_leaves_behind [OF assms(1) this, of acc t sh] obtain v where
    v: "u' = Logs [cross_mark # wide ''  Request failed (socket error).'', []] v"
    "one_behind P w0 w (t, pl) v" "log_lines v = log_lines u" "win v = win u" "clock_reads v = Suc (clock_reads u)"
    using assms(3) by blast
  have b: "one_behind P w0 w (t, pl) u'" using v(1,2) by simp
  from behind_all [OF b assms(2), of acc del] v b show ?thesis
    by (simp add: one_behind_def del: answers_of.simps)
qed

theorem late_response_misread_witness:
  \<open>let P = \<lparr>plat_libm = \<lparr>sin_d = (\<lambda>x. 0), cos_d = (\<lambda>x. 1)\<rparr>, plat_char_signed = True, plat_overflow = Inr\<rparr>;
       w = initial_world 0;
       u = snd (DoConnect (Some [Some \<lparr>lp_sent = [], lp_read = 0\<rparr>]) (initial_ui ascii_env));
       u' = run_request (late_api 3) kMsgSqlQuery (sql_request ''a'') (show_sql ascii_env) u;
       api = loop_api BigEndian (dispatch (server_router P)) w 3 5
   in log_lines (run_request api kMsgGetPos (position_request ''ACC-001'') (show_positions ascii_env) u') =
      log_lines u' @ show_positions ascii_env (handle_sql_query (sql_request ''a'')) (time_text ascii_env (Suc (clock_reads u)))\<close>
proof -
  let ?P = "\<lparr>plat_libm = \<lparr>sin_d = (\<lambda>x. 0), cos_d = (\<lambda>x. 1)\<rparr>, plat_char_signed = True, plat_overflow = Inr\<rparr>"
  let ?rs = "[(kMsgSqlQuery, sql_request ''a'', show_sql ascii_env),
    (kMsgGetPos, position_request ''ACC-001'', show_positions ascii_env)]"
  let ?u = "snd (DoConnect (Some [Some \<lparr>lp_sent = [], lp_read = 0\<rparr>]) (initial_ui ascii_env)) :: loop ui"
  have l: "live ?P (initial_world 0) (initial_world 0) ?u"
    by (rule live_fresh) (simp_all add: DoConnect_def)
  have connected_env: "win ?u = ascii_env" by (simp add: DoConnect_def initial_ui_def)
  have a: "answer ?P (initial_world 0) kMsgSqlQuery (sql_request ''a'') =
      Some (handle_sql_query (sql_request ''a''), initial_world 0)"
    "answer ?P (initial_world 0) kMsgGetPos (position_request ''ACC-001'') =
      Some (handle_get_position (position_request ''ACC-001''), initial_world 0)"
    by (simp_all add: answer_def kMsgSqlQuery_def kMsgGetPos_def)
  have b: "length (sql_request ''a'') \<le> 100" "length (position_request ''ACC-001'') \<le> 100"
    by (simp_all add: sql_request_def position_request_def)
  have "all_answered ?P (initial_world 0) ?rs"
    unfolding all_answered.simps a option.case prod.case
    using length_sql_response [of "sql_request ''a''"] length_position_response [of "position_request ''ACC-001''"] b
    by (simp add: kMsgSqlQuery_def kMsgGetPos_def kRespError_def)
  from late_response_misread [OF l this refl, of 3 5] show ?thesis
    unfolding Let_def by (simp only: a fold_simps answers_of.simps late_shows.simps prod.case option.case append_Nil2
        connected_env id_apply)
qed

end
