(* ===== verification/Ui_Dialog.thy ===== *)
theory Ui_Dialog
  imports Ui_Menu
begin

text \<open>
  The main dialog of \<^verbatim>\<open>ui_client/src/MainDlg.cpp\<close>: its button handlers, which run on the user-interface
  thread, the worker thread that \<open>OnBnClickedRun\<close> starts, and the two messages the worker posts back.
  A disabled button delivers no click, so that a handler's step requires its button enabled. What the
  resolver, the sockets and the user do is chosen by the environment, in the event of each step.
\<close>

section \<open>State and handlers\<close>

text \<open>
  The log lines of the model's \<open>ui\<close> are the \<open>WM_LOG_LINE\<close> messages posted so far; the first
  \<open>delivered\<close> of them have been handled. A worker is the identifier it was started with.
\<close>

record 'k dialog =
  btn_connect :: bool
  btn_disconnect :: bool
  btn_run :: bool
  m_editHost :: wstring
  m_editPort :: wstring
  m_comboCommands :: "command_entry list"
  cur_sel :: "nat option"
  m_editOutput :: wstring
  m_staticStatus :: wstring
  dlg_ui :: "'k ui"
  workers :: "int list"
  done_posted :: nat
  delivered :: nat
  message_boxes :: "wstring list"
  dlg_closed :: bool

definition disconnected_text :: wstring where
  "disconnected_text = black_dot # wide ''  Disconnected''"

definition connected_text :: wstring where
  "connected_text = black_dot # wide ''  Connected''"

text \<open>The dialog as the resource creates it: empty fields and every button enabled.\<close>

definition new_dialog :: "win_env \<Rightarrow> 'k dialog" where
  "new_dialog E =
     \<lparr>btn_connect = True, btn_disconnect = True, btn_run = True, m_editHost = [], m_editPort = [],
      m_comboCommands = [], cur_sel = None, m_editOutput = [], m_staticStatus = disconnected_text,
      dlg_ui = initial_ui E, workers = [], done_posted = 0, delivered = 0, message_boxes = [],
      dlg_closed = False\<rparr>"

definition SetStatus :: "wstring \<Rightarrow> 'k dialog \<Rightarrow> 'k dialog" where
  "SetStatus t d = d\<lparr>m_staticStatus := t\<rparr>"

definition SetRunEnabled :: "bool \<Rightarrow> 'k dialog \<Rightarrow> 'k dialog" where
  "SetRunEnabled enabled d = d\<lparr>btn_run := enabled\<rparr>"

definition dlg_Logs :: "wstring list \<Rightarrow> 'k dialog \<Rightarrow> 'k dialog" where
  "dlg_Logs ls d = d\<lparr>dlg_ui := Logs ls (dlg_ui d)\<rparr>"

definition banner :: "wstring list" where
  "banner =
     [box_top,
      box_row (wide ''   HS Financial Services  '' @ en_dash # wide ''  Client Test Application     ''),
      box_row (wide ''   Version 1.0   |   High-Performance Banking Server      ''),
      box_bottom, [],
      wide ''Available services: SQL Query, Buy/Sell Orders, Get Position,'',
      wide ''                    Price History, Ping'', [],
      wide ''Enter the server address and port, then press [Connect].'',
      wide ''Select a command from the drop-down and press [Run].'', []]"

definition OnInitDialog :: "'k dialog \<Rightarrow> 'k dialog" where
  "OnInitDialog d =
     (let d = d\<lparr>m_editHost := wide ''127.0.0.1'', m_editPort := wide ''9000''\<rparr>;
          d = fold (\<lambda>e d. d\<lparr>m_comboCommands := m_comboCommands d @ [e]\<rparr>) kCommands d;
          d = d\<lparr>cur_sel := Some 0\<rparr>;
          d = SetStatus disconnected_text d;
          d = d\<lparr>btn_disconnect := False, btn_run := False\<rparr>
      in dlg_Logs banner d)"

text \<open>The number in the port field, cast to 16 bits; 0 becomes the default port.\<close>

definition connect_port :: "int \<Rightarrow> u16" where
  "connect_port n = (let port = word_of_int n in if port = 0 then 9000 else port)"

text \<open>A port number in range is kept; one beyond 16 bits, or negative, is silently reduced.\<close>

lemma uint_port: "uint (word_of_int n :: u16) = n mod 65536"
  by (simp add: uint_word_of_int)

lemma connect_port_range:
  assumes "0 < n" and "n < 65536"
  shows "uint (connect_port n) = n"
proof -
  have u: "uint (word_of_int n :: u16) = n" using assms by (simp add: uint_port)
  then have "(word_of_int n :: u16) \<noteq> 0" using assms(1) by (metis less_irrefl uint_0_eq)
  with u show ?thesis by (simp add: connect_port_def)
qed

lemma connect_port_wraps: "connect_port (n + 65536) = connect_port n"
proof -
  have "word_of_int (n + 65536) = (word_of_int n :: u16)"
    by (rule word_uint_eqI) (simp only: uint_port mod_add_self2)
  then show ?thesis by (simp only: connect_port_def)
qed

text \<open>The resolver gets the host in UTF-8; \<open>err\<close> is what \<open>WSAGetLastError\<close> says after a failure.\<close>

definition OnBnClickedConnect ::
  "(string \<Rightarrow> u16 \<Rightarrow> 'k option list option) \<Rightarrow> int \<Rightarrow> 'k dialog \<Rightarrow> 'k dialog" where
  "OnBnClickedConnect resolve err d =
     (let host = m_editHost d; portStr = m_editPort d
      in if host = [] then d\<lparr>message_boxes := message_boxes d @ [wide ''Please enter a host address.'']\<rparr>
         else
           (let port = connect_port (ttoi (win (dlg_ui d)) portStr);
                hostA = wide_to_mb (win (dlg_ui d)) host;
                d = dlg_Logs [[], wide ''Connecting to '' @ host @ wide '':'' @ wide (nat_str (unat port)) @
                      wide ''...''] d
            in case DoConnect (resolve hostA port) (dlg_ui d) of
                 (True, u) \<Rightarrow>
                   (let d = SetStatus connected_text (d\<lparr>dlg_ui := u\<rparr>);
                        d = d\<lparr>btn_connect := False, btn_disconnect := True, btn_run := True\<rparr>
                    in dlg_Logs [wide ''TCP connection established.'', []] d)
               | (False, u) \<Rightarrow>
                   dlg_Logs [wide ''Connection failed.  WSAError='' @ wide (int_str err), []] (d\<lparr>dlg_ui := u\<rparr>)))"

definition OnBnClickedDisconnect :: "'k dialog \<Rightarrow> 'k dialog" where
  "OnBnClickedDisconnect d =
     (let d = d\<lparr>dlg_ui := DoDisconnect (dlg_ui d)\<rparr>;
          d = SetStatus disconnected_text d;
          d = d\<lparr>btn_connect := True, btn_disconnect := False, btn_run := False\<rparr>
      in dlg_Logs [wide ''Disconnected from server.'', []] d)"

text \<open>A previous worker's thread object is detached; the worker itself, were there one, would live on.\<close>

definition OnBnClickedRun :: "'k dialog \<Rightarrow> 'k dialog" where
  "OnBnClickedRun d =
     (case selected_command (m_comboCommands d) (cur_sel d) of
        None \<Rightarrow> d
      | Some cmdId \<Rightarrow>
          (let d = SetRunEnabled False d;
               d = d\<lparr>btn_disconnect := False\<rparr>
           in d\<lparr>workers := workers d @ [cmdId]\<rparr>))"

text \<open>The worker: the switch, then \<open>PostMessage(WM_WORKER_DONE)\<close>.\<close>

definition worker_thread :: "'k sock_api \<Rightarrow> int \<Rightarrow> 'k dialog \<Rightarrow> 'k dialog" where
  "worker_thread api cmdId d =
     d\<lparr>dlg_ui := worker_body api cmdId (dlg_ui d), workers := remove1 cmdId (workers d),
       done_posted := Suc (done_posted d)\<rparr>"

definition OnWorkerDone :: "'k dialog \<Rightarrow> 'k dialog" where
  "OnWorkerDone d =
     (if m_connected (dlg_ui d) then (SetRunEnabled True d)\<lparr>btn_disconnect := True\<rparr>
      else (SetStatus disconnected_text d)\<lparr>btn_connect := True, btn_disconnect := False, btn_run := False\<rparr>)"

text \<open>\<open>line.Format(_T("%s  %s\r\n"), Timestamp().c_str(), pLine->c_str())\<close>\<close>

definition out_line :: "nat \<times> nat \<times> nat \<Rightarrow> wstring \<Rightarrow> wstring" where
  "out_line st l = Timestamp st @ wide ''  '' @ c_str l @ [0x0D, 0x0A]"

definition OnLogLine :: "nat \<times> nat \<times> nat \<Rightarrow> 'k dialog \<Rightarrow> 'k dialog" where
  "OnLogLine st d =
     d\<lparr>m_editOutput := m_editOutput d @ out_line st (log_lines (dlg_ui d) ! delivered d),
       delivered := Suc (delivered d)\<rparr>"

definition OnBnClickedClear :: "'k dialog \<Rightarrow> 'k dialog" where
  "OnBnClickedClear d = d\<lparr>m_editOutput := []\<rparr>"

text \<open>Enter does not close the dialog: the handler is overridden with an empty one.\<close>

definition OnOK :: "'k dialog \<Rightarrow> 'k dialog" where
  "OnOK d = d"

text \<open>The worker, if there is one, is detached and lives on.\<close>

definition OnCancel :: "'k dialog \<Rightarrow> 'k dialog" where
  "OnCancel d = d\<lparr>dlg_ui := DoDisconnect (dlg_ui d), dlg_closed := True\<rparr>"

section \<open>Every interleaving of the user, the worker and the messages\<close>

text \<open>
  A worker runs its command in one step, also after the dialog has been closed: the thread was detached,
  and finds the client disconnected. The only other step that touches what the worker uses is closing
  (\<open>worker_owns_socket\<close> below). Closing in the middle of a command makes its further calls on the socket
  fail; for a command of one exchange that is the step of the worker with calls that fail from some
  point on (\<open>api\<close> is arbitrary), and then the closing. For the batch test it is not: there the
  commands that follow would find the client disconnected.
\<close>

datatype 'k ui_event =
    TypeHost wstring
  | TypePort wstring
  | SelectItem nat
  | ClickConnect "string \<Rightarrow> u16 \<Rightarrow> 'k option list option" int
  | ClickDisconnect
  | ClickRun
  | ClickClear
  | PressEnter
  | WorkerRuns "'k sock_api" int
  | HandleDone
  | HandleLog "nat \<times> nat \<times> nat"
  | CloseDialog

inductive dialog_step :: "'k dialog \<Rightarrow> 'k ui_event \<Rightarrow> 'k dialog \<Rightarrow> bool" where
  type_host: "\<not> dlg_closed d \<Longrightarrow> dialog_step d (TypeHost t) (d\<lparr>m_editHost := t\<rparr>)"
| type_port: "\<not> dlg_closed d \<Longrightarrow> dialog_step d (TypePort t) (d\<lparr>m_editPort := t\<rparr>)"
| select_item: "\<not> dlg_closed d \<Longrightarrow> i < length (m_comboCommands d) \<Longrightarrow>
    dialog_step d (SelectItem i) (d\<lparr>cur_sel := Some i\<rparr>)"
| click_connect: "\<not> dlg_closed d \<Longrightarrow> btn_connect d \<Longrightarrow>
    dialog_step d (ClickConnect resolve err) (OnBnClickedConnect resolve err d)"
| click_disconnect: "\<not> dlg_closed d \<Longrightarrow> btn_disconnect d \<Longrightarrow>
    dialog_step d ClickDisconnect (OnBnClickedDisconnect d)"
| click_run: "\<not> dlg_closed d \<Longrightarrow> btn_run d \<Longrightarrow> dialog_step d ClickRun (OnBnClickedRun d)"
| click_clear: "\<not> dlg_closed d \<Longrightarrow> dialog_step d ClickClear (OnBnClickedClear d)"
| press_enter: "\<not> dlg_closed d \<Longrightarrow> dialog_step d PressEnter (OnOK d)"
| worker_runs: "cmdId \<in> set (workers d) \<Longrightarrow>
    dialog_step d (WorkerRuns api cmdId) (worker_thread api cmdId d)"
| handle_done: "\<not> dlg_closed d \<Longrightarrow> done_posted d = Suc n \<Longrightarrow>
    dialog_step d HandleDone (OnWorkerDone (d\<lparr>done_posted := n\<rparr>))"
| handle_log: "\<not> dlg_closed d \<Longrightarrow> delivered d < length (log_lines (dlg_ui d)) \<Longrightarrow>
    dialog_step d (HandleLog st) (OnLogLine st d)"
| close_dialog: "\<not> dlg_closed d \<Longrightarrow> dialog_step d CloseDialog (OnCancel d)"

inductive_cases dialog_stepE: "dialog_step d e d'"

definition dialog_start :: "'k dialog \<Rightarrow> bool" where
  "dialog_start d \<longleftrightarrow> (\<exists>E. d = OnInitDialog (new_dialog E))"

section \<open>What a command does to the connection\<close>

definition same_link :: "'k ui \<Rightarrow> 'k ui \<Rightarrow> bool" where
  "same_link u u' \<longleftrightarrow> m_connected u' = m_connected u \<and> (m_socket u' = None \<longleftrightarrow> m_socket u = None)
     \<and> prefix (log_lines u) (log_lines u') \<and> s_seq u \<le> s_seq u'"

lemma same_link_refl [simp]: "same_link u u"
  by (simp add: same_link_def)

lemma same_link_trans: "same_link u v \<Longrightarrow> same_link v w \<Longrightarrow> same_link u w"
  by (auto simp: same_link_def intro: prefix_order.trans)

lemma same_link_Logs: "same_link u v \<Longrightarrow> same_link u (Logs ls v)"
  by (auto simp: same_link_def prefix_def)

lemma same_link_socket: "m_socket u = Some k \<Longrightarrow> same_link u (u\<lparr>m_socket := Some k'\<rparr>)"
  by (simp add: same_link_def)

lemma same_link_send: "same_link u (snd (ui_send api ty pl u))"
  by (cases "m_socket u") (simp_all add: ui_send_def case_prod_unfold same_link_socket)

lemma same_link_recv: "same_link u (snd (ui_recv api u))"
  by (cases "m_socket u") (simp_all add: ui_recv_def case_prod_unfold same_link_socket)

lemma same_link_exchange:
  assumes "ui_exchange api ty pl u = (r, u')"
  shows "same_link u u'"
proof -
  obtain ok u1 where s: "ui_send api ty pl u = (ok, u1)" by (cases "ui_send api ty pl u")
  have "same_link u u1" using same_link_send [of u api ty pl] s by simp
  moreover have "same_link u1 u'"
    using assms s same_link_recv [of u1 api] by (cases ok) (auto simp: ui_exchange_def)
  ultimately show ?thesis by (rule same_link_trans)
qed

lemmas command_rules = Let_def Log_Logs Logs_Logs not_connected_def read_steady_def read_ticks_def

lemma same_link_request: "same_link u v \<Longrightarrow> same_link u (run_request api ty pl sh v)"
  by (auto simp: run_request_def command_rules same_link_def prefix_def split: prod.split option.split
      dest!: same_link_exchange)

lemma same_link_single:
  assumes "same_link u v"
  shows "same_link u (RunLogin api v)" "same_link u (RunPing api v)" "same_link u (RunSqlQuery api sql v)"
    "same_link u (RunBuyOrder api symb qty price acct v)" "same_link u (RunSellOrder api symb qty price acct v)"
    "same_link u (RunGetPosition api acct v)" "same_link u (RunGetPriceHistory api symb days v)"
  subgoal using assms by (auto simp: RunLogin_def command_rules same_link_def prefix_def
        split: prod.split option.split dest!: same_link_exchange)
  subgoal using assms by (auto simp: RunPing_def command_rules same_link_def prefix_def
        split: prod.split option.split dest!: same_link_exchange)
  using assms
  by (simp_all add: RunSqlQuery_def RunBuyOrder_def RunSellOrder_def RunGetPosition_def
      RunGetPriceHistory_def command_rules same_link_Logs same_link_request)

lemma same_link_batch: "same_link u v \<Longrightarrow> same_link u (RunBatchTest api v)"
  by (simp add: RunBatchTest_def Let_def same_link_single same_link_Logs)

text \<open>Every command but Logout leaves the connection as it was; Logout closes it.\<close>

lemma run_command_link: "c \<noteq> Logout \<Longrightarrow> same_link u (run_command api c u)"
  by (cases c) (simp_all add: run_command_def same_link_single same_link_batch)

definition link_ok :: "'k ui \<Rightarrow> bool" where
  "link_ok u \<longleftrightarrow> (m_connected u \<longleftrightarrow> m_socket u \<noteq> None)"

lemma link_ok_simps [simp]:
  "link_ok (Logs ls u) = link_ok u" "link_ok (initial_ui E)" "link_ok u \<Longrightarrow> link_ok (DoDisconnect u)"
  by (auto simp: link_ok_def initial_ui_def DoDisconnect_def)

lemma DoDisconnect_sel [simp]:
  "log_lines (DoDisconnect u) = log_lines u" "s_seq (DoDisconnect u) = s_seq u" "m_socket (DoDisconnect u) = None"
  "link_ok u \<Longrightarrow> \<not> m_connected (DoDisconnect u)"
  by (auto simp: DoDisconnect_def link_ok_def)

lemma logout_link:
  assumes "link_ok u"
  shows "link_ok (RunLogout api u) \<and> \<not> m_connected (RunLogout api u)
     \<and> prefix (log_lines u) (log_lines (RunLogout api u)) \<and> s_seq u \<le> s_seq (RunLogout api u)"
proof (cases "m_connected u")
  case False
  with assms show ?thesis by (simp add: RunLogout_def Let_def)
next
  case True
  define u1 where "u1 = Log (wide ''Sending logout notification...'') (Logs (heading ''LOGOUT'') u)"
  define v where "v = snd (ui_send api kMsgPing logout_payload u1)"
  have "same_link u u1" by (simp add: u1_def Log_Logs Logs_Logs same_link_Logs)
  then have "same_link u v"
    unfolding v_def by (rule same_link_trans [OF _ same_link_send])
  then have "link_ok v" "prefix (log_lines u) (log_lines v)" "s_seq u \<le> s_seq v"
    using assms by (auto simp: same_link_def link_ok_def)
  moreover obtain ls where "RunLogout api u = Logs ls (DoDisconnect v)"
    using True unfolding RunLogout_def Let_def v_def u1_def by auto
  ultimately show ?thesis by simp
qed

lemma worker_body_link:
  assumes "link_ok u"
  shows "link_ok (worker_body api cmdId u) \<and> prefix (log_lines u) (log_lines (worker_body api cmdId u))
     \<and> (m_connected (worker_body api cmdId u) \<longrightarrow> m_connected u) \<and> s_seq u \<le> s_seq (worker_body api cmdId u)"
proof (cases "cmd_of_code cmdId")
  case None
  with assms show ?thesis by (simp add: worker_body_def)
next
  case (Some c)
  show ?thesis
  proof (cases "c = Logout")
    case True
    with Some logout_link [OF assms, of api] show ?thesis by (simp add: worker_body_def run_command_def)
  next
    case False
    from run_command_link [OF this, of u api] assms Some show ?thesis
      by (auto simp: worker_body_def same_link_def link_ok_def)
  qed
qed

section \<open>Commands of a client that is not connected\<close>

definition refused_lines :: "CmdId \<Rightarrow> wstring list" where
  "refused_lines c =
     (let refused = [cross_mark # wide ''  Not connected.'', []]
      in case c of
           Login \<Rightarrow> heading ''LOGIN'' @
             [wide ''Not connected.  Please use the [Connect] button first, then re-run Login.'', []]
         | Logout \<Rightarrow> heading ''LOGOUT'' @ [wide ''Not currently connected to the server.'', []]
         | Ping \<Rightarrow> heading ''PING'' @ refused
         | BuyAapl \<Rightarrow> heading ''BUY ORDER'' @ refused
         | BuyMsft \<Rightarrow> heading ''BUY ORDER'' @ refused
         | SellAapl \<Rightarrow> heading ''SELL ORDER'' @ refused
         | SellTsla \<Rightarrow> heading ''SELL ORDER'' @ refused
         | GetPositionAcc001 \<Rightarrow> heading ''GET POSITION'' @ refused
         | GetPositionAcc002 \<Rightarrow> heading ''GET POSITION'' @ refused
         | PriceHistAapl30 \<Rightarrow> heading ''PRICE HISTORY'' @ refused
         | PriceHistMsft7 \<Rightarrow> heading ''PRICE HISTORY'' @ refused
         | PriceHistGoogl14 \<Rightarrow> heading ''PRICE HISTORY'' @ refused
         | BatchTest \<Rightarrow> batch_title @
             [cross_mark # wide ''  Not connected to the server.  Please connect first.'', []]
         | _ \<Rightarrow> heading ''SQL QUERY'' @ refused)"

lemma run_disconnected: "\<not> m_connected u \<Longrightarrow> run_command api c u = Logs (refused_lines c) u"
  by (cases c)
    (simp_all add: run_command_def refused_lines_def RunLogin_def RunLogout_def RunPing_def RunSqlQuery_def
      RunBuyOrder_def RunSellOrder_def RunGetPosition_def RunGetPriceHistory_def RunBatchTest_def
      not_connected_def Logs_Logs Let_def)

section \<open>The invariant\<close>

definition busy :: "'k dialog \<Rightarrow> bool" where
  "busy d \<longleftrightarrow> workers d \<noteq> [] \<or> done_posted d \<noteq> 0"

text \<open>The lines delivered last, one for each of these time stamps, each behind its stamp.\<close>

definition shown :: "(nat \<times> nat \<times> nat) list \<Rightarrow> 'k dialog \<Rightarrow> wstring" where
  "shown sts d =
     concat (map2 out_line sts (drop (delivered d - length sts) (take (delivered d) (log_lines (dlg_ui d)))))"

definition output_ok :: "'k dialog \<Rightarrow> bool" where
  "output_ok d \<longleftrightarrow> delivered d \<le> length (log_lines (dlg_ui d))"

definition buttons_ok :: "'k dialog \<Rightarrow> bool" where
  "buttons_ok d \<longleftrightarrow>
     (if busy d then \<not> btn_connect d \<and> \<not> btn_disconnect d \<and> \<not> btn_run d
      else (btn_run d \<longleftrightarrow> m_connected (dlg_ui d)) \<and> (btn_disconnect d \<longleftrightarrow> m_connected (dlg_ui d))
        \<and> (btn_connect d \<longleftrightarrow> \<not> m_connected (dlg_ui d)))"

text \<open>The status names the connection; after a logout it lags behind until the worker's end is handled.\<close>

definition status_ok :: "'k dialog \<Rightarrow> bool" where
  "status_ok d \<longleftrightarrow> (m_connected (dlg_ui d) \<longrightarrow> m_staticStatus d = connected_text)
     \<and> (\<not> m_connected (dlg_ui d) \<and> \<not> busy d \<longrightarrow> m_staticStatus d = disconnected_text)"

text \<open>The combo box holds the table, with a selection in it, and the workers run commands of the menu.\<close>

definition menu_ok :: "'k dialog \<Rightarrow> bool" where
  "menu_ok d \<longleftrightarrow> m_comboCommands d = kCommands \<and> (\<forall>i. cur_sel d = Some i \<longrightarrow> i < length kCommands)
     \<and> set (workers d) \<subseteq> range cmd_code"

definition dialog_inv :: "'k dialog \<Rightarrow> bool" where
  "dialog_inv d \<longleftrightarrow> link_ok (dlg_ui d) \<and> length (workers d) + done_posted d \<le> 1 \<and> output_ok d
     \<and> menu_ok d \<and> (dlg_closed d \<or> buttons_ok d \<and> status_ok d)"

lemmas dialog_rules = dialog_inv_def busy_def buttons_ok_def status_ok_def menu_ok_def

lemma dlg_Logs_sel [simp]:
  "dlg_ui (dlg_Logs ls d) = Logs ls (dlg_ui d)" "workers (dlg_Logs ls d) = workers d"
  "done_posted (dlg_Logs ls d) = done_posted d" "delivered (dlg_Logs ls d) = delivered d"
  "m_editOutput (dlg_Logs ls d) = m_editOutput d" "dlg_closed (dlg_Logs ls d) = dlg_closed d"
  "btn_connect (dlg_Logs ls d) = btn_connect d" "btn_disconnect (dlg_Logs ls d) = btn_disconnect d"
  "btn_run (dlg_Logs ls d) = btn_run d" "m_staticStatus (dlg_Logs ls d) = m_staticStatus d"
  "m_comboCommands (dlg_Logs ls d) = m_comboCommands d" "cur_sel (dlg_Logs ls d) = cur_sel d"
  by (simp_all add: dlg_Logs_def)

lemma output_ok_more:
  assumes "output_ok d" and "prefix (log_lines (dlg_ui d)) (log_lines (dlg_ui d'))" and "delivered d' = delivered d"
  shows "output_ok d'"
  using assms by (auto simp: output_ok_def prefix_def)

lemma DoConnect_cases:
  assumes "DoConnect res u = (ok, u')"
  shows "log_lines u' = log_lines u \<and> (if ok then m_connected u' \<and> m_socket u' \<noteq> None else u' = u)"
  using assms by (auto simp: DoConnect_def split: option.splits)

lemma OnBnClickedConnect_inv:
  assumes inv: "dialog_inv d" and b: "btn_connect d" "\<not> dlg_closed d"
  shows "dialog_inv (OnBnClickedConnect resolve err d)"
proof (cases "m_editHost d = []")
  case True
  have "output_ok (OnBnClickedConnect resolve err d)"
    by (rule output_ok_more [of d]) (use inv True in \<open>simp_all add: OnBnClickedConnect_def dialog_inv_def\<close>)
  with True inv b show ?thesis by (auto simp: OnBnClickedConnect_def dialog_rules split: if_splits)
next
  case False
  define p where "p = connect_port (ttoi (win (dlg_ui d)) (m_editPort d))"
  define d1 where "d1 = dlg_Logs [[], wide ''Connecting to '' @ m_editHost d @ wide '':'' @ wide (nat_str (unat p)) @
      wide ''...''] d"
  obtain ok u' where c: "DoConnect (resolve (wide_to_mb (win (dlg_ui d)) (m_editHost d)) p) (dlg_ui d1) = (ok, u')"
    by (cases "DoConnect (resolve (wide_to_mb (win (dlg_ui d)) (m_editHost d)) p) (dlg_ui d1)")
  have nb: "\<not> busy d" "\<not> m_connected (dlg_ui d)" using inv b by (auto simp: dialog_inv_def buttons_ok_def split: if_splits)
  have e: "OnBnClickedConnect resolve err d =
     (if ok then dlg_Logs [wide ''TCP connection established.'', []]
        (d1\<lparr>dlg_ui := u', m_staticStatus := connected_text, btn_connect := False, btn_disconnect := True, btn_run := True\<rparr>)
      else dlg_Logs [wide ''Connection failed.  WSAError='' @ wide (int_str err), []] (d1\<lparr>dlg_ui := u'\<rparr>))"
    using False c by (simp add: OnBnClickedConnect_def Let_def SetStatus_def d1_def p_def)
  note dc = DoConnect_cases [OF c]
  have "output_ok (OnBnClickedConnect resolve err d)"
    by (rule output_ok_more [of d]) (use inv dc in \<open>auto simp: e d1_def dialog_inv_def prefix_def\<close>)
  then show ?thesis
    using nb inv dc b by (cases ok) (simp_all add: e d1_def dialog_rules link_ok_def)
qed

lemma OnBnClickedDisconnect_inv:
  assumes inv: "dialog_inv d" and b: "btn_disconnect d" "\<not> dlg_closed d"
  shows "dialog_inv (OnBnClickedDisconnect d)"
proof -
  have "\<not> busy d" "link_ok (dlg_ui d)"
    using inv b by (auto simp: dialog_inv_def buttons_ok_def split: if_splits)
  moreover have "output_ok (OnBnClickedDisconnect d)"
    by (rule output_ok_more [of d])
      (use inv in \<open>simp_all add: OnBnClickedDisconnect_def SetStatus_def Let_def dialog_inv_def\<close>)
  ultimately show ?thesis
    using inv by (simp add: OnBnClickedDisconnect_def SetStatus_def Let_def dialog_rules)
qed

lemma OnBnClickedRun_inv:
  assumes inv: "dialog_inv d" and b: "btn_run d" "\<not> dlg_closed d"
  shows "dialog_inv (OnBnClickedRun d)"
proof (cases "selected_command (m_comboCommands d) (cur_sel d)")
  case None
  with inv show ?thesis by (simp add: OnBnClickedRun_def)
next
  case (Some cmdId)
  with inv have "cmdId \<in> range cmd_code"
    using selected_command_code [of "cur_sel d" cmdId] by (auto simp: dialog_inv_def menu_ok_def)
  moreover have "output_ok (OnBnClickedRun d)"
    by (rule output_ok_more [of d])
      (use inv Some in \<open>simp_all add: OnBnClickedRun_def SetRunEnabled_def dialog_inv_def\<close>)
  ultimately show ?thesis
    using inv b Some by (auto simp: OnBnClickedRun_def SetRunEnabled_def dialog_rules split: if_splits)
qed

lemma worker_thread_inv:
  assumes inv: "dialog_inv d" and w: "cmdId \<in> set (workers d)"
  shows "dialog_inv (worker_thread api cmdId d)"
proof -
  have one: "workers d = [cmdId]" "done_posted d = 0"
    using inv w by (cases "workers d"; auto simp: dialog_inv_def)+
  have "link_ok (dlg_ui d)" using inv by (simp add: dialog_inv_def)
  note l = worker_body_link [OF this, of api cmdId]
  have "output_ok (worker_thread api cmdId d)"
    by (rule output_ok_more [of d]) (use inv in \<open>simp_all add: worker_thread_def dialog_inv_def l\<close>)
  then show ?thesis
    using inv one l by (auto simp: worker_thread_def dialog_rules)
qed

lemma OnWorkerDone_sel [simp]:
  "dlg_ui (OnWorkerDone d) = dlg_ui d" "workers (OnWorkerDone d) = workers d"
  "m_editOutput (OnWorkerDone d) = m_editOutput d" "delivered (OnWorkerDone d) = delivered d"
  by (simp_all add: OnWorkerDone_def SetRunEnabled_def SetStatus_def)

lemma OnWorkerDone_inv:
  assumes inv: "dialog_inv d" and w: "done_posted d = Suc n" "\<not> dlg_closed d"
  shows "dialog_inv (OnWorkerDone (d\<lparr>done_posted := n\<rparr>))"
proof -
  have "output_ok (OnWorkerDone (d\<lparr>done_posted := n\<rparr>))"
    by (rule output_ok_more [of d]) (use inv in \<open>simp_all add: dialog_inv_def\<close>)
  with inv w show ?thesis
    by (auto simp: OnWorkerDone_def SetRunEnabled_def SetStatus_def dialog_rules)
qed

lemma OnLogLine_inv:
  assumes inv: "dialog_inv d" and w: "delivered d < length (log_lines (dlg_ui d))"
  shows "dialog_inv (OnLogLine st d)"
  using assms by (auto simp: OnLogLine_def output_ok_def dialog_rules split: if_splits)

lemma OnBnClickedClear_inv: "dialog_inv d \<Longrightarrow> dialog_inv (OnBnClickedClear d)"
  by (auto simp: OnBnClickedClear_def output_ok_def dialog_rules split: if_splits)

lemma OnCancel_inv:
  assumes "dialog_inv d"
  shows "dialog_inv (OnCancel d)"
proof -
  have "output_ok (OnCancel d)"
    by (rule output_ok_more [of d]) (use assms in \<open>simp_all add: OnCancel_def dialog_inv_def\<close>)
  with assms show ?thesis by (simp add: OnCancel_def dialog_rules)
qed

lemma input_inv:
  assumes "dialog_inv d"
  shows "dialog_inv (d\<lparr>m_editHost := t\<rparr>)" "dialog_inv (d\<lparr>m_editPort := t\<rparr>)"
    "i < length (m_comboCommands d) \<Longrightarrow> dialog_inv (d\<lparr>cur_sel := Some i\<rparr>)"
  using assms by (auto simp: dialog_rules output_ok_def split: if_splits)

lemma fill_combo:
  "fold (\<lambda>e d. d\<lparr>m_comboCommands := m_comboCommands d @ [e]\<rparr>) es d =
     d\<lparr>m_comboCommands := m_comboCommands d @ es\<rparr>"
  by (induction es arbitrary: d) simp_all

lemma OnInitDialog_eq:
  "OnInitDialog (new_dialog E) =
     \<lparr>btn_connect = True, btn_disconnect = False, btn_run = False, m_editHost = wide ''127.0.0.1'',
      m_editPort = wide ''9000'', m_comboCommands = kCommands, cur_sel = Some 0, m_editOutput = [],
      m_staticStatus = disconnected_text, dlg_ui = Logs banner (initial_ui E), workers = [], done_posted = 0,
      delivered = 0, message_boxes = [], dlg_closed = False\<rparr>"
  by (simp add: OnInitDialog_def new_dialog_def Let_def fill_combo SetStatus_def dlg_Logs_def)

lemma kCommands_length: "length kCommands = 22"
  by (simp add: kCommands_def)

lemma dialog_inv_start: "dialog_start d \<Longrightarrow> dialog_inv d"
  by (auto simp: dialog_start_def OnInitDialog_eq dialog_rules output_ok_def kCommands_length
      link_ok_def initial_ui_def)

lemma dialog_inv_step: "dialog_inv d \<Longrightarrow> dialog_step d e d' \<Longrightarrow> dialog_inv d'"
  by (erule dialog_stepE)
    (simp_all add: OnOK_def input_inv OnBnClickedConnect_inv OnBnClickedDisconnect_inv OnBnClickedRun_inv
      OnBnClickedClear_inv worker_thread_inv OnWorkerDone_inv OnLogLine_inv OnCancel_inv)

interpretation dialog_life: transition_system dialog_start dialog_step dialog_inv
  by unfold_locales (fact dialog_inv_start, fact dialog_inv_step)

section \<open>The output box as a function of the events\<close>

inductive dialog_run :: "'k ui_event list \<Rightarrow> 'k dialog \<Rightarrow> bool" where
  run_begins: "dialog_start d \<Longrightarrow> dialog_run [] d"
| run_goes_on: "dialog_run es d \<Longrightarrow> dialog_step d e d' \<Longrightarrow> dialog_run (es @ [e]) d'"

lemma dialog_run_reach: "dialog_run es d \<Longrightarrow> reach dialog_start dialog_step d"
  by (induction rule: dialog_run.induct) (auto intro: reach.intros)

lemma reach_dialog_run: "reach dialog_start dialog_step d \<Longrightarrow> \<exists>es. dialog_run es d"
  by (induction rule: reach.induct) (auto intro: dialog_run.intros)

text \<open>The time stamps of all log messages handled, and of those handled since Clear was last pressed.\<close>

fun stamp_of :: "'k ui_event \<Rightarrow> (nat \<times> nat \<times> nat) list" where
  "stamp_of (HandleLog st) = [st]"
| "stamp_of _ = []"

definition handled :: "'k ui_event list \<Rightarrow> (nat \<times> nat \<times> nat) list" where
  "handled es = concat (map stamp_of es)"

definition is_clear :: "'k ui_event \<Rightarrow> bool" where
  "is_clear e \<longleftrightarrow> (case e of ClickClear \<Rightarrow> True | _ \<Rightarrow> False)"

definition since_clear :: "'k ui_event list \<Rightarrow> (nat \<times> nat \<times> nat) list" where
  "since_clear es = handled (rev (takeWhile (\<lambda>e. \<not> is_clear e) (rev es)))"

lemma handled_snoc [simp]: "handled (es @ [e]) = handled es @ stamp_of e" "handled [] = []"
  by (simp_all add: handled_def)

lemma since_clear_snoc:
  "since_clear (es @ [e]) = (if is_clear e then [] else since_clear es @ stamp_of e)" "since_clear [] = []"
  by (simp_all add: since_clear_def)

lemma length_since_clear: "length (since_clear es) \<le> length (handled es)"
proof -
  have "handled (xs @ ys) = handled xs @ handled ys" for xs ys :: "'a ui_event list" by (simp add: handled_def)
  from this [of "rev (dropWhile (\<lambda>e. \<not> is_clear e) (rev es))" "rev (takeWhile (\<lambda>e. \<not> is_clear e) (rev es))"]
  show ?thesis by (simp add: since_clear_def flip: rev_append)
qed

lemma shown_OnLogLine:
  assumes "length sts \<le> delivered d" and "delivered d < length (log_lines (dlg_ui d))"
  shows "shown (sts @ [st]) (OnLogLine st d) = shown sts d @ out_line st (log_lines (dlg_ui d) ! delivered d)"
proof -
  let ?l = "log_lines (dlg_ui d)" and ?n = "delivered d"
  have "drop (?n - length sts) (take (Suc ?n) ?l) = drop (?n - length sts) (take ?n ?l) @ [?l ! ?n]"
    using assms by (simp add: take_Suc_conv_app_nth)
  then show ?thesis using assms by (simp add: shown_def OnLogLine_def)
qed

text \<open>No other step touches the box or takes a message off; lines are only added to the log.\<close>

lemma step_output:
  assumes "dialog_step d e d'" and "dialog_inv d" and "stamp_of e = []"
  shows "delivered d' = delivered d \<and> prefix (log_lines (dlg_ui d)) (log_lines (dlg_ui d'))
     \<and> m_editOutput d' = (if is_clear e then [] else m_editOutput d)"
  using assms(1)
proof (cases rule: dialog_step.cases)
  case (click_connect resolve err)
  then show ?thesis
    by (auto simp: OnBnClickedConnect_def SetStatus_def is_clear_def Let_def prefix_def dest!: DoConnect_cases
        split: prod.split bool.split)
next
  case (worker_runs cmdId api)
  have "link_ok (dlg_ui d)" using assms(2) by (simp add: dialog_inv_def)
  from worker_body_link [OF this] worker_runs show ?thesis by (simp add: worker_thread_def is_clear_def)
qed (use assms(3) in \<open>auto simp: is_clear_def OnBnClickedDisconnect_def OnBnClickedRun_def OnBnClickedClear_def OnOK_def
    OnCancel_def SetStatus_def SetRunEnabled_def Let_def split: option.split\<close>)

lemma dialog_run_output:
  assumes "dialog_run es d"
  shows "delivered d = length (handled es) \<and> m_editOutput d = shown (since_clear es) d"
  using assms
proof (induction rule: dialog_run.induct)
  case (run_begins d)
  then show ?case by (auto simp: dialog_start_def OnInitDialog_eq since_clear_snoc shown_def)
next
  case (run_goes_on es d e d')
  have inv: "dialog_inv d" by (rule dialog_life.reach_inv [OF dialog_run_reach [OF run_goes_on.hyps(1)]])
  have len: "length (since_clear es) \<le> delivered d" using run_goes_on.IH length_since_clear [of es] by simp
  show ?case
  proof (cases "stamp_of e = []")
    case True
    from step_output [OF run_goes_on.hyps(2) inv this] obtain ls where
      d': "delivered d' = delivered d" "log_lines (dlg_ui d') = log_lines (dlg_ui d) @ ls"
        "m_editOutput d' = (if is_clear e then [] else m_editOutput d)"
      by (auto simp: prefix_def)
    have "delivered d \<le> length (log_lines (dlg_ui d))" using inv by (simp add: dialog_inv_def output_ok_def)
    then show ?thesis
      using run_goes_on.IH True d' by (simp add: since_clear_snoc shown_def)
  next
    case False
    then obtain st where e: "e = HandleLog st" by (cases e) auto
    with run_goes_on.hyps(2) have "delivered d < length (log_lines (dlg_ui d))" "d' = OnLogLine st d"
      by (auto elim: dialog_stepE)
    with shown_OnLogLine [OF len] run_goes_on.IH e show ?thesis
      by (simp add: since_clear_snoc is_clear_def) (simp add: OnLogLine_def)
  qed
qed

section \<open>The dialog comes to rest\<close>

text \<open>The steps that need no user: the worker's end and the handling of posted messages.\<close>

fun system_event :: "'k ui_event \<Rightarrow> bool" where
  "system_event (WorkerRuns api cmdId) = True"
| "system_event HandleDone = True"
| "system_event (HandleLog st) = True"
| "system_event _ = False"

definition system_step :: "'k dialog \<Rightarrow> 'k dialog \<Rightarrow> bool" where
  "system_step d d' \<longleftrightarrow> (\<exists>e. system_event e \<and> dialog_step d e d')"

lemma system_stepI: "dialog_step d e d' \<Longrightarrow> system_event e \<Longrightarrow> system_step d d'"
  by (auto simp: system_step_def)

lemma deliver_all:
  "\<not> dlg_closed d \<Longrightarrow> delivered d \<le> length (log_lines (dlg_ui d)) \<Longrightarrow>
     \<exists>d'. system_step\<^sup>*\<^sup>* d d' \<and> dlg_ui d' = dlg_ui d \<and> workers d' = workers d \<and> done_posted d' = done_posted d
       \<and> dlg_closed d' = dlg_closed d \<and> delivered d' = length (log_lines (dlg_ui d))"
proof (induction "length (log_lines (dlg_ui d)) - delivered d" arbitrary: d)
  case 0
  then show ?case by (intro exI [of _ d]) simp
next
  case (Suc n)
  then have lt: "delivered d < length (log_lines (dlg_ui d))" by simp
  let ?d = "OnLogLine (0, 0, 0) d"
  have st: "system_step d ?d"
    using Suc.prems(1) lt by (intro system_stepI [OF handle_log]) simp_all
  have "n = length (log_lines (dlg_ui ?d)) - delivered ?d"
    using Suc.hyps(2) by (simp add: OnLogLine_def)
  from Suc.hyps(1) [OF this] Suc.prems lt obtain d' where "system_step\<^sup>*\<^sup>* ?d d'"
    "dlg_ui d' = dlg_ui d \<and> workers d' = workers d \<and> done_posted d' = done_posted d
       \<and> dlg_closed d' = dlg_closed d \<and> delivered d' = length (log_lines (dlg_ui d))"
    by (auto simp: OnLogLine_def)
  with st show ?case by (blast intro: converse_rtranclp_into_rtranclp)
qed

lemma run_to_idle:
  assumes inv: "dialog_inv d" and open_: "\<not> dlg_closed d"
  shows "\<exists>d'. system_step\<^sup>*\<^sup>* d d' \<and> \<not> busy d' \<and> \<not> dlg_closed d'"
proof -
  have done_step: "\<exists>d'. system_step\<^sup>*\<^sup>* d1 d' \<and> \<not> busy d' \<and> \<not> dlg_closed d'"
    if "workers d1 = []" "done_posted d1 \<le> 1" "\<not> dlg_closed d1" for d1 :: "'a dialog"
  proof (cases "done_posted d1 = 0")
    case True
    with that show ?thesis by (intro exI [of _ d1]) (simp add: busy_def)
  next
    case False
    with that(2) have one: "done_posted d1 = Suc 0" by simp
    have "system_step d1 (OnWorkerDone (d1\<lparr>done_posted := 0\<rparr>))"
      using that one by (intro system_stepI [OF handle_done]) simp_all
    with that one show ?thesis
      by (intro exI [of _ "OnWorkerDone (d1\<lparr>done_posted := 0\<rparr>)"]) (auto simp: OnWorkerDone_def SetRunEnabled_def SetStatus_def busy_def)
  qed
  show ?thesis
  proof (cases "workers d = []")
    case True
    with inv open_ show ?thesis by (intro done_step) (simp_all add: dialog_inv_def)
  next
    case False
    with inv obtain c where w: "workers d = [c]" "done_posted d = 0"
      by (cases "workers d") (auto simp: dialog_inv_def)
    obtain api :: "'a sock_api" where True by blast
    have "system_step d (worker_thread api c d)"
      using w by (intro system_stepI [OF worker_runs]) simp_all
    moreover obtain d' where "system_step\<^sup>*\<^sup>* (worker_thread api c d) d'" "\<not> busy d'" "\<not> dlg_closed d'"
      using done_step [of "worker_thread api c d"] w open_ by (auto simp: worker_thread_def)
    ultimately show ?thesis by (blast intro: converse_rtranclp_into_rtranclp)
  qed
qed

lemma system_steps_inv: "system_step\<^sup>*\<^sup>* d d' \<Longrightarrow> dialog_inv d \<Longrightarrow> dialog_inv d'"
  by (induction rule: rtranclp_induct) (auto simp: system_step_def intro: dialog_inv_step)

text \<open>A reachable state with a worker, for the examples: connect, select the Ping command and run it.\<close>

definition pinging :: "unit dialog" where
  "pinging =
     OnBnClickedRun ((OnBnClickedConnect (\<lambda>host port. Some [None, Some ()]) 0
       (OnInitDialog (new_dialog ascii_env)))\<lparr>cur_sel := Some 3\<rparr>)"

lemma connect_new:
  assumes "d = OnBnClickedConnect (\<lambda>host port. Some [None, Some k]) 0 (OnInitDialog (new_dialog E))"
  shows "workers d = []" "\<not> dlg_closed d" "delivered d = 0" "log_lines (dlg_ui d) \<noteq> []" "btn_run d"
    "m_comboCommands d = kCommands"
  unfolding assms by (simp_all add: OnBnClickedConnect_def OnInitDialog_eq DoConnect_def SetStatus_def Let_def)

lemma pinging_facts:
  "workers pinging = [2]" "dlg_closed pinging = False" "log_lines (dlg_ui pinging) \<noteq> []" "delivered pinging = 0"
  by (simp_all add: pinging_def OnBnClickedRun_def connect_new [OF refl] selected_command_def kCommands_def
      SetRunEnabled_def)

lemma pinging_reachable: "reach dialog_start dialog_step pinging"
proof -
  let ?r = "\<lambda>host port. Some [None, Some ()]"
  let ?i = "OnInitDialog (new_dialog ascii_env) :: unit dialog"
  let ?c = "OnBnClickedConnect ?r 0 ?i"
  let ?s = "?c\<lparr>cur_sel := Some 3\<rparr>"
  have r0: "reach dialog_start dialog_step ?i"
    by (rule reach_start) (auto simp: dialog_start_def)
  have s1: "dialog_step ?i (ClickConnect ?r 0) ?c"
    by (rule click_connect) (simp_all add: OnInitDialog_eq)
  have s2: "dialog_step ?c (SelectItem 3) ?s"
    by (rule select_item) (simp_all add: connect_new [OF refl] kCommands_length)
  have s3: "dialog_step ?s ClickRun (OnBnClickedRun ?s)"
    by (rule click_run) (simp_all add: connect_new [OF refl])
  show ?thesis
    unfolding pinging_def by (rule reach_step [OF reach_step [OF reach_step [OF r0 s1] s2] s3])
qed

section \<open>Properties\<close>

text \<open>C16: However the user's clicks, the worker and the posted messages interleave, at most one worker runs
  or has its end still to be handled, it runs a command of the menu, and until the dialog is closed
  Connect, Disconnect and Run are all disabled in the meantime; otherwise Run and Disconnect are enabled
  exactly when the client is connected and Connect exactly when it is not, and the status text says
  which. The output box always shows exactly the log lines whose messages were handled since Clear was
  last pressed, or since the start, all of them and in the order they were logged, each behind the
  time at which it was handled.\<close>

theorem one_worker:
  assumes "dialog_run es d"
  shows "length (workers d) + done_posted d \<le> 1 \<and> set (workers d) \<subseteq> range cmd_code
     \<and> (dlg_closed d \<or>
          (if busy d then \<not> btn_connect d \<and> \<not> btn_disconnect d \<and> \<not> btn_run d
           else (btn_run d \<longleftrightarrow> m_connected (dlg_ui d)) \<and> (btn_disconnect d \<longleftrightarrow> m_connected (dlg_ui d))
             \<and> (btn_connect d \<longleftrightarrow> \<not> m_connected (dlg_ui d))
             \<and> m_staticStatus d = (if m_connected (dlg_ui d) then connected_text else disconnected_text)))
     \<and> delivered d = length (handled es) \<and> m_editOutput d = shown (since_clear es) d"
  using dialog_life.reach_inv [OF dialog_run_reach [OF assms]] dialog_run_output [OF assms]
  by (auto simp: dialog_inv_def buttons_ok_def status_ok_def menu_ok_def)

theorem one_worker_witness:
  "\<exists>es. dialog_run es pinging \<and> length (workers pinging) + done_posted pinging \<le> 1
     \<and> delivered pinging = length (handled es) \<and> m_editOutput pinging = shown (since_clear es) pinging"
proof -
  obtain es where "dialog_run es pinging" using reach_dialog_run [OF pinging_reachable] by blast
  with one_worker [OF this] show ?thesis by blast
qed

text \<open>C17: While a worker runs, no step but the worker's own and closing the dialog touches the socket, the
  connected flag or the sequence number: the disabled buttons keep the user-interface thread off the
  connection.\<close>

theorem worker_owns_socket:
  assumes "reach dialog_start dialog_step d" and "workers d \<noteq> []" and "dialog_step d e d'"
    and "e \<noteq> CloseDialog" and "\<forall>api c. e \<noteq> WorkerRuns api c"
  shows "m_socket (dlg_ui d') = m_socket (dlg_ui d) \<and> m_connected (dlg_ui d') = m_connected (dlg_ui d)
     \<and> s_seq (dlg_ui d') = s_seq (dlg_ui d) \<and> workers d' = workers d"
proof -
  have inv: "dialog_inv d" by (rule dialog_life.reach_inv [OF assms(1)])
  then have "\<not> btn_connect d \<and> \<not> btn_disconnect d \<and> \<not> btn_run d \<or> dlg_closed d"
    using assms(2) by (auto simp: dialog_inv_def buttons_ok_def busy_def split: if_splits)
  with assms(3) show ?thesis
    by (cases rule: dialog_stepE)
      (use assms(4,5) in \<open>auto simp: OnBnClickedClear_def OnOK_def OnLogLine_def\<close>)
qed

theorem worker_owns_socket_witness:
  "let d = pinging; d' = OnLogLine (9, 30, 0) pinging
   in m_socket (dlg_ui d') = m_socket (dlg_ui d) \<and> m_connected (dlg_ui d') = m_connected (dlg_ui d)
     \<and> s_seq (dlg_ui d') = s_seq (dlg_ui d) \<and> workers d' = workers d"
  unfolding Let_def
  by (rule worker_owns_socket [OF pinging_reachable _ handle_log]) (simp_all add: pinging_facts)

text \<open>C18: From every reachable state of the open dialog the worker's end and the posted messages alone lead
  to a state in which no worker is left, the buttons fit the connection and every log line has been
  shown: the dialog is never stuck with its buttons disabled.\<close>

theorem dialog_comes_to_rest:
  assumes "reach dialog_start dialog_step d" and "\<not> dlg_closed d"
  shows "\<exists>d'. system_step\<^sup>*\<^sup>* d d' \<and> \<not> busy d' \<and> delivered d' = length (log_lines (dlg_ui d'))
     \<and> (btn_run d' \<longleftrightarrow> m_connected (dlg_ui d')) \<and> (btn_disconnect d' \<longleftrightarrow> m_connected (dlg_ui d'))
     \<and> (btn_connect d' \<longleftrightarrow> \<not> m_connected (dlg_ui d'))"
proof -
  have inv: "dialog_inv d" by (rule dialog_life.reach_inv [OF assms(1)])
  obtain d1 where d1: "system_step\<^sup>*\<^sup>* d d1" "\<not> busy d1" "\<not> dlg_closed d1"
    using run_to_idle [OF inv assms(2)] by blast
  have inv1: "dialog_inv d1" by (rule system_steps_inv [OF d1(1) inv])
  then have "delivered d1 \<le> length (log_lines (dlg_ui d1))" by (simp add: dialog_inv_def output_ok_def)
  from deliver_all [OF d1(3) this] obtain d2 where d2: "system_step\<^sup>*\<^sup>* d1 d2" "dlg_ui d2 = dlg_ui d1"
    "workers d2 = workers d1" "done_posted d2 = done_posted d1" "dlg_closed d2 = dlg_closed d1"
    "delivered d2 = length (log_lines (dlg_ui d1))" by blast
  have "dialog_inv d2" by (rule system_steps_inv [OF d2(1) inv1])
  moreover have "\<not> busy d2" using d1(2) d2 by (simp add: busy_def)
  moreover have "system_step\<^sup>*\<^sup>* d d2" using d1(1) d2(1) by (rule rtranclp_trans)
  ultimately show ?thesis
    using d1(3) d2 by (intro exI [of _ d2]) (auto simp: dialog_inv_def buttons_ok_def)
qed

theorem dialog_comes_to_rest_witness:
  "\<exists>d'. system_step\<^sup>*\<^sup>* pinging d' \<and> \<not> busy d' \<and> delivered d' = length (log_lines (dlg_ui d'))
     \<and> (btn_run d' \<longleftrightarrow> m_connected (dlg_ui d')) \<and> (btn_disconnect d' \<longleftrightarrow> m_connected (dlg_ui d'))
     \<and> (btn_connect d' \<longleftrightarrow> \<not> m_connected (dlg_ui d'))"
  by (rule dialog_comes_to_rest [OF pinging_reachable]) (simp add: pinging_facts)

text \<open>C33: Closing the dialog while a worker runs is not prevented, and it loses the command. The close step is
  enabled and closes the socket; the detached worker, if its thread gets to its command only then, runs on
  over the dead dialog whatever the peer does: it logs that the client is not connected, in the words
  of its command, and posts its end; and from there no step is left, so that neither those lines nor
  the end nor any line that was waiting is ever handled.\<close>

theorem close_orphans_worker:
  assumes "reach dialog_start dialog_step d" and "workers d = [cmd_code c]" and "\<not> dlg_closed d"
  shows "dialog_step d CloseDialog (OnCancel d)
     \<and> (\<exists>d'. dialog_step (OnCancel d) (WorkerRuns api (cmd_code c)) d'
          \<and> log_lines (dlg_ui d') = log_lines (dlg_ui d) @ refused_lines c
          \<and> delivered d' = delivered d \<and> delivered d' < length (log_lines (dlg_ui d'))
          \<and> workers d' = [] \<and> done_posted d' = 1 \<and> (\<forall>e d''. \<not> dialog_step d' e d''))"
proof -
  have inv: "dialog_inv d" by (rule dialog_life.reach_inv [OF assms(1)])
  let ?u = "DoDisconnect (dlg_ui d)"
  have nc: "\<not> m_connected ?u" using inv by (simp add: dialog_inv_def)
  have d0: "done_posted d = 0" and del: "delivered d \<le> length (log_lines (dlg_ui d))"
    using inv assms(2) by (auto simp: dialog_inv_def output_ok_def)
  define d' where "d' = worker_thread api (cmd_code c) (OnCancel d)"
  have body: "dlg_ui d' = Logs (refused_lines c) ?u"
    using run_disconnected [OF nc, of api c] by (simp add: d'_def worker_thread_def worker_body_def cmd_of_code OnCancel_def)
  have "\<not> dialog_step d' e d''" for e d''
    by (rule notI, erule dialog_stepE) (simp_all add: d'_def worker_thread_def OnCancel_def assms(2))
  moreover have "dialog_step (OnCancel d) (WorkerRuns api (cmd_code c)) d'"
    unfolding d'_def by (rule worker_runs) (simp add: OnCancel_def assms(2))
  moreover have "delivered d' = delivered d" "workers d' = []" "done_posted d' = 1"
    by (simp_all add: d'_def worker_thread_def OnCancel_def assms(2) d0)
  moreover obtain l ls where "refused_lines c = l # ls"
    by (cases c) (simp_all add: refused_lines_def heading_def batch_title_def)
  ultimately show ?thesis
    using close_dialog [OF assms(3)] body del by (intro conjI exI [of _ d']) auto
qed

theorem close_orphans_worker_witness:
  "dialog_step pinging CloseDialog (OnCancel pinging)
   \<and> (\<forall>api. \<exists>d'. dialog_step (OnCancel pinging) (WorkerRuns api (cmd_code Ping)) d'
        \<and> log_lines (dlg_ui d') = log_lines (dlg_ui pinging) @ heading ''PING'' @ [cross_mark # wide ''  Not connected.'', []]
        \<and> delivered d' = delivered pinging \<and> delivered d' < length (log_lines (dlg_ui d'))
        \<and> workers d' = [] \<and> done_posted d' = 1 \<and> (\<forall>e d''. \<not> dialog_step d' e d''))"
  using close_orphans_worker [OF pinging_reachable, of Ping] by (simp add: pinging_facts refused_lines_def)

end
