(* ===== verification/Ui_System.thy ===== *)
theory Ui_System
  imports Ui_Interop Ui_Dialog
begin

text \<open>
  The dialog of the user interface together with a server on a big-endian host: the user's clicks, the
  worker, the posted messages and the session the client is connected to. A connection is a fresh
  session of the server, which goes on from the state the orders so far have left; a worker's calls
  go to that session. Other clients of the server are not part of the system. A worker that runs after the
  dialog was closed finds the client disconnected.
\<close>

section \<open>State and steps\<close>

record ui_system =
  sys_dialog :: "loop dialog"
  sys_joined :: world
  sys_world :: world

abbreviation fresh_link :: loop where
  "fresh_link \<equiv> \<lparr>lp_sent = [], lp_read = 0\<rparr>"

text \<open>Resolving may give nothing or addresses that refuse; a socket that connects is at a fresh session.\<close>

definition at_server :: "(string \<Rightarrow> u16 \<Rightarrow> loop option list option) \<Rightarrow> bool" where
  "at_server resolve \<longleftrightarrow>
     (\<forall>host port ps k. resolve host port = Some ps \<longrightarrow> first_connected ps = Some k \<longrightarrow> k = fresh_link)"

text \<open>The orders a command places; a client that is not connected places none.\<close>

definition orders_of :: "'k ui \<Rightarrow> int \<Rightarrow> u64" where
  "orders_of u cmdId =
     (if m_connected u then (case cmd_of_code cmdId of Some c \<Rightarrow> orders_placed c | None \<Rightarrow> 0) else 0)"

fun plain_event :: "'k ui_event \<Rightarrow> bool" where
  "plain_event (ClickConnect resolve err) = False"
| "plain_event (WorkerRuns api cmdId) = False"
| "plain_event _ = True"

inductive ui_system_step :: "platform \<Rightarrow> ui_system \<Rightarrow> loop ui_event \<Rightarrow> ui_system \<Rightarrow> bool"
  for P :: platform
where
  connects: "dialog_step (sys_dialog s) (ClickConnect resolve err) d \<Longrightarrow> at_server resolve \<Longrightarrow>
    ui_system_step P s (ClickConnect resolve err) (s\<lparr>sys_dialog := d, sys_joined := sys_world s\<rparr>)"
| works: "dialog_step (sys_dialog s) (WorkerRuns (loop_api BigEndian (dispatch (server_router P)) (sys_joined s) acc del) cmdId) d \<Longrightarrow>
    s_seq (dlg_ui (sys_dialog s)) < INT_MAX \<Longrightarrow>
    ui_system_step P s (WorkerRuns (loop_api BigEndian (dispatch (server_router P)) (sys_joined s) acc del) cmdId)
      (s\<lparr>sys_dialog := d,
         sys_world := (sys_world s)\<lparr>g_order_counter := g_order_counter (sys_world s) + orders_of (dlg_ui (sys_dialog s)) cmdId\<rparr>\<rparr>)"
| others: "dialog_step (sys_dialog s) e d \<Longrightarrow> plain_event e \<Longrightarrow> ui_system_step P s e (s\<lparr>sys_dialog := d\<rparr>)"

inductive_cases ui_system_stepE: "ui_system_step P s e s'"

definition ui_system_start :: "ui_system \<Rightarrow> bool" where
  "ui_system_start s \<longleftrightarrow> dialog_start (sys_dialog s) \<and> world_ok (sys_world s)"

section \<open>Lines that report an error\<close>

definition marks_error :: "wstring \<Rightarrow> bool" where
  "marks_error l \<longleftrightarrow> (\<exists>t. l = cross_mark # t)"

lemma marks_error_simps [simp]:
  "\<not> marks_error []" "marks_error (x # t) \<longleftrightarrow> x = cross_mark" "\<not> marks_error (wide s)"
  "marks_error (wide s @ t) \<longleftrightarrow> s = [] \<and> marks_error t"
proof -
  have c: "(of_nat (of_char c) :: u16) \<noteq> cross_mark" for c :: char
  proof
    assume e: "(of_nat (of_char c) :: u16) = cross_mark"
    have "(of_char c :: nat) < 256" by simp
    then have "unat (of_nat (of_char c) :: u16) < 256" by (simp add: unat_of_nat le_less_trans [OF mod_less_eq_dividend])
    with e show False by simp
  qed
  show "\<not> marks_error []" "marks_error (x # t) \<longleftrightarrow> x = cross_mark"
    by (auto simp: marks_error_def)
  show "\<not> marks_error (wide s)" "marks_error (wide s @ t) \<longleftrightarrow> s = [] \<and> marks_error t"
    using c by (cases s; auto simp: marks_error_def wide_def)+
qed

definition no_errors :: "wstring list \<Rightarrow> bool" where
  "no_errors ls \<longleftrightarrow> list_all (\<lambda>l. \<not> marks_error l) ls"

lemma no_errors_simps [simp]:
  "no_errors []" "no_errors (l # ls) \<longleftrightarrow> \<not> marks_error l \<and> no_errors ls"
  "no_errors (ls @ ms) \<longleftrightarrow> no_errors ls \<and> no_errors ms"
  by (simp_all add: no_errors_def)

lemma marks_error_replicate [simp]: "marks_error (replicate n x) \<longleftrightarrow> 0 < n \<and> x = cross_mark"
  by (cases n) simp_all

lemma frame_no_error [simp]:
  "\<not> marks_error ruler" "\<not> marks_error box_top" "\<not> marks_error box_bottom" "\<not> marks_error (box_row t)"
  "no_errors (heading h)"
  by (simp_all add: ruler_def box_top_def box_bottom_def box_row_def heading_def)

lemma asked_no_errors: "no_errors (asked E n c)"
  by (cases c) (simp_all add: asked_def login_asked_def ping_asked_def sql_asked_def buy_asked_def sell_asked_def
      position_asked_def history_asked_def order_line_def)

lemma history_no_errors: "no_errors (history_answer E L b now d ms)"
  by (simp add: history_answer_def) (simp add: no_errors_def list_all_iff candle_line_def Let_def)

lemma answer_no_errors: "no_errors (answer_lines P E w t n c)"
  by (cases c) (simp_all add: answer_lines_def Let_def login_answer_def ping_answer_def sql_answer_def ack_answer_def
      positions_answer_def position_line_def price_answer_def history_no_errors)

lemma answered_seq_no_errors: "no_errors (answered_seq P E w t n cs)"
  by (induction cs arbitrary: w t n) (simp_all add: asked_no_errors answer_no_errors)

lemma expected_no_errors: "no_errors (expected_lines P E w t n c)"
  by (simp add: expected_lines_def logout_lines_def batch_start_def batch_title_def batch_end_def asked_no_errors
      answer_no_errors answered_seq_no_errors)

section \<open>The invariant\<close>

definition link_in_step :: "platform \<Rightarrow> ui_system \<Rightarrow> bool" where
  "link_in_step P s \<longleftrightarrow>
     (m_connected (dlg_ui (sys_dialog s)) \<longrightarrow> live P (sys_joined s) (sys_world s) (dlg_ui (sys_dialog s)))"

definition ui_system_inv :: "platform \<Rightarrow> ui_system \<Rightarrow> bool" where
  "ui_system_inv P s \<longleftrightarrow> dialog_inv (sys_dialog s) \<and> world_ok (sys_world s) \<and> link_in_step P s
     \<and> 0 \<le> s_seq (dlg_ui (sys_dialog s))
     \<and> (if dlg_closed (sys_dialog s) then \<not> m_connected (dlg_ui (sys_dialog s))
        else no_errors (log_lines (dlg_ui (sys_dialog s))))
     \<and> (dlg_closed (sys_dialog s) \<or> workers (sys_dialog s) = [] \<or> m_connected (dlg_ui (sys_dialog s)))"

text \<open>Pressing Connect is possible only while the client is not connected.\<close>

lemma connects_inv:
  assumes inv: "ui_system_inv P s" and at: "at_server resolve" and b: "btn_connect (sys_dialog s)" "\<not> dlg_closed (sys_dialog s)"
  shows "ui_system_inv P (s\<lparr>sys_dialog := OnBnClickedConnect resolve err (sys_dialog s), sys_joined := sys_world s\<rparr>)"
proof -
  let ?d = "sys_dialog s"
  have d: "dialog_inv ?d" using inv by (simp add: ui_system_inv_def)
  then have nb: "workers ?d = []" "\<not> m_connected (dlg_ui ?d)"
    using b by (auto simp: dialog_inv_def buttons_ok_def busy_def split: if_splits)
  have d': "dialog_inv (OnBnClickedConnect resolve err ?d)" by (rule OnBnClickedConnect_inv [OF d b])
  show ?thesis
  proof (cases "m_editHost ?d = []")
    case True
    with inv nb d' b(2) show ?thesis by (simp add: ui_system_inv_def link_in_step_def OnBnClickedConnect_def)
  next
    case False
    define r where "r = resolve (wide_to_mb (win (dlg_ui ?d)) (m_editHost ?d)) (connect_port (ttoi (win (dlg_ui ?d)) (m_editPort ?d)))"
    have k: "first_connected ps = Some k \<Longrightarrow> r = Some ps \<Longrightarrow> k = fresh_link" for ps k
      using at by (auto simp: at_server_def r_def)
    show ?thesis
    proof (cases "\<exists>ps k. r = Some ps \<and> first_connected ps = Some k")
      case True
      then obtain ps where "r = Some ps" "first_connected ps = Some fresh_link" using k by blast
      then have c: "DoConnect r u = (True, u\<lparr>m_socket := Some fresh_link, m_connected := True\<rparr>)" for u
        by (simp add: DoConnect_def)
      from inv nb d' False b(2) show ?thesis
        unfolding ui_system_inv_def link_in_step_def
        by (auto simp: OnBnClickedConnect_def Let_def SetStatus_def c [unfolded r_def] intro!: live_fresh)
    next
      case nc: False
      then have c: "DoConnect r u = (False, u)" for u by (auto simp: DoConnect_def split: option.split)
      from inv nb d' False b(2) show ?thesis
        unfolding ui_system_inv_def link_in_step_def
        by (auto simp: OnBnClickedConnect_def Let_def c [unfolded r_def])
    qed
  qed
qed

lemma world_ok_orders [simp]: "world_ok (w\<lparr>g_order_counter := g\<rparr>) = world_ok w"
  by (simp add: world_ok_def)

text \<open>A worker of an open dialog runs over the live connection.\<close>

lemma works_inv:
  assumes inv: "ui_system_inv P s" and L: "libm_bounded (plat_libm P)"
    and w: "cmdId \<in> set (workers (sys_dialog s))" "\<not> dlg_closed (sys_dialog s)"
    and seq: "s_seq (dlg_ui (sys_dialog s)) < INT_MAX"
  shows "ui_system_inv P (s\<lparr>sys_dialog :=
       worker_thread (loop_api BigEndian (dispatch (server_router P)) (sys_joined s) acc del) cmdId (sys_dialog s),
     sys_world := (sys_world s)\<lparr>g_order_counter := g_order_counter (sys_world s) + orders_of (dlg_ui (sys_dialog s)) cmdId\<rparr>\<rparr>)"
proof -
  let ?d = "sys_dialog s" and ?api = "loop_api BigEndian (dispatch (server_router P)) (sys_joined s) acc del"
  have d: "dialog_inv ?d" and lk: "link_in_step P s" and wok: "world_ok (sys_world s)" and s0: "0 \<le> s_seq (dlg_ui ?d)"
    and ne: "no_errors (log_lines (dlg_ui ?d))" and conn: "m_connected (dlg_ui ?d)"
    using inv w by (auto simp: ui_system_inv_def)
  have one: "workers ?d = [cmdId]"
    using d w by (cases "workers ?d") (auto simp: dialog_inv_def)
  obtain c where c: "cmdId = cmd_code c" using d w by (auto simp: dialog_inv_def menu_ok_def)
  have live: "live P (sys_joined s) (sys_world s) (dlg_ui ?d)" using lk conn by (simp add: link_in_step_def)
  have body: "worker_body ?api cmdId (dlg_ui ?d) = run_command ?api c (dlg_ui ?d)"
    by (simp add: worker_body_def cmd_of_code c)
  note served = command_served [OF live s0 seq L wok refl, of acc del c]
  have "link_ok (dlg_ui ?d)" using d by (simp add: dialog_inv_def)
  from worker_body_link [OF this, of ?api cmdId] have "0 \<le> s_seq (run_command ?api c (dlg_ui ?d))"
    using s0 body by simp
  moreover have "orders_of (dlg_ui ?d) cmdId = orders_placed c" by (simp add: orders_of_def cmd_of_code c conn)
  ultimately show ?thesis
    using worker_thread_inv [OF d w(1), of ?api] served wok ne expected_no_errors one w(2)
    by (auto simp: ui_system_inv_def link_in_step_def worker_thread_def body)
qed

text \<open>One that outlives the dialog finds the client disconnected and reaches nobody.\<close>

lemma works_late_inv:
  assumes inv: "ui_system_inv P s" and w: "cmdId \<in> set (workers (sys_dialog s))" "dlg_closed (sys_dialog s)"
  shows "ui_system_inv P (s\<lparr>sys_dialog := worker_thread api cmdId (sys_dialog s),
     sys_world := (sys_world s)\<lparr>g_order_counter := g_order_counter (sys_world s) + orders_of (dlg_ui (sys_dialog s)) cmdId\<rparr>\<rparr>)"
proof -
  let ?d = "sys_dialog s"
  have d: "dialog_inv ?d" and nc: "\<not> m_connected (dlg_ui ?d)" using inv w by (auto simp: ui_system_inv_def)
  then have "link_ok (dlg_ui ?d)" by (simp add: dialog_inv_def)
  from worker_body_link [OF this, of api cmdId] worker_thread_inv [OF d w(1), of api] inv nc w(2)
  show ?thesis by (auto simp: ui_system_inv_def link_in_step_def worker_thread_def)
qed

lemma others_inv:
  assumes inv: "ui_system_inv P s" and step: "dialog_step (sys_dialog s) e d" and e: "plain_event e"
  shows "ui_system_inv P (s\<lparr>sys_dialog := d\<rparr>)"
proof -
  let ?d = "sys_dialog s"
  have d: "dialog_inv ?d" using inv by (simp add: ui_system_inv_def)
  have link: "link_ok (dlg_ui ?d)" using d by (simp add: dialog_inv_def)
  have d': "dialog_inv d" by (rule dialog_inv_step [OF d step])
  have run: "m_connected (dlg_ui ?d)" if "btn_run ?d" "\<not> dlg_closed ?d"
    using d that by (auto simp: dialog_inv_def buttons_ok_def split: if_splits)
  from step show ?thesis
  proof (cases rule: dialog_step.cases)
    case click_run
    with inv d' run show ?thesis
      by (auto simp: ui_system_inv_def link_in_step_def OnBnClickedRun_def SetRunEnabled_def split: option.splits)
  next
    case click_disconnect
    then have "workers ?d = []"
      using d by (auto simp: dialog_inv_def buttons_ok_def busy_def split: if_splits)
    with click_disconnect inv d' link show ?thesis
      by (auto simp: ui_system_inv_def link_in_step_def OnBnClickedDisconnect_def SetStatus_def Let_def)
  next
    case (handle_done n)
    with inv d' show ?thesis
      by (auto simp: ui_system_inv_def link_in_step_def OnWorkerDone_def SetRunEnabled_def SetStatus_def split: if_splits)
  qed (use inv d' e link in \<open>auto simp: ui_system_inv_def link_in_step_def OnBnClickedClear_def OnOK_def OnLogLine_def OnCancel_def\<close>)
qed

lemma ui_system_inv_start: "ui_system_start s \<Longrightarrow> ui_system_inv P s"
proof -
  assume s: "ui_system_start s"
  then obtain E where E: "sys_dialog s = OnInitDialog (new_dialog E)" "world_ok (sys_world s)"
    by (auto simp: ui_system_start_def dialog_start_def)
  have "dialog_inv (sys_dialog s)" using s by (simp add: ui_system_start_def dialog_inv_start)
  moreover have "no_errors banner" by (simp add: banner_def)
  ultimately show ?thesis
    using E(2) by (simp add: ui_system_inv_def link_in_step_def E(1) OnInitDialog_eq, simp add: initial_ui_def)
qed

lemma ui_system_inv_step:
  assumes "libm_bounded (plat_libm P)" and "ui_system_inv P s" and "ui_system_step P s e s'"
  shows "ui_system_inv P s'"
  using assms(3)
proof (cases rule: ui_system_step.cases)
  case (connects resolve err d)
  from connects(3) assms(2) connects(4) show ?thesis
    unfolding connects(2) by (cases rule: dialog_step.cases) (simp_all add: connects_inv)
next
  case (works acc del cmdId d)
  from works(3) assms(1,2) works(4) show ?thesis
    unfolding works(2)
    by (cases rule: dialog_step.cases, cases "dlg_closed (sys_dialog s)") (simp_all add: works_inv works_late_inv)
next
  case (others d)
  from others_inv [OF assms(2) others(2,3)] show ?thesis unfolding others(1) .
qed

interpretation ui_life: transition_system ui_system_start "ui_system_step P"
    "\<lambda>s. libm_bounded (plat_libm P) \<longrightarrow> ui_system_inv P s" for P :: platform
  by unfold_locales (auto intro: ui_system_inv_start ui_system_inv_step)

section \<open>An example\<close>

text \<open>The user connects at once, selects the batch test and runs it.\<close>

definition sys_begin :: ui_system where
  "sys_begin =
     \<lparr>sys_dialog = OnInitDialog (new_dialog ascii_env), sys_joined = initial_world 1700000000,
      sys_world = initial_world 1700000000\<rparr>"

definition sys_connected :: "loop dialog" where
  "sys_connected = OnBnClickedConnect (\<lambda>host port. Some [None, Some fresh_link]) 0 (OnInitDialog (new_dialog ascii_env))"

definition sys_batch :: ui_system where
  "sys_batch = sys_begin\<lparr>sys_dialog := OnBnClickedRun (sys_connected\<lparr>cur_sel := Some 21\<rparr>)\<rparr>"

lemmas sys_connected_facts = connect_new [OF sys_connected_def]

lemma sys_batch_facts:
  "workers (sys_dialog sys_batch) = [cmd_code BatchTest]" "\<not> dlg_closed (sys_dialog sys_batch)"
  "s_seq (dlg_ui (sys_dialog sys_batch)) < INT_MAX"
  by (simp_all add: sys_batch_def OnBnClickedRun_def sys_connected_facts selected_command_def kCommands_def SetRunEnabled_def)
    (simp add: sys_connected_def OnBnClickedConnect_def OnInitDialog_eq DoConnect_def SetStatus_def Let_def,
     simp add: initial_ui_def INT_MAX_def)

lemma sys_batch_reachable: "reach ui_system_start (ui_system_step P) sys_batch"
proof -
  let ?r = "\<lambda>host port. Some [None, Some fresh_link]"
  let ?s1 = "sys_begin\<lparr>sys_dialog := sys_connected\<rparr>"
  let ?s2 = "sys_begin\<lparr>sys_dialog := sys_connected\<lparr>cur_sel := Some 21\<rparr>\<rparr>"
  have r0: "reach ui_system_start (ui_system_step P) sys_begin"
    by (rule reach_start) (auto simp: ui_system_start_def sys_begin_def dialog_start_def initial_world_def world_ok_def)
  have "dialog_step (sys_dialog sys_begin) (ClickConnect ?r 0) sys_connected"
    unfolding sys_connected_def sys_begin_def ui_system.select_convs
    by (rule click_connect) (simp_all add: OnInitDialog_eq)
  then have "ui_system_step P sys_begin (ClickConnect ?r 0) (sys_begin\<lparr>sys_dialog := sys_connected, sys_joined := sys_world sys_begin\<rparr>)"
    by (rule connects) (auto simp: at_server_def)
  then have s1: "ui_system_step P sys_begin (ClickConnect ?r 0) ?s1" by (simp add: sys_begin_def)
  have "dialog_step sys_connected (SelectItem 21) (sys_connected\<lparr>cur_sel := Some 21\<rparr>)"
    by (rule select_item) (simp_all add: sys_connected_facts kCommands_length)
  then have s2: "ui_system_step P ?s1 (SelectItem 21) ?s2"
    using others [of ?s1 "SelectItem 21" _ P] by simp
  have "dialog_step (sys_connected\<lparr>cur_sel := Some 21\<rparr>) ClickRun (sys_dialog sys_batch)"
    unfolding sys_batch_def by (simp, rule click_run) (simp_all add: sys_connected_facts)
  then have s3: "ui_system_step P ?s2 ClickRun sys_batch"
    using others [of ?s2 ClickRun "sys_dialog sys_batch" P] by (simp add: sys_batch_def)
  show ?thesis by (rule reach_step [OF reach_step [OF reach_step [OF r0 s1] s2] s3])
qed

section \<open>Properties\<close>

text \<open>C7: Whatever the user does with the dialog, in whatever order the worker and the posted messages run,
  and however the bytes are cut in transit: as long as the client talks to a server on a big-endian
  host and the dialog is open, no line of the log starts with the cross sign, by which every command
  reports a failure (an attempt to connect that fails is told in other words and is not meant here); a
  connected client is in step with its session; and a worker that is about to run a command will log
  exactly what that command is expected to log in the server's present state.\<close>

theorem dialog_gets_answers:
  assumes "reach ui_system_start (ui_system_step P) s" and "libm_bounded (plat_libm P)"
    and "\<not> dlg_closed (sys_dialog s)"
  defines "u \<equiv> dlg_ui (sys_dialog s)"
  shows "list_all (\<lambda>l. \<not> marks_error l) (log_lines u)
     \<and> (m_connected u \<longrightarrow> live P (sys_joined s) (sys_world s) u)
     \<and> (workers (sys_dialog s) = [cmd_code c] \<and> s_seq u < INT_MAX \<longrightarrow>
          log_lines (dlg_ui (worker_thread
              (loop_api BigEndian (dispatch (server_router P)) (sys_joined s) acc del) (cmd_code c) (sys_dialog s))) =
            log_lines u @ expected_lines P (win u) (sys_world s) (clock_reads u) (s_seq u + 1) c)"
proof -
  have inv: "ui_system_inv P s" using ui_life.reach_inv [OF assms(1)] assms(2) by blast
  moreover have "log_lines (dlg_ui (worker_thread
        (loop_api BigEndian (dispatch (server_router P)) (sys_joined s) acc del) (cmd_code c) (sys_dialog s))) =
      log_lines u @ expected_lines P (win u) (sys_world s) (clock_reads u) (s_seq u + 1) c"
    if "workers (sys_dialog s) = [cmd_code c]" "s_seq u < INT_MAX"
  proof -
    have "live P (sys_joined s) (sys_world s) u" "0 \<le> s_seq u" "world_ok (sys_world s)"
      using inv that assms(3) by (auto simp: ui_system_inv_def link_in_step_def u_def)
    from command_served [OF this(1,2) that(2) assms(2) this(3) refl, of acc del c]
    show ?thesis by (simp add: worker_thread_def worker_body_def cmd_of_code u_def)
  qed
  ultimately show ?thesis using assms(3) by (auto simp: ui_system_inv_def link_in_step_def no_errors_def u_def)
qed

theorem dialog_gets_answers_witness:
  "let P = \<lparr>plat_libm = \<lparr>sin_d = (\<lambda>x. 0), cos_d = (\<lambda>x. 1)\<rparr>, plat_char_signed = True, plat_overflow = Inr\<rparr>;
       s = sys_batch; u = dlg_ui (sys_dialog s)
   in list_all (\<lambda>l. \<not> marks_error l) (log_lines u)
     \<and> log_lines (dlg_ui (worker_thread
              (loop_api BigEndian (dispatch (server_router P)) (sys_joined s) 3 5) (cmd_code BatchTest) (sys_dialog s))) =
            log_lines u @ expected_lines P (win u) (sys_world s) (clock_reads u) (s_seq u + 1) BatchTest"
proof -
  let ?P = "\<lparr>plat_libm = \<lparr>sin_d = (\<lambda>x. 0), cos_d = (\<lambda>x. 1)\<rparr>, plat_char_signed = True, plat_overflow = Inr\<rparr>"
  have "libm_bounded (plat_libm ?P)" by (simp add: libm_bounded_def)
  from dialog_gets_answers [OF sys_batch_reachable this sys_batch_facts(2), of BatchTest 3 5] sys_batch_facts
  show ?thesis unfolding Let_def by blast
qed

end
