(* ===== verification/Ui_App.thy ===== *)
theory Ui_App
  imports Ui_Dialog
begin

text \<open>
  The application object of \<^verbatim>\<open>ui_client/src/HSClientApp.cpp\<close>: Winsock is started, the dialog runs until
  it is closed, Winsock is cleaned up. What \<open>WSAStartup\<close> returns and how the dialog's steps go is
  chosen by the environment.
\<close>

record 'k app =
  winsock_users :: nat
  app_boxes :: "wstring list"
  last_dialog :: "'k dialog option"

definition theApp :: "'k app" where
  "theApp = \<lparr>winsock_users = 0, app_boxes = [], last_dialog = None\<rparr>"

text \<open>\<open>modal\<close> is the dialog when \<open>DoModal\<close> returns, from the dialog it was entered with.\<close>

definition InitInstance :: "win_env \<Rightarrow> int \<Rightarrow> ('k dialog \<Rightarrow> 'k dialog) \<Rightarrow> 'k app \<Rightarrow> bool \<times> 'k app" where
  "InitInstance E startup modal a =
     (if startup \<noteq> 0 then
        (False, a\<lparr>app_boxes := app_boxes a @ [wide ''Failed to initialise Winsock 2.'']\<rparr>)
      else
        (let a = a\<lparr>winsock_users := Suc (winsock_users a)\<rparr>;
             dlg = OnInitDialog (new_dialog E);
             a = a\<lparr>last_dialog := Some (modal dlg)\<rparr>;
             a = a\<lparr>winsock_users := winsock_users a - 1\<rparr>
         in (False, a)))"

text \<open>The steps of the dialog that \<open>DoModal\<close> may have run: up to the closing one.\<close>

definition modal_run :: "('k dialog \<Rightarrow> 'k dialog) \<Rightarrow> bool" where
  "modal_run modal \<longleftrightarrow>
     (\<forall>d. reach dialog_start dialog_step d \<longrightarrow> reach dialog_start dialog_step (modal d) \<and> dlg_closed (modal d))"

lemma closed_socket:
  assumes "reach dialog_start dialog_step d" and "dlg_closed d"
  shows "m_socket (dlg_ui d) = None"
  using assms
proof (induction rule: reach.induct)
  case (reach_start s)
  then show ?case by (auto simp: dialog_start_def OnInitDialog_eq)
next
  case (reach_step s e s')
  from reach_step.hyps(2) show ?case
  proof (cases rule: dialog_step.cases)
    case (worker_runs cmdId api)
    have inv: "dialog_inv s" by (rule dialog_life.reach_inv [OF reach_step.hyps(1)])
    then have l: "link_ok (dlg_ui s)" by (simp add: dialog_inv_def)
    from worker_runs reach_step.IH reach_step.prems have "m_socket (dlg_ui s) = None"
      by (simp add: worker_thread_def)
    with l worker_body_link [OF l, of api cmdId] worker_runs show ?thesis
      by (auto simp: worker_thread_def link_ok_def)
  qed (use reach_step.prems in \<open>auto simp: OnCancel_def OnBnClickedConnect_def OnBnClickedDisconnect_def
        OnBnClickedRun_def OnBnClickedClear_def OnOK_def OnWorkerDone_def OnLogLine_def SetStatus_def SetRunEnabled_def
        Let_def split: option.splits prod.splits if_splits bool.splits\<close>)
qed

lemma modal_run_closes: "modal_run (\<lambda>d. if dlg_closed d then d else OnCancel d)"
  unfolding modal_run_def
proof (intro allI impI)
  fix d :: "'k dialog"
  assume r: "reach dialog_start dialog_step d"
  have "reach dialog_start dialog_step (OnCancel d)" if "\<not> dlg_closed d"
    using reach.reach_step [of dialog_start dialog_step d CloseDialog "OnCancel d", OF r close_dialog [OF that]] .
  with r show "reach dialog_start dialog_step (if dlg_closed d then d else OnCancel d)
      \<and> dlg_closed (if dlg_closed d then d else OnCancel d)"
    by (simp add: OnCancel_def)
qed

text \<open>
  The application never enters the standard message pump, every start of Winsock has its cleanup,
  and a dialog was shown exactly if the start succeeded; its socket is closed by then.
\<close>

lemma InitInstance_ends:
  assumes "modal_run modal" and "InitInstance E startup modal theApp = (r, a)"
  shows "\<not> r \<and> winsock_users a = 0 \<and> (last_dialog a = None \<longleftrightarrow> startup \<noteq> 0)
     \<and> (\<forall>d. last_dialog a = Some d \<longrightarrow> dlg_closed d \<and> m_socket (dlg_ui d) = None)"
proof -
  have "reach dialog_start dialog_step (OnInitDialog (new_dialog E))"
    by (rule reach.reach_start) (auto simp: dialog_start_def)
  with assms(1) have "reach dialog_start dialog_step (modal (OnInitDialog (new_dialog E)))"
    "dlg_closed (modal (OnInitDialog (new_dialog E)))"
    by (auto simp: modal_run_def)
  with closed_socket assms(2) show ?thesis
    by (auto simp: InitInstance_def theApp_def Let_def split: if_splits)
qed

end
