(* ===== verification/Spec2Isabelle.thy ===== *)
theory Spec2Isabelle
  imports Server_Orders Session_Close Json_Responses Load_System_Run Ui_System Ui_App
begin

text \<open>
  The C++ programs of HS-FinancialServices: a TCP server that answers framed requests (SQL query, buy
  and sell order, position, price history, ping), a load generator that simulates many clients, and a
  Windows user interface with one client. This library models the three programs and their
  composition.

  \<^bold>\<open>The program and its model.\<close> Paths are below \<^verbatim>\<open>src/\<close>.

  \<^item> \<^verbatim>\<open>server/include/protocol.hpp\<close> is \<open>Protocol\<close>: message types, the 8-octet header as a record of
    words, \<open>encode_header\<close>, \<open>decode_header\<close> and \<open>make_message\<close>. \<open>htonl\<close> depends on the host, so the
    byte order is a parameter (\<open>endianness\<close>) of everything that uses the codec.
  \<^item> \<^verbatim>\<open>server/include/service_router.hpp\<close> is \<open>Service_Router\<close>: the handler table is a map, a handler
    takes the process-wide state and returns a text or the \<open>what()\<close> of its exception, \<open>dispatch\<close>
    builds the response message.
  \<^item> \<^verbatim>\<open>server/src/services/\<close> are \<open>Sql_Service\<close>, \<open>Trade_Service\<close>, \<open>Position_Service\<close> and
    \<open>Price_History_Service\<close>, on the scanners of \<open>Json_Fields\<close>, the double arithmetic of \<open>Binary64\<close>
    and the calendar of \<open>Calendar\<close>. \<open>Json_Text\<close> is not code of the program: it is a reader of JSON by the
    letter of RFC 8259, by which \<open>Json_Responses\<close> judges what the services write. \<open>Server_Services\<close> is the registration in
    \<^verbatim>\<open>server/src/main.cpp\<close>; its record \<open>world\<close> holds the order counter and the clock, and
    \<open>answer\<close> says in one definition what the assembled router does.
  \<^item> \<^verbatim>\<open>server/src/session.cpp\<close> is \<open>Session\<close>: one connection as a record, each member function and
    each completion handler as a function on it, the step relation \<open>session_step\<close> over all schedules
    of completions, and \<open>run_session\<close> over the bytes of one peer. The destructor runs when the last
    reference goes or, with handlers pending, when the I/O context is dropped. \<open>Session_Close\<close> splits
    \<open>close\<close> into its accesses, for a posted call that overlaps a handler.
  \<^item> \<^verbatim>\<open>server/src/server.cpp\<close> is \<open>Server\<close>: configuration, counters, and the accept handler one atomic
    access at a time (\<open>accept_action\<close>), interleaved with the sessions (\<open>server_step\<close>). \<open>Server_Main\<close>
    is \<open>main\<close>, on the ways a process ends in \<open>Process\<close>.
  \<^item> \<^verbatim>\<open>load_generator/src/\<close> is \<open>Metrics\<close> (counters, samples, percentiles), \<open>Metrics_Report\<close> (the printed
    table), \<open>Load_Requests\<close> (the random requests), \<open>Client_Session\<close> (one client), \<open>Load_Generator\<close>
    (all of them, with the stop timer) and \<open>Load_Main\<close> (\<open>main\<close>).
  \<^item> \<^verbatim>\<open>ui_client/src/MainDlg.cpp\<close> is \<open>Ui_Protocol\<close> (its own codec and the blocking socket loops),
    \<open>Ui_Text\<close> (wide texts, and what Windows provides), \<open>Ui_Commands\<close> (the commands and the exact log
    lines they write), \<open>Ui_Menu\<close> (the command table and the switch over it) and \<open>Ui_Dialog\<close> (controls,
    worker thread and posted messages); \<^verbatim>\<open>ui_client/src/HSClientApp.cpp\<close> is \<open>Ui_App\<close>.
  \<^item> The compositions are \<open>Load_Link\<close> and \<open>Load_Loopback\<close> (a load client and a session, with the
    bytes in transit between them), \<open>Load_System\<close> and \<open>Load_System_Run\<close> (the whole load test: all clients,
    the timer, the server with its acceptor, and a connection per client), \<open>Session_Link\<close>,
    \<open>Ui_Loopback\<close>, \<open>Ui_Responses\<close> and \<open>Ui_Interop\<close> (the blocking user interface and a session), \<open>Ui_System\<close> (the whole dialog and the server),
    \<open>Server_Orders\<close> (the server on its own services) and this theory. \<open>Prelude\<close> and \<open>Async_IO\<close> hold
    what they share: words and bytes, \<open>std::string\<close> searches, decimal output, reachability, completions.

  \<^bold>\<open>Interfaces.\<close> \<open>transition_system\<close> (start, step and invariant; interpreted for sessions, the server,
  clients, the load generator, the dialog, the dialog with its server, the connection of a load client
  and the whole load test), \<open>header_codec\<close> (framing over a byte stream; both codecs), \<open>dispatcher\<close> (what a session relies on of the router), \<open>rounding\<close> (double
  arithmetic), \<open>stream_socket\<close> and \<open>reliable_socket\<close> (documented behaviour of \<open>send\<close> and \<open>recv\<close>;
  discharged by the connection to a session). Each is interpreted on the model's own definitions.

  \<^bold>\<open>What is shown.\<close>
  \<^item> Protocol: the header and framed streams survive the wire on hosts of the same byte order; the
    user interface's codec is the server's codec on a big-endian host.
  \<^item> Session: over any input it answers exactly the frames that an abstract request/response server
    answers, in order; under every schedule the close callback runs at most once, at most one operation
    is outstanding, and no body above 16 MB is read. Where a posted close overlaps a handler, the owner may
    be called twice, and the server then turns every connection away (\<open>Session_Close\<close>).
  \<^item> Server: sessions never exceed the limit, identifiers are distinct; an exception between counting
    and arming the accept loop ends the process; what the process prints, in particular that the shutdown
    message always reports 0 requests; no two order acknowledgements written on any connections carry the
    same number (\<open>Server_Orders\<close>).
  \<^item> Services: the text of each answer on every branch, that the clients' extractors read back what
    the server put in, that candles are consistent and answers fit into a frame, and where they do not;
    exactly which acknowledgements and SQL responses are JSON, and what a strict parser reads in them
    (\<open>Json_Responses\<close>).
  \<^item> Load generator: the accounting of clients, successes and errors; termination within five handlers
    per client after the stop flag; how many states of the random generator give each kind of request; the percentiles and the printed table. In the whole load
    test, with any number of clients, the errors are exactly those of clients turned away at the server's
    limit after sending a request, nothing blocks, and after the stop timer everything comes to rest with every counter at its final value,
    however bytes are cut in transit and all handlers interleave; and what both programs then print.
  \<^item> User interface: every line that each command of the menu logs, against a server on a big-endian
    host, which answers, and on a little-endian host, which refuses every request; that after a receive that
    timed out every command shows the answer of the one before; that the dialog has one worker, which alone
    uses the socket, that the output box holds exactly the lines handled since it was cleared, with time
    stamps, and that the dialog comes to rest; what becomes of a worker when the dialog is closed over it;
    that, whatever the user does with the open dialog, against a big-endian server no line of the log
    starts with the cross sign by which commands report failures (\<open>Ui_System\<close>); that Winsock is cleaned up.

  \<^bold>\<open>Bounds and parameters.\<close> A payload has at most 16777216 octets, on both sides. \<open>sin\<close> and \<open>cos\<close> are
  parameters; properties that need it assume \<open>libm_bounded\<close>, values between -1 and 1. The signedness
  of \<open>char\<close> and the effect of a signed overflow are parameters as well (\<open>platform\<close>); where C++ leaves
  the result undefined the model has no value or the parameter. \<open>world_ok\<close> is a clock between 1971 and
  the year 31 million or so, so that dates are printed with a bounded width. Doubles are rationals with
  53 significant bits and no exponent bound. The loops of \<open>SendAll\<close> and \<open>RecvAll\<close>
  end because every round that does not leave them transfers at least one octet, which is their
  termination measure. Fuel is used once, by the JSON reader of the
  specification: \<open>read_value\<close> gets twice the length of its text plus one, and \<open>read_fuel\<close> shows that more
  does not change what it reads.

  \<^bold>\<open>Concurrency.\<close> A handler of a session, a client or the dialog is one step, since the code runs at most
  one handler of such an object at a time; the accept handler is split at its atomic accesses. The
  exception is a session on which \<open>stop\<close> was called, whose posted close is not ordered with its handlers:
  \<open>Session_Close\<close> interleaves the accesses of both. The body of the dialog's worker is one step; it may run
  before or after the dialog is closed. Sending and receiving are reliable and ordered unless they fail;
  in \<open>Load_System\<close> they do not fail, and a receive that times out is in \<open>Ui_Interop\<close> (\<open>late_api\<close>).

  \<^bold>\<open>The log of the user interface.\<close> A line is a list of UTF-16 code units. Literals are written as ASCII
  texts (\<open>wide\<close>) joined with the code units of their other signs; text from a response goes through the
  conversion of the environment (\<open>win_env\<close>), which also gives the clock readings, numbered in the order
  they are taken, so that the lines are equations with nothing left out.

  \<^bold>\<open>Not modelled.\<close> Boost.Program_options, whose result is a parameter of \<open>server_main\<close> and
  \<open>loadgen_main\<close>; the signal set, a signal being a stop event; the headers of the services, which are declarations; of the
  Windows user interface the initialisation of its common controls, its resources and its colours,
  \<open>DoDataExchange\<close>, which attaches the controls, and the flag \<open>m_workerRunning\<close>, which nothing uses.
\<close>

section \<open>Properties across components\<close>

text \<open>
  A whole conversation with the server: a buy order framed by a client, sent to a session on the
  server's router, and the bytes that come back, decoded.
\<close>

lemma run_one_request:
  fixes w :: world
  assumes "length req \<le> 16777216"
    and "answer P w (mt_code t) req = Some (s, w')" and "length s \<le> 16777216"
  shows "\<exists>s'. run_session E (dispatch (server_router P)) w (start (make_session sid))
       (message_bytes E (make_message (mt_code t) req 0)) =
         (w', s', message_bytes E (make_message (mt_code t OR 0x8000) s 0))
     \<and> session.closed s'"
    and "split_frames (decode_header E) wire_len (message_bytes E (make_message (mt_code t OR 0x8000) s 0)) =
      ([(header (make_message (mt_code t OR 0x8000) s 0), bytes_of_string s)], [])"
proof -
  let ?m = "make_message (mt_code t) req 0" and ?r = "make_message (mt_code t OR 0x8000) s 0"
  have aw: "awaiting_header (start (make_session sid))"
    by (simp add: awaiting_header_def start_def do_read_header_def make_session_def)
  have one: "split_frames (decode_header E) wire_len (message_bytes E (make_message c q 0)) =
      ([(header (make_message c q 0), bytes_of_string q)], [])" if "length q \<le> 16777216" for c q
    using wire.split_frames_enc [of "[(header (make_message c q 0), bytes_of_string q)]" E "[]"]
      make_message_ok [OF that, of c 0] by (simp add: message_bytes_def)
  have m: "\<lparr>header = header ?m, payload = req\<rparr> = ?m"
    by simp
  have "dispatch (server_router P) w ?m = (?r, w')"
    using assms(2) by (simp add: server_dispatch_answer)
  then have d: "dispatch (server_router P) w \<lparr>header = header ?m, payload = req\<rparr> = (?r, w')"
    unfolding m .
  show "\<exists>s'. run_session E (dispatch (server_router P)) w (start (make_session sid)) (message_bytes E ?m) =
         (w', s', message_bytes E ?r) \<and> session.closed s'"
    using run_session_refines [OF aw, of E "dispatch (server_router P)" w "message_bytes E ?m"]
    by (auto simp: one [OF assms(1)] d)
  show "split_frames (decode_header E) wire_len (message_bytes E ?r) = ([(header ?r, bytes_of_string s)], [])"
    by (rule one [OF assms(3)])
qed

text \<open>A buy order of at most four million octets sent as one frame to a fresh session of the server is answered by exactly one frame,
  an order acknowledgement, in which the client reads the order number drawn from the process-wide
  counter and the status FILLED; the session has then consumed the input and closed, and the counter
  has advanced by one.\<close>

theorem buy_order_round_trip:
  assumes "length req \<le> 4000000"
  shows "\<exists>w' s' out ack.
     run_session E (dispatch (server_router P)) w (start (make_session sid))
       (message_bytes E (make_message (mt_code kBuyOrder) req 0)) = (w', s', out)
     \<and> split_frames (decode_header E) wire_len out =
         ([(header (make_message (mt_code kOrderAck) ack 0), bytes_of_string ack)], [])
     \<and> ExtractField ack ''order_id'' = ''ORD-'' @ nat_str (unat (g_order_counter w))
     \<and> ExtractField ack ''status'' = ''FILLED''
     \<and> g_order_counter w' = g_order_counter w + 1 \<and> session.closed s'"
proof -
  let ?ack = "fst (build_order_ack (g_order_counter w) req ''BUY'')"
  have a: "answer P w (mt_code kBuyOrder) req =
      Some (?ack, w\<lparr>g_order_counter := g_order_counter w + 1\<rparr>)"
    by (simp add: answer_def)
  have len: "length ?ack \<le> 16777216"
    using assms length_build_order_ack [of "g_order_counter w" req "''BUY''"] by simp
  have req: "length req \<le> 16777216"
    using assms by simp
  have ack: "mt_code kBuyOrder OR 0x8000 = mt_code kOrderAck"
    by simp
  note run = run_one_request [OF req a len, where E = E, unfolded ack]
  from run(1) [of sid] obtain s' where s': "run_session E (dispatch (server_router P)) w (start (make_session sid))
      (message_bytes E (make_message (mt_code kBuyOrder) req 0)) =
      (w\<lparr>g_order_counter := g_order_counter w + 1\<rparr>, s', message_bytes E (make_message (mt_code kOrderAck) ?ack 0))"
    and c: "session.closed s'"
    by blast
  show ?thesis
    by (intro exI conjI, rule s', rule run(2)) (simp_all add: ack_ExtractField order_id_str_def c)
qed

theorem buy_order_round_trip_witness:
  "\<exists>w' s' out ack.
     run_session LittleEndian (dispatch (server_router
         \<lparr>plat_libm = \<lparr>sin_d = (\<lambda>x. 0), cos_d = (\<lambda>x. 1)\<rparr>, plat_char_signed = True, plat_overflow = Inr\<rparr>))
       (initial_world 0) (start (make_session 1))
       (message_bytes LittleEndian (make_message (mt_code kBuyOrder)
         (render_obj [(''symbol'', JStr ''IBM''), (''qty'', JRaw ''5'')]) 0)) = (w', s', out)
     \<and> split_frames (decode_header LittleEndian) wire_len out =
         ([(header (make_message (mt_code kOrderAck) ack 0), bytes_of_string ack)], [])
     \<and> ExtractField ack ''order_id'' = ''ORD-'' @ nat_str (unat (g_order_counter (initial_world 0)))
     \<and> ExtractField ack ''status'' = ''FILLED''
     \<and> g_order_counter w' = g_order_counter (initial_world 0) + 1 \<and> session.closed s'"
  by (rule buy_order_round_trip) simp

end
